(* ===== verification/C_Prelude.thy ===== *)
theory C_Prelude
  imports "HOL-Library.Word" "HOL-Library.Monad_Syntax"
begin

text \<open>
  Shared by every component: the names of the machine types, checked access to C
  arrays (an access outside the array is \<open>None\<close>: undefined behaviour in the source),
  counted loops over a state that can fail, and the lemmas on them that carry the
  component proofs.
\<close>

unbundle bit_operations_syntax

subsection \<open>Machine types\<close>

type_synonym u8 = "8 word"
type_synonym u16 = "16 word"
type_synonym u32 = "32 word"
type_synonym u64 = "64 word"

text \<open>Values of C's 32-bit and 64-bit signed types, when they are kept as \<open>int\<close>.\<close>

definition int32_range :: "int \<Rightarrow> bool" where
  "int32_range n \<longleftrightarrow> - (2 ^ 31) \<le> n \<and> n < 2 ^ 31"

definition int64_range :: "int \<Rightarrow> bool" where
  "int64_range n \<longleftrightarrow> - (2 ^ 63) \<le> n \<and> n < 2 ^ 63"

named_theorems array_simps \<open>checked array access\<close>
named_theorems loop_intros \<open>rules for counted loops\<close>

subsection \<open>Checked array access\<close>

definition rd :: "'a list \<Rightarrow> int \<Rightarrow> 'a option" where
  "rd xs i = (if 0 \<le> i \<and> i < int (length xs) then Some (xs ! nat i) else None)"

definition wr :: "'a list \<Rightarrow> int \<Rightarrow> 'a \<Rightarrow> 'a list option" where
  "wr xs i v = (if 0 \<le> i \<and> i < int (length xs) then Some (xs[nat i := v]) else None)"

lemma rd_Some [array_simps]: "0 \<le> i \<Longrightarrow> i < int (length xs) \<Longrightarrow> rd xs i = Some (xs ! nat i)"
  by (simp add: rd_def)

lemma rd_None [array_simps]: "i < 0 \<or> int (length xs) \<le> i \<Longrightarrow> rd xs i = None"
  by (auto simp: rd_def)

lemma rd_eq_Some_iff: "rd xs i = Some v \<longleftrightarrow> 0 \<le> i \<and> i < int (length xs) \<and> xs ! nat i = v"
  by (auto simp: rd_def)

lemma wr_Some [array_simps]: "0 \<le> i \<Longrightarrow> i < int (length xs) \<Longrightarrow> wr xs i v = Some (xs[nat i := v])"
  by (simp add: wr_def)

lemma wr_eq_Some_iff: "wr xs i v = Some ys \<longleftrightarrow> 0 \<le> i \<and> i < int (length xs) \<and> ys = xs[nat i := v]"
  by (auto simp: wr_def)

lemma rd_of_nat [array_simps]: "n < length xs \<Longrightarrow> rd xs (int n) = Some (xs ! n)"
  by (simp add: rd_def)

lemma wr_of_nat [array_simps]: "n < length xs \<Longrightarrow> wr xs (int n) v = Some (xs[n := v])"
  by (simp add: wr_def)

text \<open>
  A C pointer to read-only data: an array and an offset into it, so that pointer
  arithmetic (\<open>input + width * height\<close>) moves the offset and reads stay checked.
\<close>

type_synonym 'a ptr = "'a list \<times> int"

definition rdp :: "'a ptr \<Rightarrow> int \<Rightarrow> 'a option" where
  "rdp p i = rd (fst p) (snd p + i)"

definition ptr_add :: "'a ptr \<Rightarrow> int \<Rightarrow> 'a ptr" where
  "ptr_add p n = (fst p, snd p + n)"

text \<open>\<open>readable p n\<close>: the first \<open>n\<close> elements behind the pointer can be read.\<close>

definition readable :: "'a ptr \<Rightarrow> int \<Rightarrow> bool" where
  "readable p n \<longleftrightarrow> 0 \<le> snd p \<and> snd p + n \<le> int (length (fst p))"

definition at :: "'a ptr \<Rightarrow> int \<Rightarrow> 'a" where
  "at p i = fst p ! nat (snd p + i)"

lemma rdp_readable [array_simps]: "readable p n \<Longrightarrow> 0 \<le> i \<Longrightarrow> i < n \<Longrightarrow> rdp p i = Some (at p i)"
  by (simp add: readable_def rdp_def at_def rd_Some)

lemma readable_mono: "readable p n \<Longrightarrow> m \<le> n \<Longrightarrow> readable p m"
  by (simp add: readable_def)

subsection \<open>Counted loops\<close>

text \<open>
  \<open>loopM body is s\<close> runs \<open>body i\<close> for each \<open>i\<close> of the list, from left to right, on a
  state; a failing iteration ends the loop. \<open>for (i = 0; i < n; i++)\<close> is
  \<open>loopM body [0..<nat n]\<close>.
\<close>

fun loopM :: "('i \<Rightarrow> 's \<Rightarrow> 's option) \<Rightarrow> 'i list \<Rightarrow> 's \<Rightarrow> 's option" where
  "loopM body [] s = Some s"
| "loopM body (i # is) s = (case body i s of None \<Rightarrow> None | Some s' \<Rightarrow> loopM body is s')"

lemma loopM_append:
  "loopM body (is @ js) s = (case loopM body is s of None \<Rightarrow> None | Some s' \<Rightarrow> loopM body js s')"
  by (induction "is" arbitrary: s) (auto split: option.splits)

text \<open>The invariant rule: every iteration succeeds and moves the invariant on by one.\<close>

lemma loopM_upt [loop_intros]:
  assumes step: "\<And>i s. i < n \<Longrightarrow> Inv i s \<Longrightarrow> \<exists>s'. body i s = Some s' \<and> Inv (Suc i) s'"
    and start: "Inv 0 s"
  shows "\<exists>s'. loopM body [0..<n] s = Some s' \<and> Inv n s'"
proof -
  have "k \<le> n \<Longrightarrow> \<exists>s'. loopM body [0..<k] s = Some s' \<and> Inv k s'" for k
  proof (induction k)
    case 0
    then show ?case using start by simp
  next
    case (Suc k)
    then obtain s' where "loopM body [0..<k] s = Some s'" and "Inv k s'" by auto
    moreover obtain s'' where "body k s' = Some s''" and "Inv (Suc k) s''"
      using step [of k s'] Suc.prems \<open>Inv k s'\<close> by auto
    ultimately show ?case by (auto simp: loopM_append)
  qed
  then show ?thesis by simp
qed

text \<open>A loop with an iteration that fails in every state the earlier ones reach, fails.\<close>

lemma loopM_upt_None:
  assumes step: "\<And>i s. i < k \<Longrightarrow> Inv i s \<Longrightarrow> body i s = None \<or> (\<exists>s'. body i s = Some s' \<and> Inv (Suc i) s')"
    and start: "Inv 0 s" and fail: "\<And>s. Inv k s \<Longrightarrow> body k s = None" and less: "k < n"
  shows "loopM body [0..<n] s = None"
proof -
  have *: "j \<le> k \<Longrightarrow> loopM body [0..<j] s = None \<or> (\<exists>s'. loopM body [0..<j] s = Some s' \<and> Inv j s')" for j
  proof (induction j)
    case 0
    then show ?case using start by simp
  next
    case (Suc j)
    then show ?case using step [of j]
      by (fastforce simp: loopM_append)
  qed
  have "[0..<n] = [0..<k] @ k # [Suc k..<n]"
    using less by (metis upt_add_eq_append upt_conv_Cons le0 less_imp_add_positive)
  with * [of k] fail show ?thesis
    by (auto simp: loopM_append)
qed

text \<open>Two nested loops, with an end-of-row action: the raster scan of an image.\<close>

lemma loopM_raster:
  assumes cell: "\<And>y x s. y < h \<Longrightarrow> x < w \<Longrightarrow> Inv y x s \<Longrightarrow> \<exists>s'. body y x s = Some s' \<and> Inv y (Suc x) s'"
    and row: "\<And>y s. y < h \<Longrightarrow> Inv y w s \<Longrightarrow> \<exists>s'. rowend y s = Some s' \<and> Inv (Suc y) 0 s'"
    and start: "Inv 0 0 s"
  shows "\<exists>s'. loopM (\<lambda>y s. Option.bind (loopM (body y) [0..<w] s) (rowend y)) [0..<h] s = Some s' \<and> Inv h 0 s'"
proof (rule loopM_upt)
  fix y s assume y: "y < h" and s: "Inv y 0 s"
  have "\<exists>s'. loopM (body y) [0..<w] s = Some s' \<and> Inv y w s'"
    by (rule loopM_upt) (use cell y s in auto)
  then show "\<exists>s'. Option.bind (loopM (body y) [0..<w] s) (rowend y) = Some s' \<and> Inv (Suc y) 0 s'"
    using row [OF y] by fastforce
qed (rule start)

lemma loopM_raster0:
  assumes cell: "\<And>y x s. y < h \<Longrightarrow> x < w \<Longrightarrow> Inv y x s \<Longrightarrow> \<exists>s'. body y x s = Some s' \<and> Inv y (Suc x) s'"
    and row: "\<And>y s. y < h \<Longrightarrow> Inv y w s \<Longrightarrow> Inv (Suc y) 0 s"
    and start: "Inv 0 0 s"
  shows "\<exists>s'. loopM (\<lambda>y s. loopM (body y) [0..<w] s) [0..<h] s = Some s' \<and> Inv h 0 s'"
  using loopM_raster [where rowend = "\<lambda>y. Some", of h w Inv body s] assms by simp

subsection \<open>Integers and bits\<close>

lemma int_and_mask: "(n::int) AND 255 = n mod 256" "(n::int) AND 31 = n mod 32" "(n::int) AND 63 = n mod 64"
  by (simp_all flip: take_bit_eq_mod [of 8, simplified] take_bit_eq_mod [of 5, simplified] take_bit_eq_mod [of 6, simplified]
      add: take_bit_eq_mask mask_eq_exp_minus_1)

lemma int_shiftr: "drop_bit k (n::int) = n div 2 ^ k"
  by (simp add: drop_bit_eq_div)

lemma half_of_nat [simp]: "drop_bit (Suc 0) (int n) = int (n div 2)"
  by (simp add: drop_bit_eq_div zdiv_int)

lemma uint_u8_bounds: "0 \<le> uint (b :: u8)" "uint (b :: u8) \<le> 255"
  using uint_lt2p [of b] by auto

lemma or_add:
  fixes a b :: int
  assumes "0 \<le> b" "b < 2 ^ k"
  shows "push_bit k a OR b = push_bit k a + b"
proof -
  have "take_bit k b = b"
    using assms by (simp add: take_bit_int_eq_self)
  moreover have "push_bit k a AND take_bit k b = 0"
    by (auto simp: bit_eq_iff bit_simps)
  ultimately show ?thesis
    by (metis disjunctive_add_eq_or)
qed

lemma uint_word_of_int_small: "0 \<le> n \<Longrightarrow> n < 2 ^ LENGTH('a) \<Longrightarrow> uint (word_of_int n :: 'a::len word) = n"
  by (simp add: uint_word_of_int)

lemma bit_128: "bit (128 :: nat) n \<longleftrightarrow> n = 7" "bit (128 :: int) n \<longleftrightarrow> n = 7"
proof -
  have e: "(128 :: nat) = push_bit 7 1" "(128 :: int) = push_bit 7 1" by (simp_all add: push_bit_eq_mult)
  show "bit (128 :: nat) n \<longleftrightarrow> n = 7"
    by (subst e(1), simp only: bit_push_bit_iff_nat bit_1_iff) auto
  show "bit (128 :: int) n \<longleftrightarrow> n = 7"
    by (subst e(2), simp only: bit_push_bit_iff_int bit_1_iff) auto
qed

lemma bit_127: "bit (127 :: nat) n \<longleftrightarrow> n < 7" "bit (127 :: int) n \<longleftrightarrow> n < 7"
proof -
  have e: "(127 :: nat) = mask 7" "(127 :: int) = mask 7" by (simp_all add: mask_eq_exp_minus_1)
  show "bit (127 :: nat) n \<longleftrightarrow> n < 7" "bit (127 :: int) n \<longleftrightarrow> n < 7"
    unfolding e by (auto simp: bit_mask_iff)
qed

lemma unat_drop_div: "unat (drop_bit k (w :: 'a::len word)) = unat w div 2 ^ k"
  by (metis unat_drop_bit_eq drop_bit_eq_div)

lemma unat_power2:
  assumes "n < LENGTH('a)"
  shows "unat (2 ^ n :: 'a::len word) = 2 ^ n"
proof -
  have "unat (of_nat (2 ^ n) :: 'a word) = take_bit LENGTH('a) (2 ^ n)"
    by (simp only: unsigned_of_nat of_nat_id)
  also have "\<dots> = 2 ^ n"
    using assms by (simp add: take_bit_eq_mod)
  finally show ?thesis by simp
qed

lemma ucast_up_down: "LENGTH('a) \<le> LENGTH('b) \<Longrightarrow> ucast (ucast (x :: 'a::len word) :: 'b::len word) = x"
  by (rule bit_word_eqI) (simp add: bit_simps)

lemma word_small_bit:
  assumes "unat (v :: 'a::len word) < 2 ^ n" "n \<le> k"
  shows "\<not> bit v k"
proof -
  have "unat v < 2 ^ k"
    using assms by (meson less_le_trans one_le_numeral power_increasing)
  then have "unat v div 2 ^ k = 0" by simp
  then have "\<not> bit (unat v) k" by (simp add: bit_iff_odd)
  then show ?thesis by (auto simp: bit_unsigned_iff dest: bit_imp_le_length)
qed

lemma unat_ucast_up: "LENGTH('a) \<le> LENGTH('b) \<Longrightarrow> unat (ucast (x :: 'a::len word) :: 'b::len word) = unat x"
  by (simp add: unsigned_ucast_eq take_bit_nat_eq_self less_le_trans [OF unsigned_less])

lemma ucast_and_255: "ucast (v AND 255) = (ucast v :: u8)" for v :: "'a::len word"
proof -
  have "(255 :: 'a word) = mask 8" by (simp add: mask_eq_exp_minus_1)
  then have "bit (255 :: 'a word) n \<longleftrightarrow> n < LENGTH('a) \<and> n < 8" for n by (metis bit_mask_iff possible_bit_word)
  then have "bit (v AND 255) n \<longleftrightarrow> bit v n \<and> n < 8" for n by (auto simp: bit_and_iff dest: bit_imp_le_length)
  then show ?thesis by (intro bit_word_eqI) (simp add: bit_ucast_iff)
qed

lemma upt_2_4_8:
  "[0..<2] = [0, 1]" "[0..<4] = [0, 1, 2, 3]" "[0..<8] = [0, 1, 2, 3, 4, 5, 6, 7]"
  by (simp_all add: upt_rec)

end
