(* ===== verification/ImageYuv.thy ===== *)
theory ImageYuv
  imports C_Prelude
begin

text \<open>
  \<open>jni/yuv2rgb.cc\<close>: the converters of camera frames to ARGB8888 and RGB565. An image buffer
  is a list, a moving pointer the offset it has reached; a read or write outside a buffer is \<open>None\<close>.
  The definitions follow the four converters; the lemmas show each of them to be the painting of
  the picture with a colour computed pixel by pixel (\<open>painted\<close>, \<open>sp_pixel\<close>, \<open>planar_pixel\<close>, \<open>half_pixel\<close>). Offsets,
  an \<open>int\<close> in the code, do not overflow here: pictures have less than \<open>2 ^ 31\<close> samples. The branches for Apple systems are left out.
\<close>

definition kMaxChannelValue :: int where
  "kMaxChannelValue = 262143"

definition YUV2RGB :: "int \<Rightarrow> int \<Rightarrow> int \<Rightarrow> u32" where
  "YUV2RGB nY nU nV =
     (let nY = nY - 16;
          nU = nU - 128;
          nV = nV - 128;
          nY = (if nY < 0 then 0 else nY);
          nR = 1192 * nY + 1634 * nV;
          nG = 1192 * nY - 833 * nV - 400 * nU;
          nB = 1192 * nY + 2066 * nU;
          nR = min kMaxChannelValue (max 0 nR);
          nG = min kMaxChannelValue (max 0 nG);
          nB = min kMaxChannelValue (max 0 nB);
          nR = drop_bit 10 nR AND 0xff;
          nG = drop_bit 10 nG AND 0xff;
          nB = drop_bit 10 nB AND 0xff
      in 0xff000000 OR word_of_int (push_bit 16 nR) OR word_of_int (push_bit 8 nG) OR word_of_int nB)"

definition YUV2RGB565 :: "int \<Rightarrow> int \<Rightarrow> int \<Rightarrow> u16" where
  "YUV2RGB565 nY nU nV =
     (let nY = nY - 16;
          nU = nU - 128;
          nV = nV - 128;
          nY = (if nY < 0 then 0 else nY);
          nR = 1192 * nY + 1634 * nV;
          nG = 1192 * nY - 833 * nV - 400 * nU;
          nB = 1192 * nY + 2066 * nU;
          nR = min kMaxChannelValue (max 0 nR);
          nG = min kMaxChannelValue (max 0 nG);
          nB = min kMaxChannelValue (max 0 nB);
          nR = drop_bit 13 nR AND 0x1f;
          nG = drop_bit 12 nG AND 0x3f;
          nB = drop_bit 13 nB AND 0x1f
      in word_of_int (push_bit 11 nR OR push_bit 5 nG OR nB))"

definition ConvertYUV420ToARGB8888 ::
    "u8 ptr \<Rightarrow> u8 ptr \<Rightarrow> u8 ptr \<Rightarrow> u32 list \<Rightarrow> int \<Rightarrow> int \<Rightarrow> int \<Rightarrow> int \<Rightarrow> int \<Rightarrow> u32 list option" where
  "ConvertYUV420ToARGB8888 yData uData vData output width height y_row_stride uv_row_stride uv_pixel_stride =
     map_option snd
      (loopM (\<lambda>y s.
         let pY = ptr_add yData (y_row_stride * int y);
             uv_row_start = uv_row_stride * drop_bit 1 (int y);
             pU = ptr_add uData uv_row_start;
             pV = ptr_add vData uv_row_start
         in loopM (\<lambda>x (out, px). do {
              let uv_offset = drop_bit 1 (int x) * uv_pixel_stride;
              nY \<leftarrow> rdp pY (int x);
              nU \<leftarrow> rdp pU uv_offset;
              nV \<leftarrow> rdp pV uv_offset;
              px' \<leftarrow> wr px out (YUV2RGB (uint nY) (uint nU) (uint nV));
              Some (out + 1, px') }) [0..<nat width] s)
       [0..<nat height] (0, output))"

definition ConvertYUV420SPToARGB8888 ::
    "u8 ptr \<Rightarrow> u8 ptr \<Rightarrow> u32 list \<Rightarrow> int \<Rightarrow> int \<Rightarrow> u32 list option" where
  "ConvertYUV420SPToARGB8888 yData uvData output width height =
     map_option (snd \<circ> snd)
      (loopM (\<lambda>y s. loopM (\<lambda>x (pY, out, px). do {
              nY \<leftarrow> rdp yData pY;
              let offset = drop_bit 1 (int y) * width + 2 * drop_bit 1 (int x);
              nV \<leftarrow> rdp uvData offset;
              nU \<leftarrow> rdp uvData (offset + 1);
              px' \<leftarrow> wr px out (YUV2RGB (uint nY) (uint nU) (uint nV));
              Some (pY + 1, out + 1, px') }) [0..<nat width] s)
       [0..<nat height] (0, 0, output))"

definition ConvertYUV420SPToARGB8888HalfSize ::
    "u8 ptr \<Rightarrow> u32 list \<Rightarrow> int \<Rightarrow> int \<Rightarrow> u32 list option" where
  "ConvertYUV420SPToARGB8888HalfSize input output width height =
     (let uv = ptr_add input (width * height);
          stride = width;
          width = drop_bit 1 width;
          height = drop_bit 1 height
      in map_option (\<lambda>(pY, pUV, out, px). px)
      (loopM (\<lambda>y s. do {
          (pY, pUV, out, px) \<leftarrow> loopM (\<lambda>x (pY, pUV, out, px). do {
              y0 \<leftarrow> rdp input pY;
              y1 \<leftarrow> rdp input (pY + 1);
              y2 \<leftarrow> rdp input (pY + stride);
              y3 \<leftarrow> rdp input (pY + (stride + 1));
              let nY = drop_bit 2 (uint y0 + uint y1 + uint y2 + uint y3);
              nV \<leftarrow> rdp uv pUV;
              nU \<leftarrow> rdp uv (pUV + 1);
              px' \<leftarrow> wr px out (YUV2RGB nY (uint nU) (uint nV));
              Some (pY + 2, pUV + 2, out + 1, px') }) [0..<nat width] s;
          Some (pY + stride, pUV, out, px) })
       [0..<nat height] (0, 0, 0, output)))"

definition ConvertYUV420SPToRGB565 :: "u8 ptr \<Rightarrow> u16 list \<Rightarrow> int \<Rightarrow> int \<Rightarrow> u16 list option" where
  "ConvertYUV420SPToRGB565 input output width height =
     (let pUV = ptr_add input (width * height)
      in map_option (snd \<circ> snd)
      (loopM (\<lambda>y s. loopM (\<lambda>x (pY, out, px). do {
              nY \<leftarrow> rdp input pY;
              let offset = drop_bit 1 (int y) * width + 2 * drop_bit 1 (int x);
              nV \<leftarrow> rdp pUV offset;
              nU \<leftarrow> rdp pUV (offset + 1);
              px' \<leftarrow> wr px out (YUV2RGB565 (uint nY) (uint nU) (uint nV));
              Some (pY + 1, out + 1, px') }) [0..<nat width] s)
       [0..<nat height] (0, 0, output)))"

definition rgb_R :: "int \<Rightarrow> int \<Rightarrow> int" where "rgb_R y v = 1192 * max 0 (y - 16) + 1634 * (v - 128)"
definition rgb_G :: "int \<Rightarrow> int \<Rightarrow> int \<Rightarrow> int" where "rgb_G y u v = 1192 * max 0 (y - 16) - 833 * (v - 128) - 400 * (u - 128)"
definition rgb_B :: "int \<Rightarrow> int \<Rightarrow> int" where "rgb_B y u = 1192 * max 0 (y - 16) + 2066 * (u - 128)"
definition clamp8 :: "int \<Rightarrow> int" where "clamp8 n = min 255 (max 0 n)"
definition argb :: "int \<Rightarrow> int \<Rightarrow> int \<Rightarrow> int \<Rightarrow> int" where
  "argb a r g b = 16777216 * a + 65536 * r + 256 * g + b"

lemma or_bytes:
  fixes a r g b :: int
  assumes "0 \<le> r" "r < 256" "0 \<le> g" "g < 256" "0 \<le> b" "b < 256"
  shows "push_bit 24 a OR push_bit 16 r OR push_bit 8 g OR b = argb a r g b"
proof -
  have 1: "push_bit 8 g OR b = 256 * g + b"
    using assms or_add [of b 8 g] by (simp add: push_bit_eq_mult)
  have 2: "push_bit 16 r OR (256 * g + b) = 65536 * r + (256 * g + b)"
    using assms or_add [of "256 * g + b" 16 r] by (simp add: push_bit_eq_mult)
  have "push_bit 24 a OR (65536 * r + (256 * g + b)) = 16777216 * a + (65536 * r + (256 * g + b))"
    using assms or_add [of "65536 * r + (256 * g + b)" 24 a] by (simp add: push_bit_eq_mult)
  then show ?thesis
    by (simp add: or.assoc 1 2 argb_def)
qed

lemma channel8: "drop_bit 10 (min kMaxChannelValue (max 0 n)) AND 255 = clamp8 (n div 1024)"
  by (auto simp: int_and_mask int_shiftr kMaxChannelValue_def clamp8_def min_def max_def)

lemma clamp8_bounds: "0 \<le> clamp8 n" "clamp8 n < 256"
  by (auto simp: clamp8_def)

lemma uint_YUV2RGB:
  "uint (YUV2RGB y u v) =
     argb 255 (clamp8 (rgb_R y v div 1024)) (clamp8 (rgb_G y u v div 1024)) (clamp8 (rgb_B y u div 1024))"
proof -
  have b: "push_bit 16 (clamp8 n) < 4294967296" "0 \<le> push_bit 16 (clamp8 n)"
    "push_bit 8 (clamp8 n) < 4294967296" "0 \<le> push_bit 8 (clamp8 n)" "clamp8 n < 4294967296" for n
    using clamp8_bounds [of n] by (simp_all add: push_bit_eq_mult)
  have "(if y - 16 < 0 then 0 else y - 16) = max 0 (y - 16)"
    by auto
  then have "YUV2RGB y u v = 0xff000000 OR word_of_int (push_bit 16 (clamp8 (rgb_R y v div 1024)))
      OR word_of_int (push_bit 8 (clamp8 (rgb_G y u v div 1024))) OR word_of_int (clamp8 (rgb_B y u div 1024))"
    by (simp only: YUV2RGB_def Let_def channel8 rgb_R_def rgb_G_def rgb_B_def)
  then show ?thesis
    using or_bytes [of "clamp8 (rgb_R y v div 1024)" "clamp8 (rgb_G y u v div 1024)" "clamp8 (rgb_B y u div 1024)" 255]
    by (simp add: clamp8_bounds b uint_or uint_word_of_int_small)
qed


subsection \<open>Raster output\<close>

definition painted :: "(nat \<Rightarrow> nat \<Rightarrow> 'a) \<Rightarrow> nat \<Rightarrow> nat \<Rightarrow> 'a list \<Rightarrow> 'a list" where
  "painted p w n px = map (\<lambda>k. p (k div w) (k mod w)) [0..<n] @ drop n px"

lemma painted_0 [simp]: "painted p w 0 px = px"
  by (simp add: painted_def)

lemma painted_step:
  assumes "x < w" "y * w + x < length px"
  shows "(painted p w (y * w + x) px)[y * w + x := p y x] = painted p w (Suc (y * w + x)) px"
proof -
  have "drop (y * w + x) px = px ! (y * w + x) # drop (Suc (y * w + x)) px"
    using assms(2) by (simp add: Cons_nth_drop_Suc)
  with assms show ?thesis
    by (simp add: painted_def list_update_append)
qed

lemma length_painted [simp]: "n \<le> length px \<Longrightarrow> length (painted p w n px) = length px"
  by (simp add: painted_def)

lemma raster_index: "y < h \<Longrightarrow> x < w \<Longrightarrow> y * w + x < h * (w::nat)"
proof -
  assume "y < h" "x < w"
  then have "y * w + x < Suc y * w" by simp
  also have "\<dots> \<le> h * w" using \<open>y < h\<close> by (intro mult_le_mono1) simp
  finally show ?thesis .
qed

lemma sp_index:
  assumes "y < h" "x < (w::nat)"
  shows "int (y div 2) * int w + 2 * int (x div 2) + 1
           < (int h - 1) div 2 * int w + 2 * ((int w - 1) div 2) + 2"
    and "0 \<le> int (y div 2) * int w + 2 * int (x div 2)"
proof -
  have "int (y div 2) * int w \<le> (int h - 1) div 2 * int w"
    using assms(1) by (intro mult_right_mono) (auto simp: zdiv_int zdiv_mono1)
  moreover have "int (x div 2) \<le> (int w - 1) div 2"
    using assms(2) by (simp add: zdiv_int zdiv_mono1)
  ultimately show "int (y div 2) * int w + 2 * int (x div 2) + 1
           < (int h - 1) div 2 * int w + 2 * ((int w - 1) div 2) + 2"
    by linarith
qed simp

abbreviation "sp_uv_size w h \<equiv> (h - 1) div 2 * w + 2 * ((w - 1) div 2) + 2"

definition sp_pixel :: "(int \<Rightarrow> int \<Rightarrow> int \<Rightarrow> 'a) \<Rightarrow> u8 ptr \<Rightarrow> u8 ptr \<Rightarrow> nat \<Rightarrow> nat \<Rightarrow> nat \<Rightarrow> 'a" where
  "sp_pixel conv yp uvp w y x =
     (let c = int (y div 2 * w + 2 * (x div 2))
      in conv (uint (at yp (int (y * w + x)))) (uint (at uvp (c + 1))) (uint (at uvp c)))"

lemma sp_loop:
  assumes y: "readable yp (int (w * h))" and uv: "readable uvp (sp_uv_size (int w) (int h))"
    and len: "w * h \<le> length px0"
  shows "map_option (snd \<circ> snd)
      (loopM (\<lambda>y s. loopM (\<lambda>x (pY, out, px). do {
              nY \<leftarrow> rdp yp pY;
              let offset = drop_bit 1 (int y) * int w + 2 * drop_bit 1 (int x);
              nV \<leftarrow> rdp uvp offset;
              nU \<leftarrow> rdp uvp (offset + 1);
              px \<leftarrow> wr px out (conv (uint nY) (uint nU) (uint nV));
              Some (pY + 1, out + 1, px) }) [0..<w] s)
       [0..<h] (0, 0, px0)) = Some (painted (sp_pixel conv yp uvp w) w (w * h) px0)"
proof -
  let ?Inv = "\<lambda>y x (pY, out, px). pY = int (y * w + x) \<and> out = int (y * w + x) \<and>
                px = painted (sp_pixel conv yp uvp w) w (y * w + x) px0"
  have "\<exists>s'. loopM (\<lambda>y s. loopM (\<lambda>x (pY, out, px). do {
              nY \<leftarrow> rdp yp pY;
              let offset = drop_bit 1 (int y) * int w + 2 * drop_bit 1 (int x);
              nV \<leftarrow> rdp uvp offset;
              nU \<leftarrow> rdp uvp (offset + 1);
              px \<leftarrow> wr px out (conv (uint nY) (uint nU) (uint nV));
              Some (pY + 1, out + 1, px) }) [0..<w] s) [0..<h] (0, 0, px0) = Some s' \<and> ?Inv h 0 s'"
  proof (rule loopM_raster0, goal_cases)
    case (1 y x s)
    then have idx: "y * w + x < w * h"
      using raster_index [of y h x w] by (simp add: mult.commute)
    obtain pY out px where s: "s = (pY, out, px)" by (cases s)
    have rY: "rdp yp (int (y * w + x)) = Some (at yp (int (y * w + x)))"
      by (rule rdp_readable [OF y]) (use idx in \<open>simp_all flip: of_nat_add of_nat_mult\<close>)
    have rV: "rdp uvp (int (y div 2) * int w + 2 * int (x div 2))
               = Some (at uvp (int (y div 2) * int w + 2 * int (x div 2)))"
      by (rule rdp_readable [OF uv]) (use sp_index [of y h x w] 1 in linarith)+
    have rU: "rdp uvp (int (y div 2) * int w + 2 * int (x div 2) + 1)
               = Some (at uvp (int (y div 2) * int w + 2 * int (x div 2) + 1))"
      by (rule rdp_readable [OF uv]) (use sp_index [of y h x w] 1 in linarith)+
    have px: "conv (uint (at yp (int (y * w + x)))) (uint (at uvp (int (y div 2) * int w + 2 * int (x div 2) + 1)))
                (uint (at uvp (int (y div 2) * int w + 2 * int (x div 2)))) = sp_pixel conv yp uvp w y x"
      by (simp add: sp_pixel_def Let_def)
    show ?case
      using 1 idx len rY rU rV
      by (simp add: s array_simps px painted_step Let_def del: of_nat_add of_nat_mult)
  qed (auto simp: add.commute)
  then show ?thesis
    by (auto simp: mult.commute)
qed


lemma sp_argb:
  assumes "readable yp (int (w * h))" "readable uvp (sp_uv_size (int w) (int h))" "w * h \<le> length px"
  shows "ConvertYUV420SPToARGB8888 yp uvp px (int w) (int h) = Some (painted (sp_pixel YUV2RGB yp uvp w) w (w * h) px)"
  using sp_loop [OF assms, of YUV2RGB]
  by (simp add: ConvertYUV420SPToARGB8888_def)

lemma sp_565:
  assumes "readable inp (int (w * h))" "readable (ptr_add inp (int (w * h))) (sp_uv_size (int w) (int h))" "w * h \<le> length px"
  shows "ConvertYUV420SPToRGB565 inp px (int w) (int h)
    = Some (painted (sp_pixel YUV2RGB565 inp (ptr_add inp (int (w * h))) w) w (w * h) px)"
  using sp_loop [OF assms, of YUV2RGB565]
  by (simp add: ConvertYUV420SPToRGB565_def Let_def)

definition argb_to_565 :: "u32 \<Rightarrow> u16" where
  "argb_to_565 p = word_of_int (2048 * (uint p div 2 ^ 19 mod 32) + 32 * (uint p div 2 ^ 10 mod 64) + uint p div 2 ^ 3 mod 32)"

lemma channel5: "drop_bit 13 (min kMaxChannelValue (max 0 n)) AND 31 = clamp8 (n div 1024) div 8"
  by (auto simp: int_and_mask int_shiftr kMaxChannelValue_def clamp8_def min_def max_def)

lemma channel6: "drop_bit 12 (min kMaxChannelValue (max 0 n)) AND 63 = clamp8 (n div 1024) div 4"
  by (auto simp: int_and_mask int_shiftr kMaxChannelValue_def clamp8_def min_def max_def)

lemma pack565:
  fixes r g b :: int
  assumes "0 \<le> r" "r < 32" "0 \<le> g" "g < 64" "0 \<le> b" "b < 32"
  shows "push_bit 11 r OR push_bit 5 g OR b = 2048 * r + 32 * g + b"
proof -
  have 1: "push_bit 5 g OR b = 32 * g + b"
    using assms or_add [of b 5 g] by (simp add: push_bit_eq_mult)
  have "push_bit 11 r OR (32 * g + b) = 2048 * r + (32 * g + b)"
    using assms or_add [of "32 * g + b" 11 r] by (simp add: push_bit_eq_mult)
  then show ?thesis
    by (simp add: or.assoc 1)
qed

lemma argb_fields:
  assumes "0 \<le> r" "r < 256" "0 \<le> g" "g < 256" "0 \<le> b" "b < 256"
  shows "argb 255 r g b div 2 ^ 19 mod 32 = r div 8" "argb 255 r g b div 2 ^ 10 mod 64 = g div 4"
    "argb 255 r g b div 2 ^ 3 mod 32 = b div 8"
proof -
  have split: "\<exists>q m. n = k * q + m \<and> 0 \<le> m \<and> m < k \<and> n div k = q" if "0 < k" for n k :: int
    using that by (intro exI [of _ "n div k"] exI [of _ "n mod k"]) simp
  obtain q m where r: "r = 8 * q + m" "0 \<le> m" "m < 8" "r div 8 = q" using split [of 8 r] by auto
  have "argb 255 r g b div 524288 = 255 * 32 + q"
    unfolding argb_def by (rule int_div_pos_eq [where r = "65536 * m + 256 * g + b"]) (use assms r(1-3) in simp_all)
  then show "argb 255 r g b div 2 ^ 19 mod 32 = r div 8"
    using assms r mod_mult_self3 [of 255 32 q] by (simp add: mod_pos_pos_trivial)
  obtain q m where g: "g = 4 * q + m" "0 \<le> m" "m < 4" "g div 4 = q" using split [of 4 g] by auto
  have "argb 255 r g b div 1024 = (255 * 256 + r) * 64 + q"
    unfolding argb_def by (rule int_div_pos_eq [where r = "256 * m + b"]) (use assms g(1-3) in simp_all)
  then show "argb 255 r g b div 2 ^ 10 mod 64 = g div 4"
    using assms g mod_mult_self3 [of "255 * 256 + r" 64 q] by (simp add: mod_pos_pos_trivial)
  obtain q m where b: "b = 8 * q + m" "0 \<le> m" "m < 8" "b div 8 = q" using split [of 8 b] by auto
  have "argb 255 r g b div 8 = ((255 * 256 + r) * 256 + g) * 32 + q"
    unfolding argb_def by (rule int_div_pos_eq [where r = "m"]) (use assms b(1-3) in simp_all)
  then show "argb 255 r g b div 2 ^ 3 mod 32 = b div 8"
    using assms b mod_mult_self3 [of "(255 * 256 + r) * 256 + g" 32 q] by (simp add: mod_pos_pos_trivial)
qed

lemma uint_YUV2RGB565:
  "uint (YUV2RGB565 y u v) =
     2048 * (clamp8 (rgb_R y v div 1024) div 8) + 32 * (clamp8 (rgb_G y u v div 1024) div 4) + clamp8 (rgb_B y u div 1024) div 8"
proof -
  let ?r = "clamp8 (rgb_R y v div 1024) div 8" and ?g = "clamp8 (rgb_G y u v div 1024) div 4"
    and ?b = "clamp8 (rgb_B y u div 1024) div 8"
  have b: "0 \<le> ?r \<and> ?r < 32" "0 \<le> ?g \<and> ?g < 64" "0 \<le> ?b \<and> ?b < 32"
    using clamp8_bounds [of "rgb_R y v div 1024"] clamp8_bounds [of "rgb_G y u v div 1024"]
      clamp8_bounds [of "rgb_B y u div 1024"] by auto
  have "(if y - 16 < 0 then 0 else y - 16) = max 0 (y - 16)"
    by auto
  then have "YUV2RGB565 y u v = word_of_int (push_bit 11 ?r OR push_bit 5 ?g OR ?b)"
    by (simp only: YUV2RGB565_def Let_def channel5 channel6 rgb_R_def rgb_G_def rgb_B_def)
  moreover have "push_bit 11 ?r OR push_bit 5 ?g OR ?b = 2048 * ?r + 32 * ?g + ?b"
    by (rule pack565) (use b in auto)
  moreover have "uint (word_of_int (2048 * ?r + 32 * ?g + ?b) :: u16) = 2048 * ?r + 32 * ?g + ?b"
    by (rule uint_word_of_int_small) (use b in auto)
  ultimately show ?thesis
    by presburger
qed

lemma YUV2RGB565_eq: "YUV2RGB565 y u v = argb_to_565 (YUV2RGB y u v)"
proof (rule word_uint_eqI)
  have b: "0 \<le> n mod 32" "n mod 32 < 32" "0 \<le> n mod 64" "n mod 64 < 64" for n :: int
    by simp_all
  have "uint (argb_to_565 p) = 2048 * (uint p div 2 ^ 19 mod 32) + 32 * (uint p div 2 ^ 10 mod 64) + uint p div 2 ^ 3 mod 32" for p
    unfolding argb_to_565_def
    by (rule uint_word_of_int_small)
      (use b [of "uint p div 2 ^ 19"] b [of "uint p div 2 ^ 10"] b [of "uint p div 2 ^ 3"] in auto)
  then show "uint (YUV2RGB565 y u v) = uint (argb_to_565 (YUV2RGB y u v))"
    by (simp only: uint_YUV2RGB565 uint_YUV2RGB argb_fields clamp8_bounds)
qed


subsection \<open>The planar and the half-size converters\<close>

definition planar_pixel :: "u8 ptr \<Rightarrow> u8 ptr \<Rightarrow> u8 ptr \<Rightarrow> int \<Rightarrow> int \<Rightarrow> int \<Rightarrow> nat \<Rightarrow> nat \<Rightarrow> u32" where
  "planar_pixel yp up vp ys uvs ps y x =
     (let c = uvs * int (y div 2) + int (x div 2) * ps
      in YUV2RGB (uint (at yp (ys * int y + int x))) (uint (at up c)) (uint (at vp c)))"

lemma rdp_ptr_add: "rdp (ptr_add p n) i = rdp p (n + i)"
  by (simp add: rdp_def ptr_add_def add.assoc)

lemma planar_argb:
  assumes yp: "\<And>x y. x < w \<Longrightarrow> y < h \<Longrightarrow> rdp yp (ys * int y + int x) = Some (at yp (ys * int y + int x))"
    and up: "\<And>x y. x < w \<Longrightarrow> y < h \<Longrightarrow>
      rdp up (uvs * int (y div 2) + int (x div 2) * ps) = Some (at up (uvs * int (y div 2) + int (x div 2) * ps))"
    and vp: "\<And>x y. x < w \<Longrightarrow> y < h \<Longrightarrow>
      rdp vp (uvs * int (y div 2) + int (x div 2) * ps) = Some (at vp (uvs * int (y div 2) + int (x div 2) * ps))"
    and len: "w * h \<le> length px0"
  shows "ConvertYUV420ToARGB8888 yp up vp px0 (int w) (int h) ys uvs ps
    = Some (painted (planar_pixel yp up vp ys uvs ps) w (w * h) px0)"
proof -
  let ?Inv = "\<lambda>y x (out, px). out = int (y * w + x) \<and>
                px = painted (planar_pixel yp up vp ys uvs ps) w (y * w + x) px0"
  have "\<exists>s'. loopM (\<lambda>y s. loopM (\<lambda>x (out, px). do {
              let uv_offset = drop_bit 1 (int x) * ps;
              nY \<leftarrow> rdp (ptr_add yp (ys * int y)) (int x);
              nU \<leftarrow> rdp (ptr_add up (uvs * drop_bit 1 (int y))) uv_offset;
              nV \<leftarrow> rdp (ptr_add vp (uvs * drop_bit 1 (int y))) uv_offset;
              px \<leftarrow> wr px out (YUV2RGB (uint nY) (uint nU) (uint nV));
              Some (out + 1, px) }) [0..<w] s) [0..<h] (0, px0) = Some s' \<and> ?Inv h 0 s'"
  proof (rule loopM_raster0, goal_cases)
    case (1 y x s)
    then have idx: "y * w + x < w * h"
      using raster_index [of y h x w] by (simp add: mult.commute)
    obtain out px where s: "s = (out, px)" by (cases s)
    have px: "YUV2RGB (uint (at yp (ys * int y + int x))) (uint (at up (uvs * int (y div 2) + int (x div 2) * ps)))
                (uint (at vp (uvs * int (y div 2) + int (x div 2) * ps))) = planar_pixel yp up vp ys uvs ps y x"
      by (simp add: planar_pixel_def Let_def)
    show ?case
      using 1 idx len
      by (simp add: s array_simps rdp_ptr_add yp up vp px painted_step Let_def del: of_nat_add of_nat_mult)
  qed (auto simp: add.commute)
  then show ?thesis
    by (auto simp: ConvertYUV420ToARGB8888_def Let_def mult.commute)
qed

definition half_pixel :: "u8 ptr \<Rightarrow> nat \<Rightarrow> nat \<Rightarrow> nat \<Rightarrow> nat \<Rightarrow> u32" where
  "half_pixel inp w h y x =
     (let p = 2 * y * w + 2 * x; c = int (w * h + y * w + 2 * x)
      in YUV2RGB ((uint (at inp (int p)) + uint (at inp (int (p + 1))) + uint (at inp (int (p + w)))
                   + uint (at inp (int (p + w + 1)))) div 4)
           (uint (at inp (c + 1))) (uint (at inp c)))"

lemma half_argb:
  assumes inp: "readable inp (int (w * h + h div 2 * w))" and even: "even w"
    and len: "w div 2 * (h div 2) \<le> length px0"
  shows "ConvertYUV420SPToARGB8888HalfSize inp px0 (int w) (int h)
    = Some (painted (half_pixel inp w h) (w div 2) (w div 2 * (h div 2)) px0)"
proof -
  let ?w = "w div 2" and ?h = "h div 2"
  let ?P = "half_pixel inp w h"
  let ?Inv = "\<lambda>y x (pY, pUV, out, px). pY = int (2 * y * w + 2 * x) \<and> pUV = int (y * w + 2 * x) \<and>
      out = int (y * ?w + x) \<and> px = painted ?P ?w (y * ?w + x) px0"
  have w: "w = 2 * ?w" using even by simp
  let ?body = "\<lambda>(y::nat) (x::nat) (pY, pUV, out, px). do {
              y0 \<leftarrow> rdp inp pY;
              y1 \<leftarrow> rdp inp (pY + 1);
              y2 \<leftarrow> rdp inp (pY + int w);
              y3 \<leftarrow> rdp inp (pY + (int w + 1));
              let nY = drop_bit 2 (uint y0 + uint y1 + uint y2 + uint y3);
              nV \<leftarrow> rdp (ptr_add inp (int w * int h)) pUV;
              nU \<leftarrow> rdp (ptr_add inp (int w * int h)) (pUV + 1);
              px \<leftarrow> wr px out (YUV2RGB nY (uint nU) (uint nV));
              Some (pY + 2, pUV + 2, out + 1, px) }"
  let ?row = "\<lambda>(y::nat) (pY, pUV, out, px). Some (pY + int w, pUV, out, px)"
  have "\<exists>s'. loopM (\<lambda>y s. Option.bind (loopM (?body y) [0..<?w] s) (?row y)) [0..<?h] (0, 0, 0, px0) = Some s' \<and> ?Inv ?h 0 s'"
  proof (rule loopM_raster [where Inv = ?Inv and body = ?body and rowend = ?row], goal_cases)
    case (1 y x s)
    obtain pY pUV out px where s: "s = (pY, pUV, out, px)" by (cases s)
    let ?p = "2 * y * w + 2 * x"
    have idx: "y * ?w + x < ?w * ?h"
      using raster_index [of y ?h x ?w] 1 by (simp add: mult.commute)
    have p: "?p + w + 1 < w * h"
    proof -
      have "2 * x + 1 < w" using 1(2) w by linarith
      moreover have "(2 * y + 2) * w \<le> h * w" using 1(1) by (intro mult_le_mono1) linarith
      ultimately show ?thesis by (simp add: algebra_simps)
    qed
    have c: "y * w + 2 * x + 1 < ?h * w"
      using raster_index [of y ?h "2 * x + 1" w] 1 w by linarith
    have r: "rdp inp (int k) = Some (at inp (int k))" if "k < w * h + ?h * w" for k
      by (rule rdp_readable [OF inp]) (use that in \<open>simp_all flip: of_nat_add of_nat_mult\<close>)
    have reads: "rdp inp (int ?p) = Some (at inp (int ?p))" "rdp inp (int ?p + 1) = Some (at inp (int (?p + 1)))"
       "rdp inp (int ?p + int w) = Some (at inp (int (?p + w)))"
       "rdp inp (int ?p + (int w + 1)) = Some (at inp (int (?p + w + 1)))"
       "rdp inp (int w * int h + int (y * w + 2 * x)) = Some (at inp (int (w * h + y * w + 2 * x)))"
       "rdp inp (int w * int h + (int (y * w + 2 * x) + 1)) = Some (at inp (int (w * h + y * w + 2 * x) + 1))"
      using p c r [of ?p] r [of "?p + 1"] r [of "?p + w"] r [of "?p + w + 1"] r [of "w * h + y * w + 2 * x"]
        r [of "w * h + y * w + 2 * x + 1"]
      by (simp_all add: ac_simps)
    have px: "YUV2RGB (drop_bit 2 (uint (at inp (int ?p)) + uint (at inp (int (?p + 1))) + uint (at inp (int (?p + w)))
                   + uint (at inp (int (?p + w + 1))))) (uint (at inp (int (w * h + y * w + 2 * x) + 1)))
                 (uint (at inp (int (w * h + y * w + 2 * x)))) = ?P y x"
      by (simp add: half_pixel_def Let_def drop_bit_eq_div)
    have nexts: "int ?p + 2 = int (2 * y * w + 2 * Suc x)" "int (y * w + 2 * x) + 2 = int (y * w + 2 * Suc x)"
       "int (y * ?w + x) + 1 = int (y * ?w + Suc x)"
      by simp_all
    have out: "?w * ?h \<le> length px0 \<Longrightarrow> y * ?w + x < length (painted ?P ?w (y * ?w + x) px0)"
      using idx by simp
    note St = 1(3)[unfolded s split_conv]
    show ?case
      unfolding s split_conv St [THEN conjunct1] St [THEN conjunct2, THEN conjunct1]
        St [THEN conjunct2, THEN conjunct2, THEN conjunct1] St [THEN conjunct2, THEN conjunct2, THEN conjunct2]
        rdp_ptr_add reads bind.bind_lunit Let_def px wr_of_nat [OF out [OF len]] nexts
      using painted_step [of x ?w y px0 ?P] 1(2) idx len by simp
  next
    case (2 y s)
    obtain pY pUV out px where s: "s = (pY, pUV, out, px)" by (cases s)
    have "2 * ?w = w" using w by simp
    then have "int (2 * y * w + 2 * ?w) + int w = int (2 * Suc y * w + 2 * 0)" "int (y * w + 2 * ?w) = int (Suc y * w + 2 * 0)"
      by (simp_all add: algebra_simps)
    with 2 show ?case by (simp add: s add.commute)
  next
    case 3
    show ?case by simp
  qed
  then show ?thesis
    using even by (auto simp: ConvertYUV420SPToARGB8888HalfSize_def Let_def mult.commute)
qed

subsection \<open>Properties\<close>

text \<open>A colour is the fixed-point conversion of YUV to RGB, clamped: every channel of
  \<open>YUV2RGB\<close> is the exact sum (scaled by 1024) of its terms, floored and clamped to a byte, and the four
  channels are packed as opaque ARGB with no interference between the fields.\<close>

theorem YUV2RGB_fixed_point:
  "uint (YUV2RGB y u v) =
     argb 255 (clamp8 (rgb_R y v div 1024)) (clamp8 (rgb_G y u v div 1024)) (clamp8 (rgb_B y u div 1024))"
  by (rule uint_YUV2RGB)

text \<open>C19: The semi-planar converter reads inside its two planes, whatever the size of the picture, and writes one pixel for every luma sample and
  nothing else. Let the chroma plane be laid out as \<open>rgb2yuv.cc\<close> does it: \<open>(w + 1) / 2\<close> pairs V, U for every two rows, odd widths rounded
  up. When the width is even, each pixel has the colour of its own luma and of the pair of its 2x2 block, also when the height is odd.
  When the width is odd, the converter takes rows of \<open>w\<close> instead of \<open>w + 1\<close> bytes, and in row \<open>b\<close> of blocks reads the two bytes that are \<open>b\<close>
  bytes before the pair of the block: in every odd row of blocks U and V are exchanged.\<close>

theorem sp_to_argb_correct:
  assumes "readable yp (int (w * h))" "readable uvp (sp_uv_size (int w) (int h))" "w * h \<le> length px"
  shows "\<exists>out. ConvertYUV420SPToARGB8888 yp uvp px (int w) (int h) = Some out \<and> length out = length px \<and>
    (\<forall>k. w * h \<le> k \<and> k < length px \<longrightarrow> out ! k = px ! k) \<and>
    (\<forall>y<h. \<forall>x<w. let pair = 2 * (y div 2 * ((w + 1) div 2) + x div 2);
        v = int pair - (if even w then 0 else int (y div 2))
      in out ! (y * w + x) = YUV2RGB (uint (at yp (int (y * w + x)))) (uint (at uvp (v + 1))) (uint (at uvp v)))"
proof -
  let ?out = "painted (sp_pixel YUV2RGB yp uvp w) w (w * h) px"
  have len: "length ?out = length px" "\<forall>k. w * h \<le> k \<and> k < length px \<longrightarrow> ?out ! k = px ! k"
    using assms(3) by (simp_all add: painted_def nth_append)
  have pixel: "?out ! (y * w + x) = sp_pixel YUV2RGB yp uvp w y x" if "y < h" "x < w" for y x
  proof -
    have "y * w + x < w * h" using raster_index [OF that] by (simp add: mult.commute)
    then show ?thesis using that by (simp add: painted_def nth_append)
  qed
  have offset: "int (y div 2 * w + 2 * (x div 2)) =
      int (2 * (y div 2 * ((w + 1) div 2) + x div 2)) - (if even w then 0 else int (y div 2))" for y x
  proof (cases "even w")
    case True
    then obtain m where "w = 2 * m" by (elim evenE)
    then show ?thesis by (simp add: algebra_simps)
  next
    case False
    then obtain m where "w = 2 * m + 1" by (elim oddE)
    then show ?thesis by (simp add: algebra_simps)
  qed
  have "let pair = 2 * (y div 2 * ((w + 1) div 2) + x div 2);
        v = int pair - (if even w then 0 else int (y div 2))
      in ?out ! (y * w + x) = YUV2RGB (uint (at yp (int (y * w + x)))) (uint (at uvp (v + 1))) (uint (at uvp v))"
    if "y < h" "x < w" for y x
    unfolding Let_def pixel [OF that] sp_pixel_def offset [of y x] ..
  then show ?thesis using sp_argb [OF assms] len by blast
qed

theorem sp_to_argb_correct_witness:
  "\<exists>out. ConvertYUV420SPToARGB8888 ([16, 255, 81, 145, 41, 210], 0) ([90, 240, 128, 128], 0) [1, 2, 3, 4, 5, 6, 7] 3 2 = Some out \<and>
    out ! 5 = YUV2RGB 210 128 128 \<and> out ! 6 = 7"
proof -
  let ?Y = "([16, 255, 81, 145, 41, 210] :: u8 list, 0 :: int)" and ?C = "([90, 240, 128, 128] :: u8 list, 0 :: int)"
    and ?px = "[1, 2, 3, 4, 5, 6, 7] :: u32 list"
  have "readable ?Y (int (3 * 2))" "readable ?C (sp_uv_size (int 3) (int 2))" "3 * 2 \<le> length ?px"
    by (simp_all add: readable_def)
  from sp_to_argb_correct [OF this]
  obtain out where o: "ConvertYUV420SPToARGB8888 ?Y ?C ?px (int 3) (int 2) = Some out"
    "\<forall>k. 3 * 2 \<le> k \<and> k < length ?px \<longrightarrow> out ! k = ?px ! k"
    "\<forall>y<2. \<forall>x<3. let pair = 2 * (y div 2 * ((3 + 1) div 2) + x div 2); v = int pair - (if even (3 :: nat) then 0 else int (y div 2))
      in out ! (y * 3 + x) = YUV2RGB (uint (at ?Y (int (y * 3 + x)))) (uint (at ?C (v + 1))) (uint (at ?C v))"
    by (elim exE conjE) (rule that, assumption+)
  have "out ! 6 = 7" using o(2) [rule_format, of 6] by simp
  moreover have "out ! 5 = YUV2RGB 210 128 128" using o(3) [rule_format, of 1 2] by (simp add: at_def Let_def)
  ultimately show ?thesis using o(1) by auto
qed

text \<open>The RGB565 converter agrees with the ARGB one: on the same frame its output is the ARGB
  output with every channel truncated to 5, 6 and 5 bits.\<close>

theorem sp_565_truncates_argb:
  assumes "readable inp (int (w * h))" "readable (ptr_add inp (int (w * h))) (sp_uv_size (int w) (int h))"
    "length px565 = w * h" "length px8888 = w * h"
  shows "ConvertYUV420SPToRGB565 inp px565 (int w) (int h)
    = map_option (map argb_to_565) (ConvertYUV420SPToARGB8888 inp (ptr_add inp (int (w * h))) px8888 (int w) (int h))"
  using sp_argb [OF assms(1,2), of px8888] sp_565 [OF assms(1,2), of px565] assms(3,4)
  by (simp add: painted_def sp_pixel_def YUV2RGB565_eq Let_def)

theorem sp_565_truncates_argb_witness:
  "ConvertYUV420SPToRGB565 ([16, 255, 81, 145, 90, 240], 0) [0, 0, 0, 0] 2 2
    = map_option (map argb_to_565)
        (ConvertYUV420SPToARGB8888 ([16, 255, 81, 145, 90, 240], 0) (ptr_add ([16, 255, 81, 145, 90, 240], 0) 4) [0, 0, 0, 0] 2 2)"
  using sp_565_truncates_argb [of "([16, 255, 81, 145, 90, 240], 0)" 2 2 "[0, 0, 0, 0]" "[0, 0, 0, 0]"]
  by (simp add: readable_def ptr_add_def)

text \<open>Converting planar YUV with arbitrary row and pixel strides (also negative ones) to ARGB
  succeeds whenever every sample it addresses lies inside its plane, and paints each pixel with the
  colour of its luma sample and of the chroma samples of its 2x2 block.\<close>

theorem planar_to_argb_correct:
  assumes yp: "\<And>x y. x < w \<Longrightarrow> y < h \<Longrightarrow> rdp yp (ys * int y + int x) = Some (at yp (ys * int y + int x))"
    and up: "\<And>x y. x < w \<Longrightarrow> y < h \<Longrightarrow>
      rdp up (uvs * int (y div 2) + int (x div 2) * ps) = Some (at up (uvs * int (y div 2) + int (x div 2) * ps))"
    and vp: "\<And>x y. x < w \<Longrightarrow> y < h \<Longrightarrow>
      rdp vp (uvs * int (y div 2) + int (x div 2) * ps) = Some (at vp (uvs * int (y div 2) + int (x div 2) * ps))"
    and len: "w * h \<le> length px0"
  shows "ConvertYUV420ToARGB8888 yp up vp px0 (int w) (int h) ys uvs ps
    = Some (painted (planar_pixel yp up vp ys uvs ps) w (w * h) px0)"
  by (rule planar_argb [OF yp up vp len])

theorem planar_to_argb_correct_witness:
  "ConvertYUV420ToARGB8888 ([81, 145, 0, 41, 210], 0) ([90], 0) ([240], 0) [0, 0, 0, 0] 2 2 3 2 2
    = Some (painted (planar_pixel ([81, 145, 0, 41, 210], 0) ([90], 0) ([240], 0) 3 2 2) 2 4 [0, 0, 0, 0])"
proof -
  have two: "(n = 0 \<or> n = 1) \<longleftrightarrow> n < 2" for n :: nat by auto
  show ?thesis
    using planar_to_argb_correct [of 2 2 "([81, 145, 0, 41, 210], 0)" 3 "([90], 0)" 2 2 "([240], 0)" "[0, 0, 0, 0]"]
    by (force simp: rdp_def rd_def at_def two [symmetric])
qed

text \<open>Halving a frame of even width averages every 2x2 block of luma (rounded down), takes the
  block's VU pair, and produces exactly the half-size picture, reading nothing outside the frame.\<close>

theorem half_size_correct:
  assumes "readable inp (int (w * h + h div 2 * w))" "even w" "w div 2 * (h div 2) \<le> length px0"
  shows "ConvertYUV420SPToARGB8888HalfSize inp px0 (int w) (int h)
    = Some (painted (half_pixel inp w h) (w div 2) (w div 2 * (h div 2)) px0)"
  by (rule half_argb [OF assms])

theorem half_size_correct_witness:
  "ConvertYUV420SPToARGB8888HalfSize ([16, 255, 81, 145, 90, 240], 0) [7, 8] 2 2
    = Some (painted (half_pixel ([16, 255, 81, 145, 90, 240], 0) 2 2) 1 1 [7, 8])"
  using half_size_correct [of "([16, 255, 81, 145, 90, 240], 0)" 2 2 "[7, 8]"]
  by (simp add: readable_def)

end
