(* ===== verification/ImageRgb.thy ===== *)
theory ImageRgb
  imports ImageYuv
begin

text \<open>
  \<open>jni/rgb2yuv.cc\<close>: the converters from ARGB8888 and RGB565 to semi-planar YUV. The lemmas
  describe the written bytes: one luma byte per pixel, and for every 2x2 block the sum of the
  quarter contributions of the pixels it has (\<open>chroma_sum\<close>), with no byte wrapping around. Offsets, an \<open>int\<close> in
  the code, do not overflow here, and the branches for Apple systems are left out.
\<close>

definition WriteYUV :: "int \<Rightarrow> int \<Rightarrow> int \<Rightarrow> int \<Rightarrow> int \<Rightarrow> int \<Rightarrow> u8 list \<Rightarrow> int \<Rightarrow> int \<Rightarrow> u8 list option" where
  "WriteYUV x y width r8 g8 b8 buf pY pUV = do {
     buf \<leftarrow> wr buf pY (word_of_int (drop_bit 8 (66 * r8 + 129 * g8 + 25 * b8 + 128) + 16));
     let blocks_per_row = (width + 1) div 2;
     let offset = 2 * ((y div 2) * blocks_per_row + x div 2);
     buf \<leftarrow> (if x AND 1 = 0 \<and> y AND 1 = 0
            then do { buf \<leftarrow> wr buf (pUV + offset) 0; wr buf (pUV + (offset + 1)) 0 }
            else Some buf);
     let u_offset = 1;
     let v_offset = 0;
     v \<leftarrow> rd buf (pUV + (offset + v_offset));
     buf \<leftarrow> wr buf (pUV + (offset + v_offset)) (v + word_of_int (drop_bit 10 (112 * r8 - 94 * g8 - 18 * b8 + 128) + 32));
     u \<leftarrow> rd buf (pUV + (offset + u_offset));
     wr buf (pUV + (offset + u_offset)) (u + word_of_int (drop_bit 10 (- 38 * r8 - 74 * g8 + 112 * b8 + 128) + 32)) }"

definition ConvertARGB8888ToYUV420SP :: "u32 ptr \<Rightarrow> u8 list \<Rightarrow> int \<Rightarrow> int \<Rightarrow> u8 list option" where
  "ConvertARGB8888ToYUV420SP input output width height =
     map_option (snd \<circ> snd)
      (loopM (\<lambda>y s. loopM (\<lambda>x (inp, pY, buf). do {
            rgb \<leftarrow> rdp input inp;
            let nR = drop_bit 16 (uint rgb) AND 0xFF;
            let nG = drop_bit 8 (uint rgb) AND 0xFF;
            let nB = uint rgb AND 0xFF;
            buf \<leftarrow> WriteYUV (int x) (int y) width nR nG nB buf pY (width * height);
            Some (inp + 1, pY + 1, buf) }) [0..<nat width] s)
       [0..<nat height] (0, 0, output))"

definition ConvertRGB565ToYUV420SP :: "u16 ptr \<Rightarrow> u8 list \<Rightarrow> int \<Rightarrow> int \<Rightarrow> u8 list option" where
  "ConvertRGB565ToYUV420SP input output width height =
     map_option (snd \<circ> snd)
      (loopM (\<lambda>y s. loopM (\<lambda>x (inp, pY, buf). do {
            rgb \<leftarrow> rdp input inp;
            let r5 = drop_bit 11 (uint rgb) AND 0x1F;
            let g6 = drop_bit 5 (uint rgb) AND 0x3F;
            let b5 = uint rgb AND 0x1F;
            let r8 = push_bit 3 r5 OR drop_bit 2 r5;
            let g8 = push_bit 2 g6 OR drop_bit 4 g6;
            let b8 = push_bit 3 b5 OR drop_bit 2 b5;
            buf \<leftarrow> WriteYUV (int x) (int y) width r8 g8 b8 buf pY (width * height);
            Some (inp + 1, pY + 1, buf) }) [0..<nat width] s)
       [0..<nat height] (0, 0, output))"

text \<open>The byte the encoder writes for luma, and what it adds to a block's V (first) and U byte.\<close>

definition luma :: "int \<times> int \<times> int \<Rightarrow> int" where
  "luma = (\<lambda>(r, g, b). (66 * r + 129 * g + 25 * b + 128) div 256 + 16)"

definition chroma :: "nat \<Rightarrow> int \<times> int \<times> int \<Rightarrow> int" where
  "chroma c = (\<lambda>(r, g, b). (if c = 0 then (112 * r - 94 * g - 18 * b + 128) div 1024
                            else (- 38 * r - 74 * g + 112 * b + 128) div 1024) + 32)"

definition byte_rgb :: "int \<times> int \<times> int \<Rightarrow> bool" where
  "byte_rgb = (\<lambda>(r, g, b). 0 \<le> r \<and> r < 256 \<and> 0 \<le> g \<and> g < 256 \<and> 0 \<le> b \<and> b < 256)"

lemma luma_bounds: "byte_rgb p \<Longrightarrow> 16 \<le> luma p \<and> luma p \<le> 235"
  by (auto simp: luma_def byte_rgb_def split: prod.splits)

lemma chroma_bounds: "byte_rgb p \<Longrightarrow> 4 \<le> chroma c p \<and> chroma c p \<le> 60"
  by (auto simp: chroma_def byte_rgb_def split: prod.splits)

definition block :: "nat \<Rightarrow> nat \<Rightarrow> nat \<times> nat" where
  "block w k = (k div w div 2, k mod w div 2)"

definition block_pixels :: "nat \<Rightarrow> nat \<Rightarrow> nat \<times> nat \<Rightarrow> nat set" where
  "block_pixels w n b = {k. k < n \<and> block w k = b}"

definition uv_index :: "nat \<Rightarrow> nat \<Rightarrow> nat \<times> nat \<Rightarrow> nat \<Rightarrow> nat" where
  "uv_index w h b c = w * h + 2 * (fst b * ((w + 1) div 2) + snd b) + c"

lemma block_pixels_Suc:
  "block_pixels w (Suc n) b = (if block w n = b then insert n (block_pixels w n b) else block_pixels w n b)"
  by (auto simp: block_pixels_def less_Suc_eq)

lemma finite_block_pixels [simp]: "finite (block_pixels w n b)"
  by (simp add: block_pixels_def)

lemma not_in_block_pixels [simp]: "n \<notin> block_pixels w n b"
  by (simp add: block_pixels_def)

definition chroma_sum :: "(nat \<Rightarrow> int \<times> int \<times> int) \<Rightarrow> nat \<Rightarrow> nat \<Rightarrow> nat \<Rightarrow> nat \<times> nat \<Rightarrow> int" where
  "chroma_sum f w n c b = (\<Sum>k\<in>block_pixels w n b. chroma c (f k))"

lemma chroma_sum_Suc:
  "chroma_sum f w (Suc n) c b = chroma_sum f w n c b + (if block w n = b then chroma c (f n) else 0)"
  by (simp add: chroma_sum_def block_pixels_Suc)

lemma block_first:
  assumes "block w k = (by, bx)"
  shows "2 * by * w + 2 * bx \<le> k"
proof -
  have "2 * by * w \<le> k div w * w" using assms by (auto simp: block_def)
  moreover have "2 * bx \<le> k mod w" using assms by (auto simp: block_def)
  ultimately show ?thesis by (metis add_mono div_mult_mod_eq)
qed

lemma chroma_sum_unstarted:
  assumes "n \<le> 2 * by * w + 2 * bx"
  shows "chroma_sum f w n c (by, bx) = 0"
proof -
  have "block_pixels w n (by, bx) = {}"
    using block_first [of w _ "by" bx] assms by (fastforce simp: block_pixels_def)
  then show ?thesis by (simp add: chroma_sum_def)
qed

definition encoded :: "(nat \<Rightarrow> int \<times> int \<times> int) \<Rightarrow> nat \<Rightarrow> nat \<Rightarrow> nat \<Rightarrow> u8 list \<Rightarrow> u8 list \<Rightarrow> bool" where
  "encoded f w h n buf0 buf \<longleftrightarrow>
     length buf = length buf0 \<and>
     (\<forall>k<n. buf ! k = word_of_int (luma (f k))) \<and>
     (\<forall>by bx c. by < (h + 1) div 2 \<longrightarrow> bx < (w + 1) div 2 \<longrightarrow> c < 2 \<longrightarrow> 2 * by * w + 2 * bx < n \<longrightarrow>
        buf ! uv_index w h (by, bx) c = word_of_int (chroma_sum f w n c (by, bx))) \<and>
     (\<forall>k. uv_index w h ((h + 1) div 2, 0) 0 \<le> k \<longrightarrow> k < length buf0 \<longrightarrow> buf ! k = buf0 ! k)"

lemma uv_index_inj:
  assumes "bx < (w + 1) div 2" "bx' < (w + 1) div 2" "c < 2" "c' < 2"
    "uv_index w h (by, bx) c = uv_index w h (by', bx') c'"
  shows "by = by' \<and> bx = bx' \<and> c = c'"
proof -
  let ?m = "(w + 1) div 2"
  have e: "2 * (by * ?m + bx) + c = 2 * (by' * ?m + bx') + c'"
    using assms(5) by (simp add: uv_index_def)
  then have "by * ?m + bx = by' * ?m + bx'" and c: "c = c'"
    using assms(3,4) by presburger+
  then have "(by * ?m + bx) div ?m = (by' * ?m + bx') div ?m" "(by * ?m + bx) mod ?m = (by' * ?m + bx') mod ?m"
    by simp_all
  then show ?thesis using c assms(1,2) by simp
qed

lemma uv_index_bound:
  assumes "by < (h + 1) div 2" "bx < (w + 1) div 2" "c < 2"
  shows "uv_index w h (by, bx) c < uv_index w h ((h + 1) div 2, 0) 0" "w * h \<le> uv_index w h (by, bx) c"
  using raster_index [OF assms(1,2)] assms(3) by (auto simp: uv_index_def)

lemma encoded_step:
  assumes enc: "encoded f w h (y * w + x) buf0 buf" and xw: "x < w" and yh: "y < h"
    and len: "uv_index w h ((h + 1) div 2, 0) 0 \<le> length buf0" and f: "f (y * w + x) = (r, g, b)"
  shows "\<exists>buf'. WriteYUV (int x) (int y) (int w) r g b buf (int (y * w + x)) (int w * int h) = Some buf'
    \<and> encoded f w h (Suc (y * w + x)) buf0 buf'"
proof -
  let ?n = "y * w + x" and ?i = "uv_index w h (y div 2, x div 2)"
  have blk: "block w ?n = (y div 2, x div 2)" using xw by (simp add: block_def)
  have bb: "y div 2 < (h + 1) div 2" "x div 2 < (w + 1) div 2" using xw yh by auto
  have n: "?n < w * h" using raster_index [OF yh xw] by (simp add: mult.commute)
  have L: "length buf = length buf0" using enc by (simp add: encoded_def)
  define i0 where "i0 = ?i 0"
  define i1 where "i1 = ?i 1"
  have i: "i0 < length buf" "i1 < length buf" "w * h \<le> i0" "w * h \<le> i1" "?n < length buf" "i0 \<noteq> i1"
    using uv_index_bound [OF bb, of 0] uv_index_bound [OF bb, of 1] len n L by (auto simp: uv_index_def i0_def i1_def)
  have ii: "int w * int h + 2 * (int y div 2 * ((int w + 1) div 2) + int x div 2) = int i0"
    "int w * int h + (2 * (int y div 2 * ((int w + 1) div 2) + int x div 2) + 1) = int i1"
    "int w * int h + (2 * (int y div 2 * ((int w + 1) div 2) + int x div 2) + 0) = int i0"
    by (simp_all add: uv_index_def zdiv_int add.commute i0_def i1_def)
  define buf1 where "buf1 = buf[?n := word_of_int (luma (r, g, b))]"
  define buf2 where "buf2 = (if int x AND 1 = 0 \<and> int y AND 1 = 0 then buf1[i0 := 0, i1 := 0] else buf1)"
  define buf3 where "buf3 = buf2[i0 := buf2 ! i0 + word_of_int (chroma 0 (r, g, b)),
                                 i1 := buf2 ! i1 + word_of_int (chroma 1 (r, g, b))]"
  have L2: "length buf1 = length buf" "length buf2 = length buf" by (simp_all add: buf1_def buf2_def)
  have Y: "word_of_int (drop_bit 8 (66 * r + 129 * g + 25 * b + 128) + 16) = (word_of_int (luma (r, g, b)) :: u8)"
    "drop_bit 10 (112 * r - 94 * g - 18 * b + 128) + 32 = chroma 0 (r, g, b)"
    "drop_bit 10 (- 38 * r - 74 * g + 112 * b + 128) + 32 = chroma 1 (r, g, b)"
    by (simp_all add: luma_def chroma_def int_shiftr)
  have clear: "(if int x AND 1 = 0 \<and> int y AND 1 = 0
      then Option.bind (wr buf1 (int i0) 0) (\<lambda>buf. wr buf (int i1) 0) else Some buf1) = Some buf2"
    using i by (simp add: wr_of_nat L2 buf2_def)
  have "WriteYUV (int x) (int y) (int w) r g b buf (int ?n) (int w * int h) = Some buf3"
    unfolding WriteYUV_def Let_def Y ii wr_of_nat [OF i(5)] buf1_def [symmetric] bind.bind_lunit clear
    using i by (simp add: wr_of_nat rd_of_nat L2 buf3_def del: of_nat_add of_nat_mult)
  moreover have "encoded f w h (Suc ?n) buf0 buf3"
    unfolding encoded_def
  proof (intro conjI allI impI, goal_cases)
    case 1
    then show ?case using L by (simp add: buf3_def L2)
  next
    case (2 k)
    then have "k \<noteq> i0" "k \<noteq> i1" using i n by auto
    with 2 enc i f show ?case
      by (auto simp: buf3_def buf2_def buf1_def encoded_def nth_list_update less_Suc_eq)
  next
    case (3 by' bx c)
    show ?case
    proof (cases "(by', bx) = (y div 2, x div 2)")
      case True
      have old: "buf2 ! ?i c = word_of_int (chroma_sum f w ?n c (y div 2, x div 2))" if "c < 2" for c
      proof (cases "even x \<and> even y")
        case True
        then have "?n = 2 * (y div 2) * w + 2 * (x div 2)" by auto
        then have "chroma_sum f w ?n c (y div 2, x div 2) = 0"
          by (intro chroma_sum_unstarted) simp
        with True i \<open>c < 2\<close> show ?thesis
          by (auto simp: buf2_def i0_def i1_def L2 nth_list_update less_2_cases_iff and_one_eq)
      next
        case False
        have "2 * (y div 2) * w + 2 * (x div 2) < ?n"
        proof (cases "even y")
          case True
          with False have "2 * (x div 2) < x" by presburger
          with True show ?thesis by simp
        next
          case odd: False
          then have "y = Suc (2 * (y div 2))" by presburger
          then have "y * w = 2 * (y div 2) * w + w" by (metis add.commute mult_Suc)
          moreover have "2 * (x div 2) \<le> x" by simp
          ultimately show ?thesis using xw by linarith
        qed
        with enc bb \<open>c < 2\<close> have "buf ! ?i c = word_of_int (chroma_sum f w ?n c (y div 2, x div 2))"
          by (simp add: encoded_def)
        moreover have "?n \<noteq> ?i c" using uv_index_bound(2) [OF bb \<open>c < 2\<close>] n by linarith
        ultimately show ?thesis using False
          by (auto simp: buf2_def buf1_def and_one_eq)
      qed
      have "buf3 ! ?i c = buf2 ! ?i c + word_of_int (chroma c (r, g, b))"
        using 3(3) i L2 by (auto simp: buf3_def i0_def i1_def nth_list_update less_2_cases_iff)
      with old [OF 3(3)] True show ?thesis
        by (simp add: chroma_sum_Suc blk f)
    next
      case False
      have ne: "uv_index w h (by', bx) c \<noteq> ?i c'" if "c' < 2" for c'
        using uv_index_inj [OF 3(2) bb(2) 3(3) that] False by auto
      have "2 * bx < w" using 3(2) by auto
      have "2 * by' * w + 2 * bx \<noteq> ?n"
      proof
        assume e: "2 * by' * w + 2 * bx = ?n"
        have "(2 * by' * w + 2 * bx) div w = 2 * by'" "(2 * by' * w + 2 * bx) mod w = 2 * bx"
          using \<open>2 * bx < w\<close> by simp_all
        moreover have "?n div w = y" "?n mod w = x" using xw by simp_all
        ultimately show False using e False by auto
      qed
      then have "buf ! uv_index w h (by', bx) c = word_of_int (chroma_sum f w ?n c (by', bx))"
        using enc 3 by (simp add: encoded_def)
      moreover have "buf3 ! uv_index w h (by', bx) c = buf ! uv_index w h (by', bx) c"
        using ne [of 0] ne [of 1] uv_index_bound(2) [OF 3(1,2,3)] n
        by (auto simp: buf3_def buf2_def buf1_def i0_def i1_def)
      ultimately show ?thesis using False by (auto simp: chroma_sum_Suc blk)
    qed
  next
    case (4 k)
    then have "k \<noteq> i0" "k \<noteq> i1" "k \<noteq> ?n" using i n uv_index_bound [OF bb, of 0] uv_index_bound [OF bb, of 1]
      by (auto simp: i0_def i1_def)
    with 4 enc show ?case
      by (auto simp: buf3_def buf2_def buf1_def encoded_def)
  qed
  ultimately show ?thesis by blast
qed


text \<open>The raster loop around \<open>WriteYUV\<close>, for any source of pixels.\<close>

lemma encode_loop:
  assumes read: "\<And>k. k < w * h \<Longrightarrow> rdp inp (int k) = Some (px k)"
    and conv: "\<And>k. k < w * h \<Longrightarrow> f k = (R (px k), G (px k), B (px k))"
    and len: "uv_index w h ((h + 1) div 2, 0) 0 \<le> length buf0"
  shows "\<exists>buf. map_option (snd \<circ> snd)
      (loopM (\<lambda>y s. loopM (\<lambda>x (i, pY, buf). do {
            rgb \<leftarrow> rdp inp i;
            buf \<leftarrow> WriteYUV (int x) (int y) (int w) (R rgb) (G rgb) (B rgb) buf pY (int w * int h);
            Some (i + 1, pY + 1, buf) }) [0..<w] s) [0..<h] (0, 0, buf0)) = Some buf
      \<and> encoded f w h (w * h) buf0 buf"
proof -
  let ?Inv = "\<lambda>y x (i, pY, buf). i = int (y * w + x) \<and> pY = int (y * w + x) \<and> encoded f w h (y * w + x) buf0 buf"
  have "\<exists>s'. loopM (\<lambda>y s. loopM (\<lambda>x (i, pY, buf). do {
            rgb \<leftarrow> rdp inp i;
            buf \<leftarrow> WriteYUV (int x) (int y) (int w) (R rgb) (G rgb) (B rgb) buf pY (int w * int h);
            Some (i + 1, pY + 1, buf) }) [0..<w] s) [0..<h] (0, 0, buf0) = Some s' \<and> ?Inv h 0 s'"
  proof (rule loopM_raster0 [where Inv = ?Inv], goal_cases)
    case (1 y x s)
    then have idx: "y * w + x < w * h"
      using raster_index [of y h x w] by (simp add: mult.commute)
    obtain i pY buf where s: "s = (i, pY, buf)" by (cases s)
    have "encoded f w h (y * w + x) buf0 buf" using 1 s by simp
    from encoded_step [OF this 1(2,1) len conv [OF idx]] 1 read [OF idx]
    show ?case by (auto simp: s simp del: of_nat_add of_nat_mult)
  next
    case 3
    show ?case by (simp add: encoded_def)
  qed (auto simp: add.commute)
  then show ?thesis by (auto simp: mult.commute)
qed

definition argb_channels :: "u32 \<Rightarrow> int \<times> int \<times> int" where
  "argb_channels p = (drop_bit 16 (uint p) AND 0xFF, drop_bit 8 (uint p) AND 0xFF, uint p AND 0xFF)"

definition rgb565_channels :: "u16 \<Rightarrow> int \<times> int \<times> int" where
  "rgb565_channels p =
     (let r5 = drop_bit 11 (uint p) AND 0x1F; g6 = drop_bit 5 (uint p) AND 0x3F; b5 = uint p AND 0x1F
      in (push_bit 3 r5 OR drop_bit 2 r5, push_bit 2 g6 OR drop_bit 4 g6, push_bit 3 b5 OR drop_bit 2 b5))"

lemma readable_rdp: "readable inp (int n) \<Longrightarrow> k < n \<Longrightarrow> rdp inp (int k) = Some (at inp (int k))"
  by (rule rdp_readable) auto

lemma argb_encode:
  assumes "readable inp (int (w * h))" "uv_index w h ((h + 1) div 2, 0) 0 \<le> length buf0"
  shows "\<exists>buf. ConvertARGB8888ToYUV420SP inp buf0 (int w) (int h) = Some buf
     \<and> encoded (\<lambda>k. argb_channels (at inp (int k))) w h (w * h) buf0 buf"
  using encode_loop [OF readable_rdp [OF assms(1)], where f = "\<lambda>k. argb_channels (at inp (int k))" and
      R = "\<lambda>p. fst (argb_channels p)" and G = "\<lambda>p. fst (snd (argb_channels p))" and B = "\<lambda>p. snd (snd (argb_channels p))",
      OF _ _ assms(2)]
  by (simp add: ConvertARGB8888ToYUV420SP_def argb_channels_def Let_def)

lemma rgb565_encode:
  assumes "readable inp (int (w * h))" "uv_index w h ((h + 1) div 2, 0) 0 \<le> length buf0"
  shows "\<exists>buf. ConvertRGB565ToYUV420SP inp buf0 (int w) (int h) = Some buf
     \<and> encoded (\<lambda>k. rgb565_channels (at inp (int k))) w h (w * h) buf0 buf"
  using encode_loop [OF readable_rdp [OF assms(1)], where f = "\<lambda>k. rgb565_channels (at inp (int k))" and
      R = "\<lambda>p. fst (rgb565_channels p)" and G = "\<lambda>p. fst (snd (rgb565_channels p))" and B = "\<lambda>p. snd (snd (rgb565_channels p))",
      OF _ _ assms(2)]
  by (simp add: ConvertRGB565ToYUV420SP_def rgb565_channels_def Let_def)

lemma argb_channels_byte: "byte_rgb (argb_channels p)"
  by (simp add: byte_rgb_def argb_channels_def int_and_mask)

lemma rgb565_channels_byte: "byte_rgb (rgb565_channels p)"
proof -
  have w5: "push_bit 3 n OR drop_bit 2 n = 8 * n + n div 4" if "0 \<le> n" "n < 32" for n :: int
    using that or_add [of "n div 4" 3 n] by (simp add: int_shiftr push_bit_eq_mult)
  have w6: "push_bit 2 n OR drop_bit 4 n = 4 * n + n div 16" if "0 \<le> n" "n < 64" for n :: int
    using that or_add [of "n div 16" 2 n] by (simp add: int_shiftr push_bit_eq_mult)
  have "0 \<le> 8 * n + n div 4 \<and> 8 * n + n div 4 < 256" if "0 \<le> n" "n < 32" for n :: int
  proof -
    have "0 \<le> n div 4" "n div 4 < 8" using that by auto
    with that show ?thesis by linarith
  qed
  moreover have "0 \<le> 4 * n + n div 16 \<and> 4 * n + n div 16 < 256" if "0 \<le> n" "n < 64" for n :: int
  proof -
    have "0 \<le> n div 16" "n div 16 < 4" using that by auto
    with that show ?thesis by linarith
  qed
  ultimately show ?thesis
    by (simp add: byte_rgb_def rgb565_channels_def Let_def int_and_mask w5 w6)
qed

text \<open>A block has at most four pixels, so the byte sum never wraps.\<close>

lemma card_block_pixels: "card (block_pixels w n b) \<le> 4"
proof -
  obtain y x where b: "b = (y, x)" by (cases b)
  have "block_pixels w n b \<subseteq> (\<lambda>(i, j). (2 * y + i) * w + (2 * x + j)) ` ({0, 1} \<times> {0, 1})"
  proof
    fix k assume "k \<in> block_pixels w n b"
    then have d: "k div w div 2 = y" "k mod w div 2 = x" by (auto simp: block_pixels_def block_def b)
    have "k div w = 2 * y + k div w mod 2" "k mod w = 2 * x + k mod w mod 2" using d by (metis mult_div_mod_eq)+
    then have "k = (2 * y + k div w mod 2) * w + (2 * x + k mod w mod 2)" by (metis div_mult_mod_eq)
    then show "k \<in> (\<lambda>(i, j). (2 * y + i) * w + (2 * x + j)) ` ({0, 1} \<times> {0, 1})"
      by (intro image_eqI [of _ _ "(k div w mod 2, k mod w mod 2)"]) auto
  qed
  from surj_card_le [OF _ this] show ?thesis
    by (simp add: card_cartesian_product)
qed

lemma chroma_sum_bounds:
  assumes "\<And>k. byte_rgb (f k)"
  shows "0 \<le> chroma_sum f w n c b \<and> chroma_sum f w n c b \<le> 240"
proof -
  have "chroma_sum f w n c b \<le> of_nat (card (block_pixels w n b)) * 60"
    unfolding chroma_sum_def by (rule sum_bounded_above) (use chroma_bounds [OF assms] in auto)
  moreover have "0 \<le> chroma_sum f w n c b"
    unfolding chroma_sum_def by (rule sum_nonneg, rule order.trans [of 0 4]) (use chroma_bounds [OF assms] in auto)
  ultimately show ?thesis using card_block_pixels [of w n b] by linarith
qed


lemma encoded_bytes:
  assumes "encoded f w h (w * h) buf0 buf" and byte: "\<And>k. byte_rgb (f k)"
  shows "\<forall>k < w * h. uint (buf ! k) = luma (f k)"
    and "by < (h + 1) div 2 \<Longrightarrow> bx < (w + 1) div 2 \<Longrightarrow> c < 2 \<Longrightarrow>
      uint (buf ! uv_index w h (by, bx) c) = chroma_sum f w (w * h) c (by, bx)"
proof -
  have "uint (word_of_int (luma (f k)) :: u8) = luma (f k)" for k
    by (rule uint_word_of_int_small) (use luma_bounds [OF byte, of k] in auto)
  with assms(1) show "\<forall>k < w * h. uint (buf ! k) = luma (f k)"
    by (simp add: encoded_def)
  assume b: "by < (h + 1) div 2" "bx < (w + 1) div 2" "c < 2"
  then have "2 * by < h" "2 * bx < w" by auto
  then have "2 * by * w + 2 * bx < w * h"
    using raster_index [of "2 * by" h "2 * bx" w] by (simp add: mult.commute)
  with assms(1) b have "buf ! uv_index w h (by, bx) c = word_of_int (chroma_sum f w (w * h) c (by, bx))"
    by (simp add: encoded_def)
  moreover have "uint (word_of_int (chroma_sum f w n c b) :: u8) = chroma_sum f w n c b" for n b
    by (rule uint_word_of_int_small) (use chroma_sum_bounds [where f = f and w = w and n = n and c = c and b = b] byte in auto)
  ultimately show "uint (buf ! uv_index w h (by, bx) c) = chroma_sum f w (w * h) c (by, bx)"
    by simp
qed

lemma argb_to_yuv_bytes:
  assumes "readable inp (int (w * h))"
    and "w * h + 2 * (((h + 1) div 2) * ((w + 1) div 2)) \<le> length out"
  shows "\<exists>buf. ConvertARGB8888ToYUV420SP inp out (int w) (int h) = Some buf \<and> length buf = length out \<and>
    (\<forall>k < w * h. uint (buf ! k) = luma (argb_channels (at inp (int k)))) \<and>
    (\<forall>by < (h + 1) div 2. \<forall>bx < (w + 1) div 2. \<forall>c < 2.
       uint (buf ! uv_index w h (by, bx) c) = chroma_sum (\<lambda>k. argb_channels (at inp (int k))) w (w * h) c (by, bx))"
proof -
  have "uv_index w h ((h + 1) div 2, 0) 0 \<le> length out" using assms(2) by (simp add: uv_index_def)
  from argb_encode [OF assms(1) this] obtain buf where
    c: "ConvertARGB8888ToYUV420SP inp out (int w) (int h) = Some buf" and
    e: "encoded (\<lambda>k. argb_channels (at inp (int k))) w h (w * h) out buf" by auto
  with encoded_bytes [OF e argb_channels_byte] show ?thesis
    by (auto simp: encoded_def)
qed

lemma chroma_gray: "chroma c (v, v, v) = 32"
  by (simp add: chroma_def)


lemma card_block: "card (block_pixels w (w * h) (by, bx)) = min 2 (h - 2 * by) * min 2 (w - 2 * bx)"
proof -
  let ?I = "{i. i < 2 \<and> 2 * by + i < h}" and ?J = "{j. j < 2 \<and> 2 * bx + j < w}"
  let ?g = "\<lambda>(i, j). (2 * by + i) * w + (2 * bx + j)"
  have "block_pixels w (w * h) (by, bx) = ?g ` (?I \<times> ?J)"
  proof (intro equalityI subsetI)
    fix k assume "k \<in> block_pixels w (w * h) (by, bx)"
    then have d: "k div w div 2 = by" "k mod w div 2 = bx" "k < w * h" by (auto simp: block_pixels_def block_def)
    then have "0 < w" by (cases w) auto
    have e: "k div w = 2 * by + k div w mod 2" "k mod w = 2 * bx + k mod w mod 2"
      using d(1,2) by (metis mult_div_mod_eq)+
    moreover have "k div w < h" using d(3) by (simp add: less_mult_imp_div_less mult.commute)
    moreover have "k mod w < w" using \<open>0 < w\<close> by simp
    moreover have "k = (2 * by + k div w mod 2) * w + (2 * bx + k mod w mod 2)" using e by (metis div_mult_mod_eq)
    ultimately show "k \<in> ?g ` (?I \<times> ?J)"
      by (intro image_eqI [of _ _ "(k div w mod 2, k mod w mod 2)"]) auto
  next
    fix k assume "k \<in> ?g ` (?I \<times> ?J)"
    then obtain i j where "i < 2" "2 * by + i < h" "j < 2" "2 * bx + j < w" "k = (2 * by + i) * w + (2 * bx + j)"
      by auto
    then show "k \<in> block_pixels w (w * h) (by, bx)"
      using raster_index [of "2 * by + i" h "2 * bx + j" w] by (auto simp: block_pixels_def block_def mult.commute)
  qed
  moreover have "inj_on ?g (?I \<times> ?J)"
  proof (rule inj_onI, clarify)
    fix i j i' j'
    assume a: "2 * bx + j < w" "2 * bx + j' < w" "(2 * by + i) * w + (2 * bx + j) = (2 * by + i') * w + (2 * bx + j')"
    have "((2 * by + i) * w + (2 * bx + j)) div w = 2 * by + i" "((2 * by + i') * w + (2 * bx + j')) div w = 2 * by + i'"
      "((2 * by + i) * w + (2 * bx + j)) mod w = 2 * bx + j" "((2 * by + i') * w + (2 * bx + j')) mod w = 2 * bx + j'"
      using a(1,2) by simp_all
    with a(3) have "2 * by + i = 2 * by + i'" "2 * bx + j = 2 * bx + j'" by metis+
    then show "i = i' \<and> j = j'" by simp
  qed
  ultimately have "card (block_pixels w (w * h) (by, bx)) = card ?I * card ?J"
    by (simp add: card_image card_cartesian_product)
  moreover have "?I = {..<min 2 (h - 2 * by)}" "?J = {..<min 2 (w - 2 * bx)}" by auto
  ultimately show ?thesis by simp
qed

subsection \<open>Properties\<close>

text \<open>Encoding an ARGB picture stays inside a YUV buffer of the documented size, writes the exact
  luma of every pixel and, for each 2x2 block, the exact sum of the chroma contributions of its pixels:
  no intermediate byte addition wraps around, for any width and height.\<close>

theorem argb_to_yuv_exact:
  assumes "readable inp (int (w * h))"
    and "w * h + 2 * (((h + 1) div 2) * ((w + 1) div 2)) \<le> length out"
  shows "\<exists>buf. ConvertARGB8888ToYUV420SP inp out (int w) (int h) = Some buf \<and> length buf = length out \<and>
    (\<forall>k < w * h. uint (buf ! k) = luma (argb_channels (at inp (int k)))) \<and>
    (\<forall>by < (h + 1) div 2. \<forall>bx < (w + 1) div 2. \<forall>c < 2.
       uint (buf ! uv_index w h (by, bx) c) = chroma_sum (\<lambda>k. argb_channels (at inp (int k))) w (w * h) c (by, bx))"
  by (rule argb_to_yuv_bytes [OF assms])

theorem argb_to_yuv_exact_witness:
  "\<exists>buf. ConvertARGB8888ToYUV420SP ([0xff102030, 0xffffffff, 0xff000000], 0) [0, 0, 0, 0, 0, 0, 0] 3 1 = Some buf \<and>
    uint (buf ! 1) = luma (255, 255, 255)"
  using argb_to_yuv_exact [of "([0xff102030, 0xffffffff, 0xff000000], 0)" 3 1 "[0, 0, 0, 0, 0, 0, 0]"]
  by (auto simp: readable_def at_def argb_channels_def int_and_mask drop_bit_eq_div dest: spec [where x = 1])

text \<open>C20: The chroma of a gray picture: a block with all four pixels gets the neutral value 128, but
  a block on an odd right or bottom edge has only two pixels (or one) and gets 64 (or 32), since each
  pixel adds a fixed quarter and nothing is added for the missing ones.\<close>

theorem gray_chroma:
  assumes "readable inp (int (w * h))"
    and "w * h + 2 * (((h + 1) div 2) * ((w + 1) div 2)) \<le> length out"
    and gray: "\<And>k. k < w * h \<Longrightarrow> \<exists>v. argb_channels (at inp (int k)) = (v, v, v)"
    and "by < (h + 1) div 2" "bx < (w + 1) div 2" "c < 2"
  shows "\<exists>buf. ConvertARGB8888ToYUV420SP inp out (int w) (int h) = Some buf \<and>
    uint (buf ! uv_index w h (by, bx) c) = 32 * int (min 2 (h - 2 * by) * min 2 (w - 2 * bx))"
proof -
  have "chroma_sum (\<lambda>k. argb_channels (at inp (int k))) w (w * h) c (by, bx)
     = (\<Sum>k\<in>block_pixels w (w * h) (by, bx). 32)"
    unfolding chroma_sum_def
  proof (rule sum.cong)
    fix k assume "k \<in> block_pixels w (w * h) (by, bx)"
    then obtain v where "argb_channels (at inp (int k)) = (v, v, v)" using gray by (auto simp: block_pixels_def)
    then show "chroma c (argb_channels (at inp (int k))) = 32" by (simp add: chroma_gray)
  qed simp
  also have "\<dots> = 32 * int (min 2 (h - 2 * by) * min 2 (w - 2 * bx))" by (simp add: card_block)
  finally show ?thesis using argb_to_yuv_bytes [OF assms(1,2)] assms(4-) by auto
qed

theorem gray_chroma_witness:
  "\<exists>buf. ConvertARGB8888ToYUV420SP ([0xff808080, 0xff808080, 0xff808080], 0) [0, 0, 0, 0, 0, 0, 0] 3 1 = Some buf \<and>
    uint (buf ! uv_index 3 1 (0, 0) 0) = 64 \<and> uint (buf ! uv_index 3 1 (0, 1) 0) = 32"
proof -
  have "k = 0 \<or> k = 1 \<or> k = 2" if "k < 3" for k :: nat using that by auto
  then have gray: "\<exists>v. argb_channels (at ([0xff808080, 0xff808080, 0xff808080], 0) (int k)) = (v, v, v)" if "k < 3 * 1" for k
    using that by (force simp: at_def argb_channels_def int_and_mask drop_bit_eq_div)
  from gray_chroma [of "([0xff808080, 0xff808080, 0xff808080], 0)" 3 1 "[0, 0, 0, 0, 0, 0, 0]", OF _ _ gray, of 0 0 0]
    gray_chroma [of "([0xff808080, 0xff808080, 0xff808080], 0)" 3 1 "[0, 0, 0, 0, 0, 0, 0]", OF _ _ gray, of 0 1 0]
  show ?thesis by (auto simp: readable_def)
qed

end
