(* ===== verification/Coding.thy ===== *)
theory Coding
  imports C_Prelude
begin

text \<open>
  \<open>core/lib/core/coding.cc\<close>, \<open>coding.h\<close> and \<open>raw_coding.h\<close>: fixed-width little-endian
  numbers and varints. A routine that writes at \<open>dst\<close> is modelled by the bytes it writes;
  one that appends to a string takes and returns the string; one that advances a
  \<open>StringPiece\<close> returns the value and the rest of the input, or \<open>None\<close> for \<open>false\<close>
  (or the null pointer).
\<close>

subsection \<open>Fixed-width integers\<close>

text \<open>The object representation of an unsigned integer on a little-endian host, as \<open>memcpy\<close> copies it.\<close>

definition host_bytes :: "nat \<Rightarrow> 'a::len word \<Rightarrow> u8 list" where
  "host_bytes n v = map (\<lambda>i. ucast (drop_bit (8 * i) v)) [0..<n]"

definition host_word :: "u8 list \<Rightarrow> 'a::len word" where
  "host_word bs = foldr (\<lambda>b r. push_bit 8 r OR ucast b) bs 0"

definition EncodeFixed16 :: "bool \<Rightarrow> u16 \<Rightarrow> u8 list" where
  "EncodeFixed16 kLittleEndian value =
     (if kLittleEndian then host_bytes 2 value
      else [ucast (value AND 0xff), ucast (drop_bit 8 value AND 0xff)])"

definition EncodeFixed32 :: "bool \<Rightarrow> u32 \<Rightarrow> u8 list" where
  "EncodeFixed32 kLittleEndian value =
     (if kLittleEndian then host_bytes 4 value
      else [ucast (value AND 0xff), ucast (drop_bit 8 value AND 0xff),
            ucast (drop_bit 16 value AND 0xff), ucast (drop_bit 24 value AND 0xff)])"

definition EncodeFixed64 :: "bool \<Rightarrow> u64 \<Rightarrow> u8 list" where
  "EncodeFixed64 kLittleEndian value =
     (if kLittleEndian then host_bytes 8 value
      else [ucast (value AND 0xff), ucast (drop_bit 8 value AND 0xff),
            ucast (drop_bit 16 value AND 0xff), ucast (drop_bit 24 value AND 0xff),
            ucast (drop_bit 32 value AND 0xff), ucast (drop_bit 40 value AND 0xff),
            ucast (drop_bit 48 value AND 0xff), ucast (drop_bit 56 value AND 0xff)])"

definition PutFixed16 :: "bool \<Rightarrow> u8 list \<Rightarrow> u16 \<Rightarrow> u8 list" where
  "PutFixed16 le dst value = dst @ EncodeFixed16 le value"

definition PutFixed32 :: "bool \<Rightarrow> u8 list \<Rightarrow> u32 \<Rightarrow> u8 list" where
  "PutFixed32 le dst value = dst @ EncodeFixed32 le value"

definition PutFixed64 :: "bool \<Rightarrow> u8 list \<Rightarrow> u64 \<Rightarrow> u8 list" where
  "PutFixed64 le dst value = dst @ EncodeFixed64 le value"

text \<open>The decoders read without bounds checks: fewer bytes than they need is undefined (\<open>None\<close>).\<close>

definition DecodeFixed16 :: "bool \<Rightarrow> u8 list \<Rightarrow> u16 option" where
  "DecodeFixed16 kLittleEndian p =
     (if length p < 2 then None
      else Some (if kLittleEndian then host_word (take 2 p)
                 else ucast (p ! 0) OR push_bit 8 (ucast (p ! 1))))"

definition DecodeFixed32 :: "bool \<Rightarrow> u8 list \<Rightarrow> u32 option" where
  "DecodeFixed32 kLittleEndian p =
     (if length p < 4 then None
      else Some (if kLittleEndian then host_word (take 4 p)
                 else ucast (p ! 0) OR push_bit 8 (ucast (p ! 1)) OR push_bit 16 (ucast (p ! 2))
                      OR push_bit 24 (ucast (p ! 3))))"

definition DecodeFixed64 :: "bool \<Rightarrow> u8 list \<Rightarrow> u64 option" where
  "DecodeFixed64 kLittleEndian p =
     (if kLittleEndian then (if length p < 8 then None else Some (host_word (take 8 p)))
      else do {
        lo \<leftarrow> DecodeFixed32 kLittleEndian p;
        hi \<leftarrow> DecodeFixed32 kLittleEndian (drop 4 p);
        Some (push_bit 32 (ucast hi) OR ucast lo) })"

subsection \<open>Varints\<close>

definition EncodeVarint32 :: "u32 \<Rightarrow> u8 list" where
  "EncodeVarint32 v =
     (let B = 128 in
      if v < push_bit 7 1 then [ucast v]
      else if v < push_bit 14 1 then [ucast (v OR B), ucast (drop_bit 7 v)]
      else if v < push_bit 21 1 then [ucast (v OR B), ucast (drop_bit 7 v OR B), ucast (drop_bit 14 v)]
      else if v < push_bit 28 1 then
        [ucast (v OR B), ucast (drop_bit 7 v OR B), ucast (drop_bit 14 v OR B), ucast (drop_bit 21 v)]
      else [ucast (v OR B), ucast (drop_bit 7 v OR B), ucast (drop_bit 14 v OR B),
            ucast (drop_bit 21 v OR B), ucast (drop_bit 28 v)])"

definition PutVarint32 :: "u8 list \<Rightarrow> u32 \<Rightarrow> u8 list" where
  "PutVarint32 dst v = dst @ EncodeVarint32 v"

lemma drop_7_less: "128 \<le> v \<Longrightarrow> unat (drop_bit 7 v) < unat v" for v :: u64
  by (simp add: drop_bit_eq_div unat_div word_le_nat_alt)

function EncodeVarint64 :: "u64 \<Rightarrow> u8 list" where
  "EncodeVarint64 v =
     (if v \<ge> 128 then ucast ((v AND (128 - 1)) OR 128) # EncodeVarint64 (drop_bit 7 v) else [ucast v])"
  by pat_completeness auto
termination
  by (relation "measure unat") (auto simp: drop_7_less)

declare EncodeVarint64.simps [simp del]

definition PutVarint64 :: "u8 list \<Rightarrow> u64 \<Rightarrow> u8 list" where
  "PutVarint64 dst v = dst @ EncodeVarint64 v"

function varint_length_loop :: "u64 \<Rightarrow> int \<Rightarrow> int" where
  "varint_length_loop v len = (if v \<ge> 128 then varint_length_loop (drop_bit 7 v) (len + 1) else len)"
  by pat_completeness auto
termination
  by (relation "measure (\<lambda>(v, len). unat v)") (auto simp: drop_7_less)

declare varint_length_loop.simps [simp del]

definition VarintLength :: "u64 \<Rightarrow> int" where
  "VarintLength v = varint_length_loop v 1"

fun get_varint_loop :: "nat \<Rightarrow> nat \<Rightarrow> 'a::len word \<Rightarrow> u8 list \<Rightarrow> ('a word \<times> u8 list) option" where
  "get_varint_loop max_shift shift result [] = None"
| "get_varint_loop max_shift shift result (b # p) =
     (if shift \<le> max_shift then
        let byte = ucast b in
        if byte AND 128 \<noteq> 0 then get_varint_loop max_shift (shift + 7) (result OR push_bit shift (byte AND 127)) p
        else Some (result OR push_bit shift byte, p)
      else None)"

definition GetVarint32PtrFallback :: "u8 list \<Rightarrow> (u32 \<times> u8 list) option" where
  "GetVarint32PtrFallback p = get_varint_loop 28 0 0 p"

definition GetVarint32Ptr :: "u8 list \<Rightarrow> (u32 \<times> u8 list) option" where
  "GetVarint32Ptr p =
     (case p of
        b # rest \<Rightarrow> (let result = ucast b in
          if result AND 128 = 0 then Some (result, rest) else GetVarint32PtrFallback p)
      | [] \<Rightarrow> GetVarint32PtrFallback p)"

definition GetVarint32 :: "u8 list \<Rightarrow> (u32 \<times> u8 list) option" where
  "GetVarint32 input =
     (case GetVarint32Ptr input of None \<Rightarrow> None | Some (value, q) \<Rightarrow> Some (value, q))"

definition GetVarint64Ptr :: "u8 list \<Rightarrow> (u64 \<times> u8 list) option" where
  "GetVarint64Ptr p = get_varint_loop 63 0 0 p"

definition GetVarint64 :: "u8 list \<Rightarrow> (u64 \<times> u8 list) option" where
  "GetVarint64 input =
     (case GetVarint64Ptr input of None \<Rightarrow> None | Some (value, q) \<Rightarrow> Some (value, q))"


subsection \<open>Varint lemmas\<close>

lemma get_varint_encode:
  fixes v :: u64 and r :: "'a::len word"
  assumes "unat v * 2 ^ s < 2 ^ LENGTH('a)" "7 dvd s" "s \<le> max_shift"
    "\<And>t. 7 dvd t \<Longrightarrow> t < LENGTH('a) \<Longrightarrow> t \<le> max_shift"
  shows "get_varint_loop max_shift s r (EncodeVarint64 v @ rest) = Some (r OR push_bit s (ucast v), rest)"
  using assms
proof (induction v arbitrary: s r rule: EncodeVarint64.induct)
  case (1 v)
  show ?case
  proof (cases "v \<ge> 128")
    case True
    have "(2::nat) ^ 7 * 2 ^ s \<le> unat v * 2 ^ s" using True by (intro mult_le_mono1) (simp add: word_le_nat_alt)
    from le_less_trans [OF this "1.prems"(1)] have "(2::nat) ^ (7 + s) < 2 ^ LENGTH('a)" by (simp only: power_add)
    then have s: "7 + s < LENGTH('a)" by (rule power_less_imp_less_exp [rotated]) simp
    have "unat (drop_bit 7 v) * 2 ^ (s + 7) \<le> unat v * 2 ^ s"
      by (simp add: unat_drop_div power_add)
    then have IH: "get_varint_loop max_shift (s + 7) r' (EncodeVarint64 (drop_bit 7 v) @ rest)
        = Some (r' OR push_bit (s + 7) (ucast (drop_bit 7 v)), rest)" for r' :: "'a word"
      using "1.IH" [OF True, of "s + 7" r'] "1.prems" s by (simp add: add.commute)
    let ?b = "ucast ((v AND 127) OR 128) :: u8"
    have b1: "(ucast ?b :: 'a word) AND 128 \<noteq> 0"
    proof -
      have "bit ((ucast ?b :: 'a word) AND 128) 7"
        using s by (simp add: bit_128 bit_simps)
      then show ?thesis by auto
    qed
    have b2: "(ucast ?b :: 'a word) AND 127 = ucast v AND 127"
      by (rule bit_word_eqI) (auto simp: bit_128 bit_127 bit_simps)
    have eq: "r OR push_bit s (ucast v AND 127) OR push_bit (s + 7) (ucast (drop_bit 7 v)) = r OR push_bit s (ucast v :: 'a word)"
    proof -
      have arith: "7 + (n - (s + 7)) = n - s" if "7 \<le> n - s" for n using that by simp
      have "bit (r OR push_bit s (ucast v AND 127) OR push_bit (s + 7) (ucast (drop_bit 7 v))) n
          = bit (r OR push_bit s (ucast v :: 'a word)) n" if "n < LENGTH('a)" for n
        using that by (cases "7 \<le> n - s") (auto simp: bit_127 bit_simps arith)
      then show ?thesis by (rule bit_word_eqI)
    qed
    have step: "get_varint_loop max_shift s r (EncodeVarint64 v @ rest)
        = get_varint_loop max_shift (s + 7) (r OR push_bit s (ucast v AND 127)) (EncodeVarint64 (drop_bit 7 v) @ rest)"
      using True b1 b2 "1.prems"(3) by (subst EncodeVarint64.simps) (simp add: Let_def)
    show ?thesis
      unfolding step IH or.assoc eq ..
  next
    case False
    then have v: "v < 128" by simp
    then have "k < 7" if "bit v k" for k
      using word_small_bit [of v 7 k] that by (auto simp: word_less_nat_alt not_le [symmetric])
    then have lt: "bit v k \<longleftrightarrow> bit v k \<and> k < 7" for k by auto
    have "(ucast (ucast v :: u8) :: 'a word) AND 128 = 0"
      using lt [of 7] by (auto intro!: bit_word_eqI simp: bit_128 bit_simps)
    moreover have "(ucast (ucast v :: u8) :: 'a word) = ucast v"
    proof (rule bit_word_eqI)
      fix n assume "n < LENGTH('a)"
      then show "bit (ucast (ucast v :: u8) :: 'a word) n = bit (ucast v :: 'a word) n"
        using lt [of n] by (cases "bit v n") (auto simp: bit_simps)
    qed
    ultimately show ?thesis
      using False "1.prems" by (subst EncodeVarint64.simps) (simp add: Let_def)
  qed
qed

lemma unat_push_bit_1: "n < LENGTH('a) \<Longrightarrow> unat (push_bit n (1 :: 'a::len word)) = 2 ^ n"
  by (simp add: push_bit_eq_mult unat_power2)

lemma varint_threshold:
  fixes v :: u32
  assumes "k + 7 < 32"
  shows "128 \<le> drop_bit k (ucast v :: u64) \<longleftrightarrow> \<not> v < push_bit (k + 7) 1"
proof -
  have "unat (push_bit (k + 7) 1 :: u32) = 128 * 2 ^ k"
    using unat_push_bit_1 [where 'a = 32, of "k + 7"] assms by (simp only: power_add) simp
  moreover have "unat (drop_bit k (ucast v :: u64)) = unat v div 2 ^ k"
    by (simp add: unat_drop_div unsigned_ucast_eq take_bit_nat_eq_self order.strict_trans [OF unsigned_less])
  moreover have "128 \<le> n div 2 ^ k \<longleftrightarrow> 128 * 2 ^ k \<le> n" for n :: nat
    by (simp add: less_eq_div_iff_mult_less_eq)
  ultimately show ?thesis
    by (simp add: word_le_nat_alt word_less_nat_alt not_less)
qed

lemma EncodeVarint32_eq: "EncodeVarint32 v = EncodeVarint64 (ucast v)"
proof -
  have b: "ucast ((drop_bit k (ucast v :: u64) AND 127) OR 128) = (ucast (drop_bit k v OR 128) :: u8)" for k
  proof -
    have lt: "bit v m \<longleftrightarrow> bit v m \<and> m < 32" for m
      using bit_imp_le_length [of v m] by auto
    show ?thesis
    proof (rule bit_word_eqI)
      fix n assume n: "n < LENGTH(8)"
      show "bit (ucast ((drop_bit k (ucast v :: u64) AND 127) OR 128) :: u8) n = bit (ucast (drop_bit k v OR 128) :: u8) n"
        using n lt [of "k + n"] by (cases "bit v (k + n)") (auto simp: bit_128 bit_127 bit_simps)
    qed
  qed
  have l: "ucast (drop_bit k (ucast v :: u64)) = (ucast (drop_bit k v) :: u8)" for k
  proof (rule bit_word_eqI)
    fix n assume "n < LENGTH(8)"
    then show "bit (ucast (drop_bit k (ucast v :: u64)) :: u8) n = bit (ucast (drop_bit k v) :: u8) n"
      using bit_imp_le_length [of v "k + n"] by (cases "bit v (k + n)") (auto simp: bit_simps)
  qed
  have e: "EncodeVarint64 (drop_bit k (ucast v)) =
     (if v < push_bit (k + 7) 1 then [ucast (drop_bit k v)]
      else ucast (drop_bit k v OR 128) # EncodeVarint64 (drop_bit (k + 7) (ucast v)))" if "k + 7 < 32" for k
    using varint_threshold [OF that, of v] b [of k] l [of k]
    by (subst EncodeVarint64.simps) (simp add: add.commute)
  have "\<not> 128 \<le> drop_bit 28 (ucast v :: u64)"
  proof -
    have "unat v div 2 ^ 28 < 128" using unsigned_less [of v, where 'a = nat] by (simp add: less_mult_imp_div_less)
    then show ?thesis by (simp add: word_le_nat_alt unat_drop_div unat_ucast_up)
  qed
  then have e5: "EncodeVarint64 (drop_bit 28 (ucast v)) = [ucast (drop_bit 28 v)]"
    by (subst EncodeVarint64.simps) (simp add: l)
  have e0: "EncodeVarint64 (ucast v) = (if v < push_bit 7 1 then [ucast v]
      else ucast (v OR 128) # EncodeVarint64 (drop_bit 7 (ucast v)))"
    using e [of 0] by (simp add: ucast_id)
  have nums: "7 + 7 = (14::nat)" "14 + 7 = (21::nat)" "21 + 7 = (28::nat)" by simp_all
  have less: "(14::nat) < 32" "(21::nat) < 32" "(28::nat) < 32" by simp_all
  note es = e [of 7, unfolded nums, OF less(1)] e [of 14, unfolded nums, OF less(2)] e [of 21, unfolded nums, OF less(3)]
  show ?thesis
    by (cases "v < push_bit 7 1"; cases "v < push_bit 14 1"; cases "v < push_bit 21 1"; cases "v < push_bit 28 1")
      (simp_all only: EncodeVarint32_def Let_def e0 es e5 if_True if_False simp_thms)
qed

lemma GetVarint32_fallback: "GetVarint32Ptr p = GetVarint32PtrFallback p"
  by (auto simp: GetVarint32Ptr_def GetVarint32PtrFallback_def Let_def split: list.splits)

lemma varint64_decode: "GetVarint64 (EncodeVarint64 v @ rest) = Some (v, rest)"
proof -
  have "unat v * 2 ^ 0 < 2 ^ LENGTH(64)" using unsigned_less [of v] by simp
  then show ?thesis
    using get_varint_encode [of v 0 63 "0 :: 64 word" rest]
    by (simp add: GetVarint64_def GetVarint64Ptr_def)
qed

lemma varint32_decode: "GetVarint32 (EncodeVarint32 v @ rest) = Some (v, rest)"
proof -
  have "unat (ucast v :: u64) * 2 ^ 0 < 2 ^ LENGTH(32)"
    using unsigned_less [of v] by (simp add: unsigned_ucast_eq take_bit_nat_eq_self order.strict_trans [OF unsigned_less])
  moreover have "t \<le> 28" if "7 dvd t" "t < 32" for t :: nat using that by presburger
  ultimately show ?thesis
    using get_varint_encode [of "ucast v" 0 28 "0 :: 32 word" rest]
    by (simp add: GetVarint32_def GetVarint32_fallback GetVarint32PtrFallback_def EncodeVarint32_eq ucast_up_down)
qed

lemma varint_length_loop_eq: "varint_length_loop v len = len + int (length (EncodeVarint64 v)) - 1"
  by (induction v len rule: varint_length_loop.induct)
    (subst varint_length_loop.simps, subst EncodeVarint64.simps, auto)

lemma VarintLength_eq: "VarintLength v = int (length (EncodeVarint64 v))"
  by (simp add: VarintLength_def varint_length_loop_eq)

text \<open>\<open>n\<close> bytes hold \<open>7 n\<close> bits: the buffers of the \<open>Put\<close> routines (5 and 10 bytes) are large enough.\<close>

lemma length_EncodeVarint64: "unat v < 2 ^ (7 * n) \<Longrightarrow> 0 < n \<Longrightarrow> length (EncodeVarint64 v) \<le> n"
proof (induction v arbitrary: n rule: EncodeVarint64.induct)
  case (1 v)
  show ?case
  proof (cases "v \<ge> 128")
    case True
    then have "128 \<le> unat v" by (simp add: word_le_nat_alt)
    with "1.prems" obtain m where n: "n = Suc m" and m: "0 < m"
      by (cases n; cases "n - 1") auto
    have "unat (drop_bit 7 v) < 2 ^ (7 * m)"
      using "1.prems"(1) by (simp add: unat_drop_div n power_add less_mult_imp_div_less mult.commute)
    from "1.IH" [OF True this m] True n show ?thesis
      by (subst EncodeVarint64.simps) simp
  next
    case False
    with "1.prems" show ?thesis by (subst EncodeVarint64.simps) simp
  qed
qed

subsection \<open>Fixed-width lemmas\<close>

text \<open>The stored bytes do not depend on the host's byte order.\<close>

lemma EncodeFixed_portable:
  "EncodeFixed16 le a = host_bytes 2 a" "EncodeFixed32 le b = host_bytes 4 b" "EncodeFixed64 le c = host_bytes 8 c"
  by (simp_all add: EncodeFixed16_def EncodeFixed32_def EncodeFixed64_def host_bytes_def upt_2_4_8 ucast_and_255)

lemma length_host_bytes [simp]: "length (host_bytes n v) = n"
  by (simp add: host_bytes_def)

lemma host_word_bytes_aux:
  "host_word (map (\<lambda>i. ucast (drop_bit (8 * i) v)) [k..<k + n]) = take_bit (8 * n) (drop_bit (8 * k) v)" for v :: "'a::len word"
proof (induction n arbitrary: k)
  case 0
  then show ?case by (simp add: host_word_def)
next
  case (Suc n)
  have u: "[k..<k + Suc n] = k # [Suc k..<Suc k + n]" by (simp add: upt_rec)
  have "host_word (map (\<lambda>i. ucast (drop_bit (8 * i) v)) [k..<k + Suc n])
      = push_bit 8 (take_bit (8 * n) (drop_bit (8 * Suc k) v)) OR ucast (ucast (drop_bit (8 * k) v) :: u8)"
    unfolding u using Suc.IH [of "Suc k"] by (simp add: host_word_def)
  also have "\<dots> = take_bit (8 * Suc n) (drop_bit (8 * k) v)"
  proof (rule bit_word_eqI)
    fix j assume "j < LENGTH('a)"
    moreover have "8 + (8 * k + (j - 8)) = 8 * k + j" if "8 \<le> j" using that by simp
    ultimately show "bit (push_bit 8 (take_bit (8 * n) (drop_bit (8 * Suc k) v)) OR ucast (ucast (drop_bit (8 * k) v) :: u8)) j
        = bit (take_bit (8 * Suc n) (drop_bit (8 * k) v)) j"
      by (cases "8 \<le> j") (auto simp: bit_simps dest: bit_imp_le_length)
  qed
  finally show ?case .
qed

lemma host_word_bytes: "LENGTH('a) \<le> 8 * n \<Longrightarrow> host_word (host_bytes n v) = v" for v :: "'a::len word"
  using host_word_bytes_aux [of v 0 n] by (simp add: host_bytes_def take_bit_word_eq_self)

lemma bit_host_word:
  "bit (host_word bs :: 'a::len word) n \<longleftrightarrow> n < LENGTH('a) \<and> n < 8 * length bs \<and> bit (bs ! (n div 8)) (n mod 8)"
proof (induction bs arbitrary: n)
  case Nil
  then show ?case by (simp add: host_word_def)
next
  case (Cons b bs)
  have e: "host_word (b # bs) = push_bit 8 (host_word bs) OR (ucast b :: 'a word)" by (simp add: host_word_def)
  show ?case
  proof (cases "n < 8")
    case True
    then show ?thesis by (auto simp: e bit_simps)
  next
    case False
    then obtain m where n: "n = m + 8" by (metis le_add_diff_inverse2 not_less)
    then have "\<not> bit b n" by (auto dest: bit_imp_le_length)
    moreover have "(m + 8) div 8 - Suc 0 = m div 8" by simp
    ultimately show ?thesis using Cons.IH [of m] by (auto simp: e n bit_simps)
  qed
qed

lemma host_word_2: "length p \<ge> 2 \<Longrightarrow> ucast (p ! 0) OR push_bit 8 (ucast (p ! 1)) = (host_word (take 2 p) :: u16)"
  by (cases p; cases "tl p") (auto simp: host_word_def or.commute)

lemma take_4: "length p \<ge> 4 \<Longrightarrow> take 4 p = [p ! 0, p ! 1, p ! 2, p ! 3]"
  by (rule nth_equalityI) (auto simp: nth_Cons less_Suc_eq numeral_eq_Suc split: nat.splits)

lemma host_word_4:
  "length p \<ge> 4 \<Longrightarrow> ucast (p ! 0) OR push_bit 8 (ucast (p ! 1)) OR push_bit 16 (ucast (p ! 2)) OR push_bit 24 (ucast (p ! 3))
     = (host_word (take 4 p) :: u32)"
  by (simp only: take_4) (simp add: host_word_def ac_simps push_bit_or)

lemma host_word_8:
  assumes "length p \<ge> 8"
  shows "push_bit 32 (ucast (host_word (take 4 (drop 4 p)) :: u32)) OR ucast (host_word (take 4 p) :: u32)
     = (host_word (take 8 p) :: u64)"
proof (rule bit_word_eqI)
  fix n assume n: "n < LENGTH(64)"
  show "bit (push_bit 32 (ucast (host_word (take 4 (drop 4 p)) :: u32)) OR ucast (host_word (take 4 p) :: u32) :: u64) n
      = bit (host_word (take 8 p) :: u64) n"
  proof (cases "n < 32")
    case True
    then show ?thesis using assms by (auto simp: bit_simps bit_host_word)
  next
    case False
    then obtain m where m: "n = m + 32" by (metis le_add_diff_inverse2 not_less)
    have "(m + 32) div 8 = 4 + m div 8" "(m + 32) mod 8 = m mod 8" by presburger+
    then show ?thesis using assms n by (auto simp: m bit_simps bit_host_word)
  qed
qed

lemma DecodeFixed_portable:
  "DecodeFixed16 le p = (if length p < 2 then None else Some (host_word (take 2 p)))"
  "DecodeFixed32 le p = (if length p < 4 then None else Some (host_word (take 4 p)))"
  "DecodeFixed64 le p = (if length p < 8 then None else Some (host_word (take 8 p)))"
proof -
  show "DecodeFixed16 le p = (if length p < 2 then None else Some (host_word (take 2 p)))"
    using host_word_2 [of p] by (simp add: DecodeFixed16_def)
  have d32: "DecodeFixed32 le p = (if length p < 4 then None else Some (host_word (take 4 p)))" for le p
    using host_word_4 [of p] by (simp add: DecodeFixed32_def)
  then show "DecodeFixed32 le p = (if length p < 4 then None else Some (host_word (take 4 p)))" .
  show "DecodeFixed64 le p = (if length p < 8 then None else Some (host_word (take 8 p)))"
    using host_word_8 [of p] by (auto simp: DecodeFixed64_def d32)
qed

lemma fixed_decode:
  "DecodeFixed16 le (EncodeFixed16 le' a @ rest) = Some a"
  "DecodeFixed32 le (EncodeFixed32 le' b @ rest) = Some b"
  "DecodeFixed64 le (EncodeFixed64 le' c @ rest) = Some c"
  by (simp_all add: DecodeFixed_portable EncodeFixed_portable host_word_bytes)

lemma length_EncodeFixed [simp]: "length (EncodeFixed32 le v) = 4" "length (EncodeFixed64 le w) = 8"
  by (simp_all add: EncodeFixed_portable)

subsection \<open>Encodings that can be read back\<close>

text \<open>What a reader of these numbers relies on: a decoder undoes its encoder in front of any other bytes.\<close>

locale codec =
  fixes encode :: "'a \<Rightarrow> u8 list"
    and decode :: "u8 list \<Rightarrow> ('a \<times> u8 list) option"
  assumes decode_encode: "decode (encode v @ rest) = Some (v, rest)"
begin

lemma encode_append_eq: "encode v @ r = encode w @ s \<longleftrightarrow> v = w \<and> r = s"
  by (metis decode_encode option.inject prod.inject)

lemma encode_inj: "encode v = encode w \<longleftrightarrow> v = w"
  using encode_append_eq [of v "[]" w "[]"] by simp

lemma decode_two:
  "(do { (a, input) \<leftarrow> decode (encode v @ encode w @ rest); (b, input) \<leftarrow> decode input; Some (f a b, input) }) = Some (f v w, rest)"
  by (simp add: decode_encode)

end

interpretation varint32: codec EncodeVarint32 GetVarint32
  by unfold_locales (rule varint32_decode)

interpretation varint64: codec EncodeVarint64 GetVarint64
  by unfold_locales (rule varint64_decode)

subsection \<open>Properties\<close>

text \<open>Fixed-width integers round-trip through any host: what one byte order appends, the
  other decodes to the same value, whatever bytes follow.\<close>

theorem fixed_roundtrip:
  "DecodeFixed16 le (PutFixed16 le' [] a @ rest) = Some a \<and>
   DecodeFixed32 le (PutFixed32 le' [] b @ rest) = Some b \<and>
   DecodeFixed64 le (PutFixed64 le' [] c @ rest) = Some c"
  by (simp add: fixed_decode PutFixed16_def PutFixed32_def PutFixed64_def)

text \<open>A 64-bit varint is read back exactly and leaves the bytes after it untouched;
  \<open>VarintLength\<close> is the number of bytes written, which fits the ten-byte buffer of \<open>PutVarint64\<close>.\<close>

theorem varint64_roundtrip:
  "GetVarint64 (PutVarint64 [] v @ rest) = Some (v, rest) \<and>
   PutVarint64 dst v = dst @ PutVarint64 [] v \<and>
   VarintLength v = int (length (PutVarint64 [] v)) \<and> length (PutVarint64 [] v) \<le> 10"
  using length_EncodeVarint64 [of v 10] unsigned_less [of v, where 'a = nat]
  by (simp add: PutVarint64_def varint64_decode VarintLength_eq)

text \<open>The unrolled 32-bit varint encoder writes at most five bytes, the same ones as the
  64-bit encoder's loop, and the 32-bit decoder (fast path and fallback) reads them back.\<close>

theorem varint32_roundtrip:
  "GetVarint32 (PutVarint32 [] v @ rest) = Some (v, rest) \<and>
   PutVarint32 dst v = PutVarint64 dst (ucast v) \<and> length (PutVarint32 [] v) \<le> 5"
proof -
  have "unat (ucast v :: u64) < 2 ^ 35"
    using unsigned_less [of v, where 'a = nat] by (simp add: unat_ucast_up)
  then show ?thesis
    using length_EncodeVarint64 [of "ucast v" 5] varint32_decode
    by (simp add: PutVarint32_def PutVarint64_def EncodeVarint32_eq)
qed

end
