(* ===== verification/ImageJni.thy ===== *)
theory ImageJni
  imports ImageRgb Coding
begin

text \<open>
  \<open>jni/imageutils_jni.cc\<close>: the entry points the Java code calls. A Java array is the list of its
  elements (a \<open>jbyteArray\<close> of bytes, a \<open>jintArray\<close> of 32-bit words); \<open>Get...ArrayElements\<close> hands the
  elements to the converter, releasing an input with \<open>JNI_ABORT\<close> leaves the Java array as it was, and
  releasing the output with mode 0 stores the converted elements: the result of the model is the new
  contents of the output array. Input and output are different arrays. The two RGB565 routines
  view a byte array as an array of 16-bit words (Android hosts are little-endian).
\<close>

definition view_u16 :: "u8 list \<Rightarrow> u16 list" where
  "view_u16 bs = map (\<lambda>k. host_word [bs ! (2 * k), bs ! (2 * k + 1)]) [0..<length bs div 2]"

definition commit_u16 :: "u8 list \<Rightarrow> u16 list \<Rightarrow> u8 list" where
  "commit_u16 bs ws = concat (map (host_bytes 2) ws) @ drop (2 * length ws) bs"

definition convertYUV420SPToARGB8888 :: "u8 list \<Rightarrow> u32 list \<Rightarrow> int \<Rightarrow> int \<Rightarrow> bool \<Rightarrow> u32 list option" where
  "convertYUV420SPToARGB8888 input output width height halfSize =
     (if halfSize then ConvertYUV420SPToARGB8888HalfSize (input, 0) output width height
      else ConvertYUV420SPToARGB8888 (input, 0) (ptr_add (input, 0) (width * height)) output width height)"

definition convertYUV420ToARGB8888 ::
    "u8 list \<Rightarrow> u8 list \<Rightarrow> u8 list \<Rightarrow> u32 list \<Rightarrow> int \<Rightarrow> int \<Rightarrow> int \<Rightarrow> int \<Rightarrow> int \<Rightarrow> bool \<Rightarrow> u32 list option" where
  "convertYUV420ToARGB8888 y u v output width height y_row_stride uv_row_stride uv_pixel_stride halfSize =
     (if halfSize then ConvertYUV420SPToARGB8888HalfSize (y, 0) output width height
      else ConvertYUV420ToARGB8888 (y, 0) (u, 0) (v, 0) output width height y_row_stride uv_row_stride uv_pixel_stride)"

definition convertYUV420SPToRGB565 :: "u8 list \<Rightarrow> u8 list \<Rightarrow> int \<Rightarrow> int \<Rightarrow> u8 list option" where
  "convertYUV420SPToRGB565 input output width height =
     map_option (commit_u16 output) (ConvertYUV420SPToRGB565 (input, 0) (view_u16 output) width height)"

definition convertARGB8888ToYUV420SP :: "u32 list \<Rightarrow> u8 list \<Rightarrow> int \<Rightarrow> int \<Rightarrow> u8 list option" where
  "convertARGB8888ToYUV420SP input output width height =
     ConvertARGB8888ToYUV420SP (input, 0) output width height"

definition convertRGB565ToYUV420SP :: "u8 list \<Rightarrow> u8 list \<Rightarrow> int \<Rightarrow> int \<Rightarrow> u8 list option" where
  "convertRGB565ToYUV420SP input output width height =
     ConvertRGB565ToYUV420SP (view_u16 input, 0) output width height"

subsection \<open>The 16-bit view\<close>

lemma length_view_u16 [simp]: "length (view_u16 bs) = length bs div 2"
  by (simp add: view_u16_def)

lemma view_commit:
  assumes "length ws = length bs div 2"
  shows "view_u16 (commit_u16 bs ws) = ws" and "length (commit_u16 bs ws) = length bs"
proof -
  have l: "length (concat (map (host_bytes 2) ws)) = 2 * length ws" for ws :: "u16 list" by (induction ws) simp_all
  show len: "length (commit_u16 bs ws) = length bs" using assms by (simp add: commit_u16_def l)
  have nth: "concat (map (host_bytes 2) ws) ! (2 * k) = host_bytes 2 (ws ! k) ! 0 \<and>
    concat (map (host_bytes 2) ws) ! (2 * k + 1) = host_bytes 2 (ws ! k) ! 1" if "k < length ws" for k
    using that
  proof (induction ws arbitrary: k)
    case (Cons w ws)
    then show ?case by (cases k) (simp_all add: nth_append)
  qed simp
  show "view_u16 (commit_u16 bs ws) = ws"
  proof (rule nth_equalityI)
    show "length (view_u16 (commit_u16 bs ws)) = length ws" using len assms by simp
    fix k assume "k < length (view_u16 (commit_u16 bs ws))"
    then have k: "k < length ws" using len assms by simp
    then have "host_bytes 2 (ws ! k) = [host_bytes 2 (ws ! k) ! 0, host_bytes 2 (ws ! k) ! 1]"
      by (simp add: host_bytes_def upt_2_4_8)
    moreover have "host_word (host_bytes 2 (ws ! k)) = ws ! k"
      by (rule host_word_bytes) simp
    ultimately show "view_u16 (commit_u16 bs ws) ! k = ws ! k"
      using k len assms nth [OF k] by (simp add: view_u16_def commit_u16_def nth_append l)
  qed
qed

lemma half_size_planar_oob:
  assumes "2 \<le> w" "2 \<le> h" "length y \<le> w * h"
  shows "convertYUV420ToARGB8888 y u v out (int w) (int h) ys uvs ps True = None"
proof -
  have up: "[0..<m div 2] = 0 # [1..<m div 2]" if "2 \<le> m" for m :: nat
    using that by (simp add: upt_conv_Cons div_greater_zero_iff)
  have "rdp (ptr_add (y, 0) (int w * int h)) 0 = None"
    using assms(3) by (simp add: rdp_def ptr_add_def rd_def flip: of_nat_mult)
  then show ?thesis
    using assms(1,2) by (simp add: convertYUV420ToARGB8888_def ConvertYUV420SPToARGB8888HalfSize_def Let_def up)
qed

lemma sp565_view:
  assumes "w * h + nat (sp_uv_size (int w) (int h)) \<le> length input" "2 * (w * h) \<le> length out" "0 < w" "0 < h"
  shows "\<exists>out'. convertYUV420SPToRGB565 input out (int w) (int h) = Some out' \<and> length out' = length out \<and>
    view_u16 out' = painted (sp_pixel YUV2RGB565 (input, 0) (ptr_add (input, 0) (int (w * h))) w) w (w * h) (view_u16 out)"
proof -
  let ?px = "painted (sp_pixel YUV2RGB565 (input, 0) (ptr_add (input, 0) (int (w * h))) w) w (w * h) (view_u16 out)"
  have le: "w * h \<le> length out div 2" using assms(2) by simp
  have nonneg: "0 \<le> sp_uv_size (int w) (int h)" using assms(3,4) by simp
  have "int (w * h) + int (nat (sp_uv_size (int w) (int h))) \<le> int (length input)"
    using assms(1) by (simp only: of_nat_add [symmetric] of_nat_le_iff)
  then have uv: "int (w * h) + sp_uv_size (int w) (int h) \<le> int (length input)" using nonneg by linarith
  have "ConvertYUV420SPToRGB565 (input, 0) (view_u16 out) (int w) (int h) = Some ?px"
    by (rule sp_565) (use uv le nonneg in \<open>auto simp: readable_def ptr_add_def\<close>)
  moreover have "length ?px = length out div 2" using le by simp
  ultimately show ?thesis by (simp add: convertYUV420SPToRGB565_def view_commit)
qed

subsection \<open>Properties\<close>

text \<open>C40: Asking the planar entry point for a half-size picture reads outside the Y plane: it hands the
  Y plane alone to the semi-planar converter, which looks for the chroma behind it, so on an exact Y
  plane of at least 2x2 pixels the very first block reads out of bounds.\<close>

theorem half_size_planar_out_of_bounds:
  assumes "2 \<le> w" "2 \<le> h" "length y \<le> w * h"
  shows "convertYUV420ToARGB8888 y u v out (int w) (int h) ys uvs ps True = None"
  by (rule half_size_planar_oob [OF assms])

theorem half_size_planar_out_of_bounds_witness:
  "convertYUV420ToARGB8888 [1, 2, 3, 4] [128] [128] [0] 2 2 2 1 1 True = None"
  using half_size_planar_out_of_bounds [of 2 2 "[1, 2, 3, 4]" "[128]" "[128]" "[0]" 2 1 1] by simp

text \<open>The RGB565 entry point, called with a complete frame and a byte array of two bytes per pixel,
  succeeds, keeps the length of the array, and leaves in it, seen as 16-bit words, the colour of every pixel.\<close>

theorem convertYUV420SPToRGB565_correct:
  assumes "w * h + nat (sp_uv_size (int w) (int h)) \<le> length input" "2 * (w * h) \<le> length out" "0 < w" "0 < h"
  shows "\<exists>out'. convertYUV420SPToRGB565 input out (int w) (int h) = Some out' \<and> length out' = length out \<and>
    view_u16 out' = painted (sp_pixel YUV2RGB565 (input, 0) (ptr_add (input, 0) (int (w * h))) w) w (w * h) (view_u16 out)"
  by (rule sp565_view [OF assms])

theorem convertYUV420SPToRGB565_correct_witness:
  "\<exists>out'. convertYUV420SPToRGB565 [81, 145, 41, 90, 240, 100, 30] [0, 0, 0, 0, 0, 0, 9] 3 1 = Some out' \<and> length out' = 7"
  using convertYUV420SPToRGB565_correct [of 3 1 "[81, 145, 41, 90, 240, 100, 30]" "[0, 0, 0, 0, 0, 0, 9]"] by auto

end
