(* ===== verification/AppInput.thy ===== *)
theory AppInput
  imports C_Prelude "HOL-Library.Sublist"
begin

text \<open>
  How the app reads its model and label files: \<open>jni/limiting_file_input_stream.h\<close> and the file
  routines of \<open>jni/jni_utils.cc\<close>. The kernel is a script of answers to \<open>read\<close> (interrupted, failed, or
  willing to deliver up to some number of bytes); file and asset contents are given by an environment.
  Failing \<open>CHECK\<close>s abort the process (\<open>None\<close>). Protocol buffers are opaque: the parser is
  a parameter.
\<close>

subsection \<open>The limited stream\<close>

datatype os_read = Eintr | Fails int | Delivers nat

record input_stream =
  fd_data :: "u8 list"
  fd_pos :: nat
  bytes_left :: int
  errno_ :: int

definition LimitingFileInputStream :: "u8 list \<Rightarrow> nat \<Rightarrow> int \<Rightarrow> input_stream" where
  "LimitingFileInputStream file pos limit =
     \<lparr>fd_data = file, fd_pos = pos, bytes_left = limit, errno_ = 0\<rparr>"

text \<open>The kernel's \<open>read\<close>: the \<open>int\<close> count becomes a \<open>size_t\<close>.\<close>

definition size_t :: "int \<Rightarrow> nat" where
  "size_t n = nat (if n < 0 then 2 ^ 64 + n else n)"

definition os_bytes :: "input_stream \<Rightarrow> nat \<Rightarrow> int \<Rightarrow> u8 list" where
  "os_bytes s k n = take (min k (size_t n)) (drop (fd_pos s) (fd_data s))"

text \<open>The result: what \<open>Read\<close> returns, the bytes it put in the buffer, the stream, the rest of the script;
  \<open>None\<close> when the script ends while the call is still being interrupted.\<close>

fun Read :: "os_read list \<Rightarrow> input_stream \<Rightarrow> int \<Rightarrow> (int \<times> u8 list \<times> input_stream \<times> os_read list) option" where
  "Read [] s sz = None"
| "Read (r # rs) s sz =
     (case r of
        Eintr \<Rightarrow> Read rs s sz
      | Fails e \<Rightarrow> Some (-1, [], s\<lparr>errno_ := e\<rparr>, rs)
      | Delivers k \<Rightarrow>
          (let data = os_bytes s k (min (bytes_left s) sz); result = int (length data)
           in Some (result, data,
                s\<lparr>fd_pos := fd_pos s + length data, bytes_left := bytes_left s - result\<rparr>, rs)))"

text \<open>\<open>lseek\<close> fails when the kernel refuses or the offset would be negative.\<close>

definition Skip :: "bool \<Rightarrow> input_stream \<Rightarrow> int \<Rightarrow> int \<times> input_stream" where
  "Skip ok s count =
     (if \<not> ok \<or> int (fd_pos s) + count < 0 then (-1, s)
      else (count, s\<lparr>fd_pos := nat (int (fd_pos s) + count), bytes_left := bytes_left s - count\<rparr>))"

text \<open>A client that reads with the given buffer sizes until the script ends.\<close>

fun read_all :: "os_read list \<Rightarrow> input_stream \<Rightarrow> int list \<Rightarrow> u8 list \<times> input_stream \<times> int list" where
  "read_all rs s [] = ([], s, [])"
| "read_all rs s (n # ns) =
     (case Read rs s n of
        None \<Rightarrow> ([], s, [])
      | Some (result, data, s', rs') \<Rightarrow>
          (case read_all rs' s' ns of (rest, s'', results) \<Rightarrow> (data @ rest, s'', result # results)))"

lemma Read_cases:
  assumes "Read rs s sz = Some (result, data, s', rs')"
  obtains (failed) e where "result = -1" "data = []" "s' = s\<lparr>errno_ := e\<rparr>"
  | (delivered) k where "data = os_bytes s k (min (bytes_left s) sz)" "result = int (length data)"
      "s' = s\<lparr>fd_pos := fd_pos s + length data, bytes_left := bytes_left s - result\<rparr>"
  using assms by (induction rs s sz rule: Read.induct) (auto split: os_read.splits simp: Let_def)

lemma Read_window:
  assumes "Read rs s sz = Some (result, data, s', rs')" "0 \<le> bytes_left s" "0 \<le> sz"
  shows "int (length data) \<le> sz \<and> result \<le> sz \<and> int (length data) \<le> bytes_left s \<and> 0 \<le> bytes_left s' \<and>
    fd_data s' = fd_data s \<and> bytes_left s' = bytes_left s - int (length data) \<and>
    data = take (length data) (drop (fd_pos s) (fd_data s)) \<and> fd_pos s' = fd_pos s + length data"
  using assms(1)
proof (cases rule: Read_cases)
  case (delivered k)
  have "int (length data) \<le> min (bytes_left s) sz"
    using assms(2,3) unfolding delivered(1) by (auto simp: os_bytes_def size_t_def)
  moreover have "data = take (length data) (drop (fd_pos s) (fd_data s))"
    by (subst (1) delivered(1)) (simp add: delivered(1) os_bytes_def min_def)
  ultimately show ?thesis by (simp add: delivered(2,3))
qed (use assms(2,3) in simp)

lemma read_all_window:
  assumes "0 \<le> bytes_left s" "\<forall>n\<in>set ns. 0 \<le> n" "read_all rs s ns = (data, s', results)"
  shows "data = take (length data) (drop (fd_pos s) (fd_data s)) \<and> int (length data) \<le> bytes_left s \<and>
    list_all2 (\<lambda>r n. r \<le> n) results (take (length results) ns) \<and>
    bytes_left s' = bytes_left s - int (length data) \<and> fd_pos s' = fd_pos s + length data \<and> 0 \<le> bytes_left s'"
  using assms
proof (induction rs s ns arbitrary: data s' results rule: read_all.induct)
  case (2 rs s n ns)
  show ?case
  proof (cases "Read rs s n")
    case (Some a)
    obtain result d s1 rs1 where "a = (result, d, s1, rs1)" by (cases a)
    with Some have R: "Read rs s n = Some (result, d, s1, rs1)" by simp
    obtain rest s2 res where m: "read_all rs1 s1 ns = (rest, s2, res)" by (cases "read_all rs1 s1 ns")
    have n: "0 \<le> n" "\<forall>n\<in>set ns. 0 \<le> n" using "2.prems"(2) by simp_all
    note W = Read_window [OF R "2.prems"(1) n(1)]
    then have "0 \<le> bytes_left s1" by blast
    note ih = "2.IH" [OF R refl refl refl this n(2) m]
    have e: "data = d @ rest" "s' = s2" "results = result # res"
      using "2.prems"(3) R m by simp_all
    have "rest = take (length rest) (drop (length d) (drop (fd_pos s) (fd_data s)))"
      using ih W by (simp add: add.commute)
    then have "d @ rest = take (length d + length rest) (drop (fd_pos s) (fd_data s))"
      using W by (metis take_add)
    moreover have len: "length data = length d + length rest" by (simp add: e(1))
    ultimately have win: "data = take (length data) (drop (fd_pos s) (fd_data s))" by (simp only: e(1))
    have w: "result \<le> n" "int (length d) \<le> bytes_left s" "bytes_left s1 = bytes_left s - int (length d)"
      "fd_pos s1 = fd_pos s + length d"
      using W by blast+
    have h: "int (length rest) \<le> bytes_left s1" "list_all2 (\<lambda>r n. r \<le> n) res (take (length res) ns)"
      "bytes_left s2 = bytes_left s1 - int (length rest)" "fd_pos s2 = fd_pos s1 + length rest" "0 \<le> bytes_left s2"
      using ih by blast+
    show ?thesis using win h w len by (simp add: e(2,3))
  qed (use "2.prems" in simp)
qed simp

subsection \<open>File names and contents\<close>

definition ASSET_PREFIX :: string where
  "ASSET_PREFIX = ''file:///android_asset/''"

text \<open>C's \<open>strstr\<close>: the index of the first occurrence.\<close>

fun strstr :: "string \<Rightarrow> string \<Rightarrow> nat option" where
  "strstr [] needle = (if needle = [] then Some 0 else None)"
| "strstr (c # cs) needle =
     (if take (length needle) (c # cs) = needle then Some 0 else map_option Suc (strstr cs needle))"

definition IsAsset :: "string \<Rightarrow> bool" where
  "IsAsset filename \<longleftrightarrow> strstr filename ASSET_PREFIX = Some 0"

text \<open>The environment: file contents (\<open>None\<close>: cannot be opened) and, when there is an asset manager, assets.\<close>

record file_env =
  file_of :: "string \<Rightarrow> string option"
  asset_manager :: "(string \<Rightarrow> string option) option"

definition ReadFileToString :: "file_env \<Rightarrow> string \<Rightarrow> string option" where
  "ReadFileToString env filename =
     (if \<not> IsAsset filename then Some (case file_of env filename of None \<Rightarrow> [] | Some t \<Rightarrow> t)
      else case asset_manager env of
             None \<Rightarrow> None
           | Some assets \<Rightarrow> assets (drop (length ASSET_PREFIX) filename))"

text \<open>The loop over \<open>std::getline\<close>: a final line without a newline counts, an empty rest does not.\<close>

function getlines :: "string \<Rightarrow> string list" where
  "getlines cs =
     (if cs = [] then []
      else takeWhile (\<lambda>c. c \<noteq> CHR 0x0A) cs # getlines (drop 1 (dropWhile (\<lambda>c. c \<noteq> CHR 0x0A) cs)))"
  by pat_completeness auto
termination
proof (relation "measure length", goal_cases)
  case (2 cs)
  then have "0 < length cs" by simp
  moreover have "length (dropWhile (\<lambda>c. c \<noteq> CHR 0x0A) cs) \<le> length cs" by (rule length_dropWhile_le)
  ultimately have "length (dropWhile (\<lambda>c. c \<noteq> CHR 0x0A) cs) - 1 < length cs" by linarith
  then show ?case by (simp only: in_measure length_drop)
qed (rule wf_measure)

declare getlines.simps [simp del]

definition ReadFileToVector :: "file_env \<Rightarrow> string \<Rightarrow> string list option" where
  "ReadFileToVector env filename =
     (case ReadFileToString env filename of None \<Rightarrow> None | Some labels_string \<Rightarrow> Some (getlines labels_string))"

lemma strstr_0: "strstr f needle = Some 0 \<longleftrightarrow> take (length needle) f = needle"
  by (cases f) auto

lemma IsAsset_prefix: "IsAsset f \<longleftrightarrow> prefix ASSET_PREFIX f"
proof
  assume "IsAsset f"
  then have "f = ASSET_PREFIX @ drop (length ASSET_PREFIX) f"
    unfolding IsAsset_def strstr_0 by (metis append_take_drop_id)
  then show "prefix ASSET_PREFIX f" by (metis prefixI)
qed (auto simp: IsAsset_def strstr_0 prefix_def)

lemma getlines_line:
  assumes "CHR 0x0A \<notin> set l"
  shows "getlines (l @ CHR 0x0A # cs) = l # getlines cs"
proof -
  have "takeWhile (\<lambda>c. c \<noteq> CHR 0x0A) (l @ CHR 0x0A # cs) = l"
    and "dropWhile (\<lambda>c. c \<noteq> CHR 0x0A) (l @ CHR 0x0A # cs) = CHR 0x0A # cs"
    using assms by (induction l) auto
  then show ?thesis by (subst getlines.simps) simp
qed

lemma getlines_last:
  assumes "CHR 0x0A \<notin> set l"
  shows "getlines l = (if l = [] then [] else [l])"
proof -
  have "takeWhile (\<lambda>c. c \<noteq> CHR 0x0A) l = l" "dropWhile (\<lambda>c. c \<noteq> CHR 0x0A) l = []"
    using assms by (induction l) auto
  moreover have "getlines l = takeWhile (\<lambda>c. c \<noteq> CHR 0x0A) l # getlines (drop 1 (dropWhile (\<lambda>c. c \<noteq> CHR 0x0A) l))"
    if "l \<noteq> []" using that by (subst getlines.simps) simp
  moreover have "getlines [] = []" by (subst getlines.simps) simp
  ultimately show ?thesis by (metis drop_Nil)
qed

lemma getlines_unlines:
  assumes "\<forall>l\<in>set ls. CHR 0x0A \<notin> set l" "CHR 0x0A \<notin> set l"
  shows "getlines (concat (map (\<lambda>l. l @ [CHR 0x0A]) ls) @ l) = ls @ (if l = [] then [] else [l])"
  using assms by (induction ls) (auto simp: getlines_line getlines_last)


subsection \<open>Properties\<close>

text \<open>An asset stored uncompressed inside the package is read exactly: after skipping to its start,
  a stream limited to \<open>start + len\<close> only ever delivers bytes of the asset, in order and from its
  first byte, never more than the caller's buffer holds, whatever the kernel answers (interruptions, errors
  and short reads included), and its remaining budget is the undelivered part of the asset.\<close>

theorem asset_window:
  assumes "\<forall>n\<in>set ns. 0 \<le> n"
    "read_all rs (snd (Skip True (LimitingFileInputStream file 0 (int start + int len)) (int start))) ns = (data, s', results)"
  shows "data = take (length data) (take len (drop start file)) \<and> length data \<le> len \<and>
    list_all2 (\<lambda>r n. r \<le> n) results (take (length results) ns) \<and> bytes_left s' = int len - int (length data)"
proof -
  let ?s = "snd (Skip True (LimitingFileInputStream file 0 (int start + int len)) (int start))"
  have s: "bytes_left ?s = int len" "fd_pos ?s = start" "fd_data ?s = file"
    by (simp_all add: Skip_def LimitingFileInputStream_def)
  from read_all_window [OF _ assms] s
  have w: "data = take (length data) (drop start file)" "int (length data) \<le> int len"
    "list_all2 (\<lambda>r n. r \<le> n) results (take (length results) ns)" "bytes_left s' = int len - int (length data)"
    by simp_all
  then have "take (length data) (take len (drop start file)) = data" by simp
  with w show ?thesis by simp
qed

theorem asset_window_witness:
  "[3, 4] = take (length [3, 4]) (take 2 (drop 2 [1, 2, 3, 4, 5 :: u8])) \<and>
    fst (read_all [Delivers 1, Eintr, Delivers 9, Delivers 9]
      (snd (Skip True (LimitingFileInputStream [1, 2, 3, 4, 5] 0 (int 2 + int 2)) (int 2))) [4, 4, 4]) = [3, 4]"
  using asset_window [of "[4, 4, 4]" "[Delivers 1, Eintr, Delivers 9, Delivers 9]" "[1, 2, 3, 4, 5]" 2 2 "[3, 4]"
      "\<lparr>fd_data = [1, 2, 3, 4, 5], fd_pos = 4, bytes_left = 0, errno_ = 0\<rparr>" "[1, 1, 0]"]
  by (simp add: Skip_def LimitingFileInputStream_def os_bytes_def size_t_def Let_def)

text \<open>The label list is what the label file says: reading a file whose lines are \<open>ls\<close>, each ended by a
  newline, with or without a last unterminated line, gives exactly those lines, from a plain file as from an asset.\<close>

theorem ReadFileToVector_lines:
  assumes "\<forall>l\<in>set ls. CHR 0x0A \<notin> set l" "CHR 0x0A \<notin> set l"
    and "if prefix ASSET_PREFIX f
         then asset_manager env = Some assets \<and> assets (drop (length ASSET_PREFIX) f) = Some (concat (map (\<lambda>l. l @ [CHR 0x0A]) ls) @ l)
         else file_of env f = Some (concat (map (\<lambda>l. l @ [CHR 0x0A]) ls) @ l)"
  shows "ReadFileToVector env f = Some (ls @ (if l = [] then [] else [l]))"
  using assms by (auto simp: ReadFileToVector_def ReadFileToString_def IsAsset_prefix getlines_unlines split: if_splits)

theorem ReadFileToVector_lines_witness:
  "ReadFileToVector \<lparr>file_of = (\<lambda>f. Some (''cat'' @ [CHR 0x0A] @ ''dog'' @ [CHR 0x0A] @ ''owl'')), asset_manager = None\<rparr>
     ''labels.txt'' = Some [''cat'', ''dog'', ''owl'']"
  using ReadFileToVector_lines [of "[''cat'', ''dog'']" "''owl''" "''labels.txt''"
      "\<lparr>file_of = (\<lambda>f. Some (''cat'' @ [CHR 0x0A] @ ''dog'' @ [CHR 0x0A] @ ''owl'')), asset_manager = None\<rparr>"]
  by (simp add: ASSET_PREFIX_def)

end
