(* ===== verification/Classifier.thy ===== *)
theory Classifier
  imports AppInput ImageYuv Coding "HOL-Library.Product_Lexorder" "HOL-Library.Multiset"
begin

text \<open>
  \<open>jni/tensorflow_jni.cc\<close>: the classifier behind the camera view. The file's static variables are
  the record \<open>classifier\<close>. Floats are the elements of a linearly ordered type (no NaN); the float
  arithmetic on one colour channel, the printing of a confidence, the clock, and TensorFlow's
  session (creating it from a graph, running it) are parameters. The detailed-statistics
  branches are compile-time options that are off and are left out, as is the log. The limit of \<open>2 ^ 40\<close> elements of a tensor and the range of \<open>int\<close>
  for pixel offsets, which the square bitmaps of a phone do not reach, are left out.
\<close>

subsection \<open>The best results\<close>

text \<open>\<open>std::priority_queue\<close> with \<open>std::greater\<close> on (confidence, index) pairs: its contents in ascending order,
  the smallest on top.\<close>

definition pq_push :: "'f::linorder \<times> nat \<Rightarrow> ('f \<times> nat) list \<Rightarrow> ('f \<times> nat) list" where
  "pq_push x pq = insort x pq"

definition pq_top :: "('f::linorder \<times> nat) list \<Rightarrow> 'f \<times> nat" where
  "pq_top pq = hd pq"

definition pq_pop :: "('f::linorder \<times> nat) list \<Rightarrow> ('f \<times> nat) list" where
  "pq_pop pq = tl pq"

definition top_step :: "int \<Rightarrow> 'f::linorder \<Rightarrow> 'f list \<Rightarrow> ('f \<times> nat) list \<Rightarrow> nat \<Rightarrow> ('f \<times> nat) list" where
  "top_step num_results threshold prediction pq i =
     (let value = prediction ! i in
      if value < threshold then pq
      else let pq = pq_push (value, i) pq in
        if length pq > size_t num_results then pq_pop pq else pq)"

function drain :: "('f::linorder \<times> nat) list \<Rightarrow> ('f \<times> nat) list \<Rightarrow> ('f \<times> nat) list" where
  "drain top_results pq = (if pq = [] then top_results else drain (top_results @ [pq_top pq]) (pq_pop pq))"
  by pat_completeness auto
termination
  by (relation "measure (\<lambda>(r, pq). length pq)") (auto simp: pq_pop_def)

declare drain.simps [simp del]

definition GetTopN :: "'f::linorder list \<Rightarrow> int \<Rightarrow> 'f \<Rightarrow> ('f \<times> nat) list \<Rightarrow> ('f \<times> nat) list" where
  "GetTopN prediction num_results threshold top_results =
     rev (drain top_results (foldl (top_step num_results threshold prediction) [] [0..<length prediction]))"


lemma drain_eq: "drain r pq = r @ pq"
proof (induction pq arbitrary: r)
  case Nil
  show ?case by (subst drain.simps) simp
next
  case (Cons x pq)
  show ?case by (subst drain.simps) (simp add: Cons pq_top_def pq_pop_def)
qed

lemma tl_insort_drop:
  "sorted S \<Longrightarrow> m \<le> length S \<Longrightarrow> tl (insort x (drop m S)) = drop (Suc m) (insort x S)"
proof (induction S arbitrary: m)
  case (Cons a S)
  show ?case
  proof (cases m)
    case (Suc k)
    show ?thesis
    proof (cases "x \<le> a")
      case True
      then have "\<forall>y\<in>set (drop k S). x \<le> y" using Cons.prems(1) by (auto dest!: in_set_dropD intro: order_trans)
      then have "insort x (drop k S) = x # drop k S" by (cases "drop k S") auto
      then show ?thesis using True Suc by simp
    next
      case False
      then show ?thesis using Cons Suc by simp
    qed
  qed simp
qed simp

lemma sort_snoc: "sort (xs @ [x]) = insort x (sort xs)"
  by (rule properties_for_sort) (simp_all add: sorted_insort)

lemma top_fold:
  "foldl (top_step n t p) [] [0..<k] =
    (let S = sort (filter (\<lambda>(v, i). t \<le> v) (map (\<lambda>i. (p ! i, i)) [0..<k])) in drop (length S - size_t n) S)"
proof (induction k)
  case (Suc k)
  let ?S = "sort (filter (\<lambda>(v, i). t \<le> v) (map (\<lambda>i. (p ! i, i)) [0..<k]))"
  let ?n = "size_t n"
  show ?case
  proof (cases "p ! k < t")
    case True
    then show ?thesis using Suc by (simp add: top_step_def Let_def not_less [symmetric])
  next
    case False
    then have S': "sort (filter (\<lambda>(v, i). t \<le> v) (map (\<lambda>i. (p ! i, i)) [0..<Suc k])) = insort (p ! k, k) ?S"
      by (simp add: sort_snoc)
    have "foldl (top_step n t p) [] [0..<Suc k] = top_step n t p (drop (length ?S - ?n) ?S) k"
      using Suc by (simp add: Let_def)
    also have "\<dots> = drop (Suc (length ?S) - ?n) (insort (p ! k, k) ?S)"
    proof (cases "length ?S < ?n")
      case True
      then show ?thesis using False by (simp add: top_step_def Let_def pq_push_def)
    next
      case large: False
      then have "length (insort (p ! k, k) (drop (length ?S - ?n) ?S)) > ?n" by simp
      then show ?thesis
        using False large tl_insort_drop [of ?S "length ?S - ?n" "(p ! k, k)"]
        by (simp add: top_step_def Let_def pq_push_def pq_pop_def Suc_diff_le)
    qed
    finally show ?thesis by (simp add: S' Let_def del: upt_Suc)
  qed
qed simp

lemma GetTopN_eq:
  "GetTopN p n t r =
    take (size_t n) (rev (sort (filter (\<lambda>(v, i). t \<le> v) (map (\<lambda>i. (p ! i, i)) [0..<length p])))) @ rev r"
  by (simp add: GetTopN_def drain_eq top_fold Let_def take_rev)

subsection \<open>The classifier's state\<close>

record 'f classifier =
  session :: "nat option"
  g_label_strings :: "string list"
  g_compute_graph_initialized :: bool
  g_tensorflow_input_size :: int
  g_image_mean :: int
  g_image_std :: 'f
  g_input_name :: string
  g_output_name :: string
  g_num_runs :: int
  g_timing_total_us :: int

text \<open>The session is the identifier of the graph it was created with. \<open>load_graph\<close> stands for \<open>ReadFileToProto\<close> (\<open>None\<close> when its checks fail) and \<open>create\<close> for
  \<open>Session::Create\<close> (false: not OK, which is fatal). \<open>None\<close> is the end of the process.\<close>

definition initializeTensorFlow ::
    "file_env \<Rightarrow> (file_env \<Rightarrow> string \<Rightarrow> nat option) \<Rightarrow> (nat \<Rightarrow> bool) \<Rightarrow>
     string \<Rightarrow> string \<Rightarrow> int \<Rightarrow> int \<Rightarrow> 'f \<Rightarrow> string \<Rightarrow> string \<Rightarrow> 'f classifier \<Rightarrow> (int \<times> 'f classifier) option" where
  "initializeTensorFlow env load_graph create model labels model_input_size image_mean image_std input_name output_name st =
     (let st = st\<lparr>g_num_runs := 0, g_timing_total_us := 0\<rparr> in
      if g_compute_graph_initialized st then Some (0, st)
      else
        let st = st\<lparr>g_tensorflow_input_size := model_input_size, g_image_mean := image_mean,
                    g_image_std := image_std, g_input_name := input_name, g_output_name := output_name\<rparr> in
        case load_graph env model of None \<Rightarrow> None
        | Some graph \<Rightarrow>
            if \<not> create graph then None
            else
              let st = st\<lparr>session := Some graph\<rparr> in
              case ReadFileToVector env labels of None \<Rightarrow> None
              | Some ls \<Rightarrow> Some (0, st\<lparr>g_label_strings := ls, g_compute_graph_initialized := True\<rparr>))"

subsection \<open>The input tensor\<close>

text \<open>The pixels as memory holds them: four bytes each, red first. The tensor is the flat row-major
  array of its \<open>1 x n x n x 3\<close> elements. \<open>norm c mean std\<close> is the float expression on one channel.\<close>

definition tensor_index :: "int \<Rightarrow> nat \<Rightarrow> nat \<Rightarrow> nat \<Rightarrow> int" where
  "tensor_index n i j c = (int i * n + int j) * 3 + int c"

definition copy_pixel ::
    "(u8 \<Rightarrow> int \<Rightarrow> 'f \<Rightarrow> 'f) \<Rightarrow> 'f classifier \<Rightarrow> nat \<Rightarrow> nat \<Rightarrow> u8 ptr \<times> 'f list \<Rightarrow> (u8 ptr \<times> 'f list) option" where
  "copy_pixel norm st i j = (\<lambda>(src, tensor). do {
     let n = g_tensorflow_input_size st;
     red \<leftarrow> rdp src 0;
     tensor \<leftarrow> wr tensor (tensor_index n i j 0) (norm red (g_image_mean st) (g_image_std st));
     green \<leftarrow> rdp src 1;
     tensor \<leftarrow> wr tensor (tensor_index n i j 1) (norm green (g_image_mean st) (g_image_std st));
     blue \<leftarrow> rdp src 2;
     tensor \<leftarrow> wr tensor (tensor_index n i j 2) (norm blue (g_image_mean st) (g_image_std st));
     Some (ptr_add src 4, tensor) })"

definition copy_pixels :: "(u8 \<Rightarrow> int \<Rightarrow> 'f \<Rightarrow> 'f) \<Rightarrow> 'f classifier \<Rightarrow> u8 ptr \<Rightarrow> 'f list \<Rightarrow> 'f list option" where
  "copy_pixels norm st bitmap_src tensor =
     (let n = g_tensorflow_input_size st in
      loopM (\<lambda>i tensor.
        map_option snd (loopM (copy_pixel norm st i) [0..<nat n] (ptr_add bitmap_src (4 * (int i * n)), tensor)))
       [0..<nat n] tensor)"

definition filled :: "(nat \<Rightarrow> 'f) \<Rightarrow> nat \<Rightarrow> 'f list \<Rightarrow> 'f list" where
  "filled f m t = map f [0..<m] @ drop m t"

lemma filled_0 [simp]: "filled f 0 t = t"
  by (simp add: filled_def)

lemma length_filled [simp]: "m \<le> length t \<Longrightarrow> length (filled f m t) = length t"
  by (simp add: filled_def)

lemma filled_step: "m < length t \<Longrightarrow> wr (filled f m t) (int m) (f m) = Some (filled f (Suc m) t)"
proof -
  assume m: "m < length t"
  then have "drop m t = t ! m # drop (Suc m) t" by (simp add: Cons_nth_drop_Suc)
  then show ?thesis using m by (simp add: wr_of_nat) (simp add: filled_def list_update_append)
qed

definition pixel_channel :: "(u8 \<Rightarrow> int \<Rightarrow> 'f \<Rightarrow> 'f) \<Rightarrow> 'f classifier \<Rightarrow> u8 ptr \<Rightarrow> nat \<Rightarrow> 'f" where
  "pixel_channel norm st bitmap k = norm (at bitmap (int (4 * (k div 3) + k mod 3))) (g_image_mean st) (g_image_std st)"

lemma copy_pixel_step:
  assumes n: "g_tensorflow_input_size st = int n" and bm: "readable bitmap (int (4 * (n * n)))"
    and len: "length tensor = 3 * (n * n)" and i: "i < n" and j: "j < n"
  shows "copy_pixel norm st i j (ptr_add bitmap (int (4 * (i * n + j))), filled (pixel_channel norm st bitmap) (3 * (i * n + j)) tensor)
    = Some (ptr_add bitmap (int (4 * (i * n + Suc j))), filled (pixel_channel norm st bitmap) (3 * (i * n + Suc j)) tensor)"
proof -
  let ?f = "pixel_channel norm st bitmap"
  let ?t = "\<lambda>m. filled ?f m tensor"
  let ?k = "i * n + j"
  let ?src = "ptr_add bitmap (int (4 * ?k))"
  have "?k < n * n" by (rule raster_index [OF i j])
  then have k: "3 * ?k + 2 < length tensor" and k4: "4 * ?k + 3 < 4 * (n * n)" using len by simp_all
  have r: "rdp ?src (int c) = Some (at bitmap (int (4 * ?k + c)))" if "c < 3" for c
  proof -
    have "rdp ?src (int c) = rdp bitmap (int (4 * ?k + c))"
      by (simp add: rdp_def ptr_add_def add.assoc)
    also have "4 * ?k + c < 4 * (n * n)" using k4 that by linarith
    then have "rdp bitmap (int (4 * ?k + c)) = Some (at bitmap (int (4 * ?k + c)))"
      by (intro rdp_readable [OF bm] of_nat_0_le_iff) (simp only: of_nat_less_iff)
    finally show ?thesis .
  qed
  have ti: "tensor_index (int n) i j c = int (3 * ?k + c)" for c by (simp add: tensor_index_def algebra_simps)
  have f: "norm (at bitmap (int (4 * ?k + c))) (g_image_mean st) (g_image_std st) = ?f (3 * ?k + c)" if "c < 3" for c
  proof -
    have "(3 * m + c) div 3 = m" "(3 * m + c) mod 3 = c" for m using that by simp_all
    then show ?thesis unfolding pixel_channel_def by metis
  qed
  have w: "wr (?t (3 * ?k + c)) (int (3 * ?k + c)) (?f (3 * ?k + c)) = Some (?t (Suc (3 * ?k + c)))" if "c < 3" for c
    by (rule filled_step) (use k that in simp)
  have s: "Suc (3 * ?k) = 3 * ?k + 1" "Suc (3 * ?k + 1) = 3 * ?k + 2" "Suc (3 * ?k + 2) = 3 * (i * n + Suc j)" by simp_all
  have adv: "ptr_add ?src 4 = ptr_add bitmap (int (4 * (i * n + Suc j)))" by (simp add: ptr_add_def)
  have r': "rdp ?src 0 = Some (at bitmap (int (4 * ?k + 0)))" "rdp ?src 1 = Some (at bitmap (int (4 * ?k + 1)))"
    "rdp ?src 2 = Some (at bitmap (int (4 * ?k + 2)))"
    using r [of 0] r [of 1] r [of 2] by simp_all
  have f': "norm (at bitmap (int (4 * ?k + 0))) (g_image_mean st) (g_image_std st) = ?f (3 * ?k)"
    "norm (at bitmap (int (4 * ?k + 1))) (g_image_mean st) (g_image_std st) = ?f (3 * ?k + 1)"
    "norm (at bitmap (int (4 * ?k + 2))) (g_image_mean st) (g_image_std st) = ?f (3 * ?k + 2)"
    using f [of 0] f [of 1] f [of 2] by (simp_all only: add_0_right)
  have w': "wr (?t (3 * ?k)) (int (3 * ?k + 0)) (?f (3 * ?k)) = Some (?t (3 * ?k + 1))"
    "wr (?t (3 * ?k + 1)) (int (3 * ?k + 1)) (?f (3 * ?k + 1)) = Some (?t (3 * ?k + 2))"
    "wr (?t (3 * ?k + 2)) (int (3 * ?k + 2)) (?f (3 * ?k + 2)) = Some (?t (3 * (i * n + Suc j)))"
    using w [of 0] w [of 1] w [of 2] by (simp_all only: s add_0_right)
  show ?thesis
    unfolding copy_pixel_def Let_def prod.case n ti
    by (simp only: r' f' w' adv Option.bind.simps)
qed

lemma copy_pixels_eq:
  assumes n: "g_tensorflow_input_size st = int n" and bm: "readable bitmap (int (4 * (n * n)))"
    and len: "length tensor = 3 * (n * n)"
  shows "copy_pixels norm st bitmap tensor = Some (map (pixel_channel norm st bitmap) [0..<3 * (n * n)])"
proof -
  let ?t = "\<lambda>m. filled (pixel_channel norm st bitmap) m tensor"
  let ?row = "\<lambda>i j s. s = (ptr_add bitmap (int (4 * (i * n + j))), ?t (3 * (i * n + j)))"
  have row: "\<exists>s'. loopM (copy_pixel norm st i) [0..<n] (ptr_add bitmap (int (4 * (i * n))), ?t (3 * (i * n))) = Some s'
      \<and> ?row i n s'" if i: "i < n" for i
  proof (rule loopM_upt [where Inv = "?row i"])
    show "\<exists>s'. copy_pixel norm st i j s = Some s' \<and> ?row i (Suc j) s'" if "j < n" "?row i j s" for j s
      unfolding that(2) by (rule exI, rule conjI, rule copy_pixel_step [OF n bm len i that(1)], rule refl)
  qed simp
  have "\<exists>s'. copy_pixels norm st bitmap tensor = Some s' \<and> s' = ?t (3 * (n * n))"
    unfolding copy_pixels_def Let_def n nat_int
  proof (rule loopM_upt [where Inv = "\<lambda>i t. t = ?t (3 * (i * n))"])
    fix i t assume "i < n" "t = ?t (3 * (i * n))"
    then show "\<exists>s'. map_option snd (loopM (copy_pixel norm st i) [0..<n] (ptr_add bitmap (4 * (int i * int n)), t)) = Some s'
        \<and> s' = ?t (3 * (Suc i * n))"
      using row [of i] by (auto simp: algebra_simps)
  qed simp
  then show ?thesis using len by (simp add: filled_def)
qed


subsection \<open>One classification\<close>

fun decimal :: "nat \<Rightarrow> string" where
  "decimal n = (if n < 10 then [char_of (48 + n)] else decimal (n div 10) @ [char_of (48 + n mod 10)])"

declare decimal.simps [simp del]

datatype 'f outcome = Quit | Fatal | Undefined | Answer string

text \<open>\<open>run\<close> is \<open>Session::Run\<close>: the named input tensor and the output names give the status (true: OK) and
  the flat output tensors. \<open>zero\<close> is what a fresh tensor holds, \<open>clock\<close> the two clock readings,
  \<open>show_float\<close> the stream's printing with precision 3, \<open>threshold\<close> the constant 0.1. A quota of 0
  means unlimited runs. The result line of one class is its index, confidence and label.\<close>

definition result_line :: "('f \<Rightarrow> string) \<Rightarrow> string list \<Rightarrow> 'f \<times> nat \<Rightarrow> string" where
  "result_line show_float labels = (\<lambda>(confidence, index).
     decimal index @ '' '' @ show_float confidence @ '' '' @
     (if index < length labels then labels ! index else ''Prediction: '' @ decimal index) @ [CHR 0x0A])"

definition ClassifyImage ::
    "int \<Rightarrow> (u8 \<Rightarrow> int \<Rightarrow> 'f \<Rightarrow> 'f) \<Rightarrow> 'f \<Rightarrow> (string \<times> 'f list \<Rightarrow> string list \<Rightarrow> bool \<times> 'f list list) \<Rightarrow> int \<times> int \<Rightarrow>
     ('f \<Rightarrow> string) \<Rightarrow> 'f::linorder \<Rightarrow> u8 ptr \<Rightarrow> 'f classifier \<Rightarrow> 'f outcome \<times> 'f classifier" where
  "ClassifyImage max_num_runs norm zero run clock show_float threshold bitmap_src st =
     (if max_num_runs > 0 \<and> g_num_runs st \<ge> max_num_runs then (Quit, st)
      else
        let st = st\<lparr>g_num_runs := g_num_runs st + 1\<rparr>;
            n = g_tensorflow_input_size st;
            input_tensor = replicate (nat (1 * n * n * 3)) zero
        in if n < 0 then (Fatal, st)
           else case copy_pixels norm st bitmap_src input_tensor of
             None \<Rightarrow> (Undefined, st)
           | Some input_tensor \<Rightarrow>
               (let (ok, output_tensors) = run (g_input_name st, input_tensor) [g_output_name st];
                    (start_time, end_time) = clock;
                    elapsed_time_inf = end_time - start_time;
                    st = st\<lparr>g_timing_total_us := g_timing_total_us st + elapsed_time_inf\<rparr>
                in if \<not> ok then (Fatal, st)
                   else if output_tensors = [] then (Undefined, st)
                   else let top_results = GetTopN (output_tensors ! 0) 5 threshold []
                     in (Answer (concat (map (result_line show_float (g_label_strings st)) top_results)), st)))"

text \<open>The pixels of \<open>classifyImageRgb\<close> are Java's \<open>int\<close>s, seen as the bytes of a little-endian host.\<close>

definition int_bytes :: "u32 list \<Rightarrow> u8 list" where
  "int_bytes px = concat (map (host_bytes 4) px)"

definition classifyImageRgb ::
    "int \<Rightarrow> (u8 \<Rightarrow> int \<Rightarrow> 'f \<Rightarrow> 'f) \<Rightarrow> 'f \<Rightarrow> (string \<times> 'f list \<Rightarrow> string list \<Rightarrow> bool \<times> 'f list list) \<Rightarrow> int \<times> int \<Rightarrow>
     ('f \<Rightarrow> string) \<Rightarrow> 'f::linorder \<Rightarrow> u32 list \<Rightarrow> 'f classifier \<Rightarrow> 'f outcome \<times> 'f classifier" where
  "classifyImageRgb max_num_runs norm zero run clock show_float threshold img st =
     ClassifyImage max_num_runs norm zero run clock show_float threshold (int_bytes img, 0) st"

text \<open>\<open>classifyImageBmp\<close>: the bitmap calls must succeed and the format must be RGBA_8888; the pixels are
  the locked buffer.\<close>

definition classifyImageBmp ::
    "int \<Rightarrow> (u8 \<Rightarrow> int \<Rightarrow> 'f \<Rightarrow> 'f) \<Rightarrow> 'f \<Rightarrow> (string \<times> 'f list \<Rightarrow> string list \<Rightarrow> bool \<times> 'f list list) \<Rightarrow> int \<times> int \<Rightarrow>
     ('f \<Rightarrow> string) \<Rightarrow> 'f::linorder \<Rightarrow> bool \<Rightarrow> bool \<Rightarrow> bool \<Rightarrow> bool \<Rightarrow> u8 list \<Rightarrow> 'f classifier \<Rightarrow> 'f outcome \<times> 'f classifier" where
  "classifyImageBmp max_num_runs norm zero run clock show_float threshold info_ok lock_ok format_rgba unlock_ok pixels st =
     (if \<not> info_ok \<or> \<not> lock_ok \<or> \<not> format_rgba then (Fatal, st)
      else case ClassifyImage max_num_runs norm zero run clock show_float threshold (pixels, 0) st of
             (Answer result, st) \<Rightarrow> if unlock_ok then (Answer result, st) else (Fatal, st)
           | (r, st) \<Rightarrow> (r, st))"


lemma ClassifyImage_runs:
  assumes "g_tensorflow_input_size st = int n" "readable bitmap (int (4 * (n * n)))"
    and "max_num_runs \<le> 0 \<or> g_num_runs st < max_num_runs"
    and "run (g_input_name st, map (pixel_channel norm st bitmap) [0..<3 * (n * n)]) [g_output_name st] = (True, logits # outs)"
  shows "ClassifyImage max_num_runs norm zero run (t0, t1) show_float threshold bitmap st =
    (Answer (concat (map (result_line show_float (g_label_strings st)) (GetTopN logits 5 threshold []))),
     st\<lparr>g_num_runs := g_num_runs st + 1, g_timing_total_us := g_timing_total_us st + (t1 - t0)\<rparr>)"
proof -
  let ?st = "st\<lparr>g_num_runs := g_num_runs st + 1\<rparr>"
  have "nat (1 * int n * int n * 3) = 3 * (n * n)" by (simp add: nat_mult_distrib)
  then have "copy_pixels norm ?st bitmap (replicate (nat (1 * int n * int n * 3)) zero)
      = Some (map (pixel_channel norm ?st bitmap) [0..<3 * (n * n)])"
    by (intro copy_pixels_eq) (use assms in simp_all)
  moreover have "pixel_channel norm ?st bitmap = pixel_channel norm st bitmap"
    by (simp add: fun_eq_iff pixel_channel_def)
  ultimately show ?thesis using assms by (auto simp: ClassifyImage_def Let_def)
qed

lemma int_bytes_nth:
  assumes "k < length px" "c < 4"
  shows "int_bytes px ! (4 * k + c) = ucast (drop_bit (8 * c) (px ! k))"
  using assms
proof (induction px arbitrary: k)
  case (Cons p px)
  have l: "length (host_bytes 4 p) = 4" by (simp add: host_bytes_def)
  show ?case
  proof (cases k)
    case 0
    then show ?thesis using Cons.prems l by (simp add: int_bytes_def nth_append) (simp add: host_bytes_def)
  next
    case (Suc j)
    then have "int_bytes (p # px) ! (4 * k + c) = int_bytes px ! (4 * j + c)"
      using l by (simp add: int_bytes_def nth_append)
    then show ?thesis using Cons Suc by simp
  qed
qed simp

lemma pixel_channel_int_bytes:
  "map (pixel_channel norm st (int_bytes img, 0)) [0..<3 * length img] = concat (map (\<lambda>p. map (\<lambda>c. norm c (g_image_mean st) (g_image_std st))
     [ucast p, ucast (drop_bit 8 p), ucast (drop_bit 16 p)]) img)"
proof -
  let ?f = "\<lambda>p. map (\<lambda>c. norm c (g_image_mean st) (g_image_std st)) [ucast p, ucast (drop_bit 8 p), ucast (drop_bit 16 p)]"
  have pc: "pixel_channel norm st (int_bytes img, 0) (3 * k + c)
      = norm (ucast (drop_bit (8 * c) (img ! k))) (g_image_mean st) (g_image_std st)" if "k < length img" "c < 3" for k c
  proof -
    have "(3 * k + c) div 3 = k" "(3 * k + c) mod 3 = c" using that by simp_all
    then show ?thesis using int_bytes_nth [OF that(1), of c] that(2)
      unfolding pixel_channel_def at_def fst_conv snd_conv add_0 nat_int by simp
  qed
  have "map (pixel_channel norm st (int_bytes img, 0)) [0..<3 * n] = concat (map ?f (take n img))" if "n \<le> length img" for n
    using that
  proof (induction n)
    case (Suc n)
    have "3 * Suc n = Suc (Suc (Suc (3 * n)))" by simp
    then have three: "[0..<3 * Suc n] = [0..<3 * n] @ [3 * n + 0, 3 * n + 1, 3 * n + 2]" by (simp only:) simp
    have "map (pixel_channel norm st (int_bytes img, 0)) [3 * n + 0, 3 * n + 1, 3 * n + 2] = ?f (img ! n)"
      using Suc.prems by (simp only: list.map pc) simp
    then show ?case using Suc unfolding three by (simp only: map_append) (simp add: take_Suc_conv_app_nth)
  qed simp
  from this [of "length img"] show ?thesis by simp
qed

text \<open>A sequence of classifications.\<close>

fun classify_all :: "(u8 ptr \<Rightarrow> 'f classifier \<Rightarrow> 'f outcome \<times> 'f classifier) \<Rightarrow> u8 ptr list \<Rightarrow> 'f classifier \<Rightarrow> 'f outcome list \<times> 'f classifier" where
  "classify_all f [] st = ([], st)"
| "classify_all f (b # bs) st =
     (case f b st of (r, st) \<Rightarrow>
       (case r of
          Answer a \<Rightarrow> (case classify_all f bs st of (rs, st) \<Rightarrow> (Answer a # rs, st))
        | _ \<Rightarrow> ([r], st)))"

lemma ClassifyImage_counts:
  assumes "ClassifyImage m norm zero run clock show_float threshold b st = (Answer a, st')"
  shows "g_num_runs st' = g_num_runs st + 1" "\<not> (m > 0 \<and> g_num_runs st \<ge> m)"
  using assms by (auto simp: ClassifyImage_def Let_def split: if_splits option.splits prod.splits)

lemma classify_all_quota:
  assumes "classify_all (ClassifyImage m norm zero run clock show_float threshold) bs st = (rs, st')" "0 < m"
    "0 \<le> g_num_runs st" "g_num_runs st \<le> m"
  shows "int (length (filter (\<lambda>r. case r of Answer a \<Rightarrow> True | _ \<Rightarrow> False) rs)) \<le> m - g_num_runs st"
  using assms
proof (induction bs arbitrary: st rs st')
  case (Cons b bs)
  obtain r st1 where f: "ClassifyImage m norm zero run clock show_float threshold b st = (r, st1)" by fastforce
  show ?case
  proof (cases r)
    case (Answer a)
    obtain rs1 st2 where g: "classify_all (ClassifyImage m norm zero run clock show_float threshold) bs st1 = (rs1, st2)"
      by fastforce
    note c = ClassifyImage_counts [OF f [unfolded Answer]]
    have "int (length (filter (\<lambda>r. case r of Answer a \<Rightarrow> True | _ \<Rightarrow> False) rs1)) \<le> m - g_num_runs st1"
      using Cons.IH [OF g] Cons.prems c by simp
    moreover have "rs = Answer a # rs1" using Cons.prems(1) f g Answer by simp
    ultimately show ?thesis using c by simp
  qed (use Cons.prems f in auto)
qed simp

subsection \<open>Properties\<close>

text \<open>\<open>GetTopN\<close> keeping a bounded priority queue gives the same as sorting everything: the results not below
  the threshold, best confidence first (ties: larger index first), cut after \<open>num_results\<close> entries;
  a negative count, compared as a \<open>size_t\<close>, cuts nothing below \<open>2 ^ 64 - |n|\<close>.\<close>

theorem GetTopN_sorted:
  "GetTopN prediction num_results threshold [] =
    take (size_t num_results)
      (rev (sort (filter (\<lambda>(v, i). threshold \<le> v) (map (\<lambda>i. (prediction ! i, i)) [0..<length prediction]))))"
  by (simp add: GetTopN_eq)

text \<open>C24: A classification within the quota copies exactly the pixels of the square bitmap, each channel
  normalised, into the input tensor, runs the session once on the configured names, answers with one line
  per result of \<open>GetTopN\<close> on the first output, and only moves the two benchmark counters.\<close>

theorem ClassifyImage_correct:
  assumes "g_tensorflow_input_size st = int n" "readable bitmap (int (4 * (n * n)))"
    and "max_num_runs \<le> 0 \<or> g_num_runs st < max_num_runs"
    and "run (g_input_name st, map (pixel_channel norm st bitmap) [0..<3 * (n * n)]) [g_output_name st] = (True, logits # outs)"
  shows "ClassifyImage max_num_runs norm zero run (t0, t1) show_float threshold bitmap st =
    (Answer (concat (map (result_line show_float (g_label_strings st)) (GetTopN logits 5 threshold []))),
     st\<lparr>g_num_runs := g_num_runs st + 1, g_timing_total_us := g_timing_total_us st + (t1 - t0)\<rparr>)"
  by (rule ClassifyImage_runs [of st n bitmap max_num_runs run norm logits outs, OF assms])

theorem ClassifyImage_correct_witness:
  "snd (ClassifyImage 0 (\<lambda>c mean std. (uint c - mean) div std) 0 (\<lambda>inp outs. (True, [snd inp])) (10, 15) (\<lambda>f. ''x'') 1
     ([130, 131, 132, 255], 0)
     \<lparr>session = None, g_label_strings = [''a''], g_compute_graph_initialized = True, g_tensorflow_input_size = int 1,
      g_image_mean = 128, g_image_std = 1, g_input_name = ''in'', g_output_name = ''out'', g_num_runs = 3, g_timing_total_us = 7\<rparr>)
   = \<lparr>session = None, g_label_strings = [''a''], g_compute_graph_initialized = True, g_tensorflow_input_size = 1,
      g_image_mean = 128, g_image_std = 1, g_input_name = ''in'', g_output_name = ''out'', g_num_runs = 4, g_timing_total_us = 12\<rparr>"
proof -
  let ?st = "\<lparr>session = None, g_label_strings = [''a''], g_compute_graph_initialized = True, g_tensorflow_input_size = 1,
      g_image_mean = 128, g_image_std = 1, g_input_name = ''in'', g_output_name = ''out'', g_num_runs = 3, g_timing_total_us = 7\<rparr>"
  show ?thesis
    using ClassifyImage_correct [of ?st 1 "([130, 131, 132, 255], 0)" 0 "\<lambda>inp outs. (True, [snd inp])"
        "\<lambda>c mean std. (uint c - mean) div std" "map (pixel_channel (\<lambda>c mean std. (uint c - mean) div std) ?st ([130, 131, 132, 255], 0)) [0..<3]"
        "[]" 0 10 15 "\<lambda>f. ''x''" 1]
    by (simp add: readable_def)
qed

text \<open>With a positive quota the app answers at most as many classifications as the quota has left,
  whatever the frames and the session do: the counter is checked before and advanced by every run.\<close>

theorem benchmark_quota:
  assumes "classify_all (ClassifyImage m norm zero run clock show_float threshold) bs st = (rs, st')" "0 < m"
    "0 \<le> g_num_runs st" "g_num_runs st \<le> m"
  shows "int (length (filter (\<lambda>r. case r of Answer a \<Rightarrow> True | _ \<Rightarrow> False) rs)) \<le> m - g_num_runs st"
  by (rule classify_all_quota [OF assms])

theorem benchmark_quota_witness:
  "int (length (filter (\<lambda>r. case r of Answer a \<Rightarrow> True | _ \<Rightarrow> False)
     (fst (classify_all (ClassifyImage 1 (\<lambda>c mean std. 0) 0 (\<lambda>inp outs. (True, [[1 :: int]])) (0, 1) (\<lambda>f. ''x'') 0)
        [([], 0), ([], 0)]
        \<lparr>session = None, g_label_strings = [], g_compute_graph_initialized = True, g_tensorflow_input_size = 0,
          g_image_mean = 0, g_image_std = 1, g_input_name = [], g_output_name = [], g_num_runs = 0, g_timing_total_us = 0\<rparr>)))) \<le> 1"
  using benchmark_quota [where m = 1 and norm = "\<lambda>c mean std. 0" and zero = 0 and run = "\<lambda>inp outs. (True, [[1 :: int]])"
      and clock = "(0, 1)" and show_float = "\<lambda>f. ''x''" and threshold = 0 and bs = "[([], 0), ([], 0)]"
      and st = "\<lparr>session = None, g_label_strings = [], g_compute_graph_initialized = True, g_tensorflow_input_size = 0,
          g_image_mean = 0, g_image_std = 1, g_input_name = [], g_output_name = [], g_num_runs = 0, g_timing_total_us = 0\<rparr>",
      OF prod.collapse [symmetric]] by simp

text \<open>C25: \<open>classifyImageRgb\<close> reads Java's ARGB ints through the RGBA struct: on a little-endian host a classification within the quota runs
  the session on a tensor in which every pixel has its channels in the order blue, green, red, each normalised, instead
  of red, green, blue, and answers with the results for that picture.\<close>

theorem classifyImageRgb_swaps:
  assumes "g_tensorflow_input_size st = int n" "length img = n * n"
    and "max_num_runs \<le> 0 \<or> g_num_runs st < max_num_runs"
    and "run (g_input_name st, concat (map (\<lambda>p. map (\<lambda>c. norm c (g_image_mean st) (g_image_std st))
        [ucast p, ucast (drop_bit 8 p), ucast (drop_bit 16 p)]) img)) [g_output_name st] = (True, logits # outs)"
  shows "classifyImageRgb max_num_runs norm zero run (t0, t1) show_float threshold img st =
    (Answer (concat (map (result_line show_float (g_label_strings st)) (GetTopN logits 5 threshold []))),
     st\<lparr>g_num_runs := g_num_runs st + 1, g_timing_total_us := g_timing_total_us st + (t1 - t0)\<rparr>)"
proof -
  let ?bm = "(int_bytes img, 0) :: u8 ptr"
  have "length (int_bytes img) = 4 * length img"
    by (induction img) (simp_all add: int_bytes_def host_bytes_def)
  then have "readable ?bm (int (4 * (n * n)))" using assms(2) by (simp add: readable_def)
  moreover have "map (pixel_channel norm st ?bm) [0..<3 * (n * n)] = concat (map (\<lambda>p. map (\<lambda>c. norm c (g_image_mean st) (g_image_std st))
      [ucast p, ucast (drop_bit 8 p), ucast (drop_bit 16 p)]) img)"
    using pixel_channel_int_bytes [of norm st img] assms(2) by simp
  ultimately show ?thesis
    unfolding classifyImageRgb_def using ClassifyImage_runs [OF assms(1) _ assms(3), of ?bm run norm logits outs] assms(4) by simp
qed

definition sample_classifier :: "int classifier" where
  "sample_classifier = \<lparr>session = None, g_label_strings = [''a''], g_compute_graph_initialized = True, g_tensorflow_input_size = 1,
     g_image_mean = 0, g_image_std = 1, g_input_name = ''in'', g_output_name = ''out'', g_num_runs = 0, g_timing_total_us = 0\<rparr>"

theorem classifyImageRgb_swaps_witness:
  "classifyImageRgb 0 (\<lambda>c mean std. uint c) 0 (\<lambda>inp outs. (True, [snd inp])) (0, 1) (\<lambda>f. ''x'') 1 [0xffaabbcc] sample_classifier =
    (Answer (concat (map (result_line (\<lambda>f. ''x'') [''a'']) (GetTopN [0xcc, 0xbb, 0xaa :: int] 5 1 []))),
     sample_classifier\<lparr>g_num_runs := 1, g_timing_total_us := 1\<rparr>)"
  using classifyImageRgb_swaps [of sample_classifier 1 "[0xffaabbcc]" 0 "\<lambda>inp outs. (True, [snd inp])" "\<lambda>c mean std. uint c"
      "[0xcc, 0xbb, 0xaa]" "[]" 0 0 1 "\<lambda>f. ''x''" 1]
  by (simp add: sample_classifier_def drop_bit_eq_div)

end
