(* ===== verification/CancelManager.thy ===== *)
theory CancelManager
  imports C_Prelude
begin

text \<open>
  The cancellation manager of a step (\<open>core/framework/cancellation.cc\<close>) as a state machine: one transition per
  critical section of an operation, one per callback that \<open>StartCancel\<close> calls outside the lock, and one for its
  final notification; \<open>canceller\<close> is where the thread that runs \<open>StartCancel\<close> stands, with its local map.
  Transitions of different threads interleave in any order. The history records what was registered, deregistered
  and invoked, and lets the promises of the header file be stated.
\<close>

subsection \<open>State and critical sections\<close>

type_synonym token = int

datatype 'cb canceller = NotStarted | Calling "token \<rightharpoonup> 'cb" | Notifying | Finished

record 'cb manager =
  is_cancelling :: bool
  is_cancelled :: bool
  notified :: bool
  next_cancellation_token :: int
  callbacks :: "token \<rightharpoonup> 'cb"
  canceller :: "'cb canceller"

definition CancellationManager :: "'cb manager" where
  "CancellationManager = \<lparr>is_cancelling = False, is_cancelled = False, notified = False, next_cancellation_token = 0,
     callbacks = Map.empty, canceller = NotStarted\<rparr>"

text \<open>The first critical section of \<open>StartCancel\<close>: \<open>None\<close> when it returns at once.\<close>

definition StartCancel_begin :: "'cb manager \<Rightarrow> 'cb manager option" where
  "StartCancel_begin m =
    (if is_cancelled m \<or> is_cancelling m then None
     else Some (m\<lparr>is_cancelling := True, callbacks := Map.empty, canceller := Calling (callbacks m)\<rparr>))"

text \<open>One iteration of the loop over the local map, whose order is not specified.\<close>

definition StartCancel_call :: "token \<Rightarrow> 'cb manager \<Rightarrow> ('cb \<times> 'cb manager) option" where
  "StartCancel_call t m =
    (case canceller m of
       Calling to_run \<Rightarrow> (case to_run t of None \<Rightarrow> None | Some cb \<Rightarrow> Some (cb, m\<lparr>canceller := Calling (to_run(t := None))\<rparr>))
     | _ \<Rightarrow> None)"

definition StartCancel_finish :: "'cb manager \<Rightarrow> 'cb manager option" where
  "StartCancel_finish m =
    (case canceller m of
       Calling to_run \<Rightarrow> if to_run = Map.empty then Some (m\<lparr>is_cancelling := False, is_cancelled := True, canceller := Notifying\<rparr>) else None
     | _ \<Rightarrow> None)"

definition StartCancel_notify :: "'cb manager \<Rightarrow> 'cb manager option" where
  "StartCancel_notify m =
    (case canceller m of Notifying \<Rightarrow> Some (m\<lparr>notified := True, canceller := Finished\<rparr>) | _ \<Rightarrow> None)"

definition get_cancellation_token :: "'cb manager \<Rightarrow> int \<times> 'cb manager" where
  "get_cancellation_token m = (next_cancellation_token m, m\<lparr>next_cancellation_token := next_cancellation_token m + 1\<rparr>)"

text \<open>A failed \<open>CHECK\<close> is \<open>None\<close>.\<close>

definition RegisterCallback :: "token \<Rightarrow> 'cb \<Rightarrow> 'cb manager \<Rightarrow> (bool \<times> 'cb manager) option" where
  "RegisterCallback t cb m =
    (if \<not> t < next_cancellation_token m then None
     else let should_register = \<not> is_cancelled m \<and> \<not> is_cancelling m
          in Some (should_register, if should_register then m\<lparr>callbacks := (callbacks m)(t \<mapsto> cb)\<rparr> else m))"

text \<open>\<open>Some b\<close> is a return of \<open>b\<close>; \<open>None\<close> is the wait for the notification, after which the result is false.\<close>

definition DeregisterCallback :: "token \<Rightarrow> 'cb manager \<Rightarrow> bool option \<times> 'cb manager" where
  "DeregisterCallback t m =
    (if is_cancelled m then (Some False, m)
     else if is_cancelling m then (None, m)
     else (Some True, m\<lparr>callbacks := (callbacks m)(t := None)\<rparr>))"

definition Deregister_wakeup :: "'cb manager \<Rightarrow> bool option" where
  "Deregister_wakeup m = (if notified m then Some False else None)"

subsection \<open>Executions\<close>

datatype 'cb event =
    Started
  | Registered token 'cb bool
  | Deregistered token bool
  | Invoked token 'cb

text \<open>Reachable states with their histories, the latest event first, and the tokens whose \<open>DeregisterCallback\<close> waits.\<close>

inductive reach :: "'cb manager \<Rightarrow> token list \<Rightarrow> 'cb event list \<Rightarrow> bool" where
  reach_init: "reach CancellationManager [] []"
| reach_token: "reach m ws h \<Longrightarrow> reach (snd (get_cancellation_token m)) ws h"
| reach_register: "reach m ws h \<Longrightarrow> RegisterCallback t cb m = Some (b, m') \<Longrightarrow> reach m' ws (Registered t cb b # h)"
| reach_deregister: "reach m ws h \<Longrightarrow> DeregisterCallback t m = (Some b, m') \<Longrightarrow> reach m' ws (Deregistered t b # h)"
| reach_wait: "reach m ws h \<Longrightarrow> DeregisterCallback t m = (None, m') \<Longrightarrow> reach m' (t # ws) h"
| reach_wakeup: "reach m (us @ t # ws) h \<Longrightarrow> Deregister_wakeup m = Some b \<Longrightarrow> reach m (us @ ws) (Deregistered t b # h)"
| reach_begin: "reach m ws h \<Longrightarrow> StartCancel_begin m = Some m' \<Longrightarrow> reach m' ws (Started # h)"
| reach_call: "reach m ws h \<Longrightarrow> StartCancel_call t m = Some (cb, m') \<Longrightarrow> reach m' ws (Invoked t cb # h)"
| reach_finish: "reach m ws h \<Longrightarrow> StartCancel_finish m = Some m' \<Longrightarrow> reach m' ws h"
| reach_notify: "reach m ws h \<Longrightarrow> StartCancel_notify m = Some m' \<Longrightarrow> reach m' ws h"

text \<open>The callback a token stands for after a history: the last one registered and not deregistered since.\<close>

fun live :: "'cb event list \<Rightarrow> token \<rightharpoonup> 'cb" where
  "live [] = Map.empty"
| "live (Registered t cb b # h) = (if b then (live h)(t \<mapsto> cb) else live h)"
| "live (Deregistered t b # h) = (if b then (live h)(t := None) else live h)"
| "live (e # h) = live h"

fun invocations :: "'cb event list \<Rightarrow> (token \<times> 'cb) list" where
  "invocations [] = []"
| "invocations (Invoked t cb # h) = (t, cb) # invocations h"
| "invocations (e # h) = invocations h"

subsection \<open>The invariant\<close>

definition manager_inv :: "'cb manager \<Rightarrow> token list \<Rightarrow> 'cb event list \<Rightarrow> bool" where
  "manager_inv m ws h \<longleftrightarrow>
    distinct (map fst (invocations h)) \<and> finite (dom (live h)) \<and>
    (case canceller m of
       NotStarted \<Rightarrow> \<not> is_cancelling m \<and> \<not> is_cancelled m \<and> \<not> notified m \<and> callbacks m = live h \<and>
         invocations h = [] \<and> ws = [] \<and> (\<forall>t. Deregistered t False \<notin> set h)
     | Calling to_run \<Rightarrow> is_cancelling m \<and> \<not> is_cancelled m \<and> \<not> notified m \<and>
         live h = map_of (invocations h) ++ to_run \<and> dom to_run \<inter> fst ` set (invocations h) = {} \<and>
         (\<forall>t. Deregistered t False \<notin> set h)
     | Notifying \<Rightarrow> \<not> is_cancelling m \<and> is_cancelled m \<and> \<not> notified m \<and> live h = map_of (invocations h)
     | Finished \<Rightarrow> \<not> is_cancelling m \<and> is_cancelled m \<and> notified m \<and> live h = map_of (invocations h))"

lemmas manager_defs = RegisterCallback_def DeregisterCallback_def Deregister_wakeup_def StartCancel_begin_def
  StartCancel_call_def StartCancel_finish_def StartCancel_notify_def get_cancellation_token_def

lemma reach_inv: "reach m ws h \<Longrightarrow> manager_inv m ws h"
proof (induction rule: reach.induct)
  case reach_init
  then show ?case by (simp add: manager_inv_def CancellationManager_def)
next
  case (reach_token m ws h)
  then show ?case by (auto simp: manager_inv_def manager_defs split: canceller.splits)
next
  case (reach_register m ws h t cb b m')
  then show ?case
    by (auto simp: manager_inv_def manager_defs Let_def split: canceller.splits if_splits)
next
  case (reach_deregister m ws h t b m')
  then show ?case
    by (auto simp: manager_inv_def manager_defs dom_def split: canceller.splits if_splits elim: rev_finite_subset)
next
  case (reach_wait m ws h t m')
  then show ?case by (auto simp: manager_inv_def manager_defs split: canceller.splits if_splits)
next
  case (reach_wakeup m us t ws h b)
  then show ?case by (auto simp: manager_inv_def manager_defs split: canceller.splits if_splits)
next
  case (reach_begin m ws h m')
  then show ?case by (auto simp: manager_inv_def manager_defs split: canceller.splits if_splits)
next
  case (reach_call m ws h t cb m')
  then obtain r where r: "canceller m = Calling r" "r t = Some cb" "m' = m\<lparr>canceller := Calling (r(t := None))\<rparr>"
    by (auto simp: manager_defs split: canceller.splits option.splits)
  have "t \<notin> fst ` set (invocations h)" using reach_call.IH r by (auto simp: manager_inv_def)
  moreover from this have "map_of (invocations h) t = None" by (simp add: map_of_eq_None_iff)
  ultimately show ?case
    using reach_call.IH r by (auto simp: manager_inv_def map_add_def fun_eq_iff split: option.splits)
next
  case (reach_finish m ws h m')
  then show ?case by (auto simp: manager_inv_def manager_defs split: canceller.splits if_splits)
next
  case (reach_notify m ws h m')
  then show ?case by (auto simp: manager_inv_def manager_defs split: canceller.splits)
qed


lemma map_of_invocations: "distinct (map fst (invocations h)) \<Longrightarrow> (t, cb) \<in> set (invocations h) \<Longrightarrow> map_of (invocations h) t = Some cb"
  by (rule map_of_is_SomeI)

lemma invoked_live:
  assumes "manager_inv m ws h" "(t, cb) \<in> set (invocations h)"
  shows "live h t = Some cb"
proof -
  have m: "map_of (invocations h) t = Some cb" using assms map_of_invocations by (auto simp: manager_inv_def)
  have mem: "t \<in> fst ` set (invocations h)" using assms(2) by force
  show ?thesis
  proof (cases "canceller m")
    case (Calling r)
    then have "live h = map_of (invocations h) ++ r" "r t = None" using assms(1) mem by (auto simp: manager_inv_def)
    then show ?thesis using m by (simp add: map_add_def)
  qed (use assms m in \<open>auto simp: manager_inv_def\<close>)
qed

lemma deregistered_false:
  assumes "manager_inv m ws h" "Deregistered t False \<in> set h" "live h t = Some cb"
  shows "(t, cb) \<in> set (invocations h)"
  using assms by (auto simp: manager_inv_def split: canceller.splits dest: map_of_SomeD)

subsection \<open>Progress of the cancelling thread\<close>

definition steps_left :: "'cb manager \<Rightarrow> nat" where
  "steps_left m = (case canceller m of NotStarted \<Rightarrow> 0 | Calling to_run \<Rightarrow> card (dom to_run) + 2 | Notifying \<Rightarrow> 1 | Finished \<Rightarrow> 0)"

definition canceller_steps :: "'cb manager \<Rightarrow> 'cb manager \<Rightarrow> bool" where
  "canceller_steps m m' \<longleftrightarrow>
    (\<exists>t cb. StartCancel_call t m = Some (cb, m')) \<or> StartCancel_finish m = Some m' \<or> StartCancel_notify m = Some m'"

lemma finite_to_run: "manager_inv m ws h \<Longrightarrow> canceller m = Calling to_run \<Longrightarrow> finite (dom to_run)"
  by (auto simp: manager_inv_def)

lemma canceller_can_step:
  assumes "manager_inv m ws h" "steps_left m > 0"
  shows "\<exists>m'. canceller_steps m m'"
proof (cases "canceller m")
  case (Calling to_run)
  show ?thesis
  proof (cases "to_run = Map.empty")
    case True
    then show ?thesis using Calling by (auto simp: canceller_steps_def manager_defs)
  next
    case False
    then obtain t cb where "to_run t = Some cb" by fastforce
    then have "StartCancel_call t m = Some (cb, m\<lparr>canceller := Calling (to_run(t := None))\<rparr>)"
      using Calling by (simp add: StartCancel_call_def)
    then show ?thesis by (auto simp: canceller_steps_def)
  qed
qed (use assms in \<open>auto simp: steps_left_def canceller_steps_def manager_defs\<close>)

lemma canceller_step_decreases:
  assumes "manager_inv m ws h" "canceller_steps m m'"
  shows "steps_left m' < steps_left m"
proof -
  have "card (dom (r(t := None))) < card (dom r)" if "finite (dom r)" "r t = Some cb" for r :: "token \<rightharpoonup> 'a" and t cb
  proof -
    have "dom (r(t := None)) = dom r - {t}" by auto
    then show ?thesis using that by (metis card_Diff1_less domI)
  qed
  then show ?thesis
    using assms finite_to_run [OF assms(1)]
    by (auto simp: canceller_steps_def steps_left_def manager_defs split: canceller.splits option.splits if_splits)
qed

lemma others_keep_progress:
  "steps_left (snd (get_cancellation_token m)) = steps_left m"
  "RegisterCallback t cb m = Some (b, m') \<Longrightarrow> steps_left m' = steps_left m"
  "steps_left (snd (DeregisterCallback t m)) = steps_left m"
  "canceller m \<noteq> NotStarted \<Longrightarrow> manager_inv m ws h \<Longrightarrow> StartCancel_begin m = None"
  by (auto simp: steps_left_def manager_defs manager_inv_def Let_def split: canceller.splits if_splits)

subsection \<open>Properties\<close>

text \<open>C31: Whatever the interleaving, a callback is invoked at most once; only a callback that is registered at that time, the
  latest one of its token, is ever invoked, so none whose deregistration returned true; and when a deregistration
  returns false, the callback its token stood for has been invoked already.\<close>

theorem cancellation_promise:
  assumes "reach m ws h"
  shows "distinct (map fst (invocations h)) \<and>
    (\<forall>t cb. (t, cb) \<in> set (invocations h) \<longrightarrow> live h t = Some cb) \<and>
    (\<forall>t cb. Deregistered t False \<in> set h \<longrightarrow> live h t = Some cb \<longrightarrow> (t, cb) \<in> set (invocations h))"
proof (intro conjI allI impI)
  note inv = reach_inv [OF assms]
  show "distinct (map fst (invocations h))" using inv by (simp add: manager_inv_def)
  show "live h t = Some cb" if "(t, cb) \<in> set (invocations h)" for t cb using invoked_live [OF inv that] .
  show "(t, cb) \<in> set (invocations h)" if "Deregistered t False \<in> set h" "live h t = Some cb" for t cb
    using deregistered_false [OF inv that] .
qed

theorem cancellation_promise_witness:
  "\<exists>m. reach m [] [Deregistered 0 True, Registered 0 (1 :: nat) True] \<and> invocations [Deregistered 0 True, Registered 0 (1 :: nat) True] = []"
proof -
  let ?m1 = "snd (get_cancellation_token CancellationManager)"
  let ?m2 = "?m1\<lparr>callbacks := (callbacks ?m1)(0 \<mapsto> 1)\<rparr>"
  have "reach ?m1 [] []" by (intro reach_token reach_init)
  moreover have "RegisterCallback 0 1 ?m1 = Some (True, ?m2)" by (simp add: manager_defs CancellationManager_def)
  ultimately have "reach ?m2 [] [Registered 0 1 True]" by (rule reach_register)
  moreover have "DeregisterCallback 0 ?m2 = (Some True, ?m2\<lparr>callbacks := (callbacks ?m2)(0 := None)\<rparr>)"
    by (simp add: manager_defs CancellationManager_def)
  ultimately have "reach (?m2\<lparr>callbacks := (callbacks ?m2)(0 := None)\<rparr>) [] [Deregistered 0 True, Registered 0 1 True]"
    by (rule reach_deregister)
  from cancellation_promise [OF this] this show ?thesis by (auto simp del: One_nat_def)
qed

text \<open>C32: Cancellation always completes: once begun, the cancelling thread can take a step in every state until it has
  notified the waiters, every step of it brings it closer to that end, no operation of another thread sets it back, and at the end
  every callback that was registered when it began has been invoked and every waiting deregistration can return.\<close>

theorem cancellation_progress:
  assumes "reach m ws h" "canceller m \<noteq> NotStarted"
  shows "(steps_left m > 0 \<longrightarrow> (\<exists>m'. canceller_steps m m')) \<and>
    (\<forall>m'. canceller_steps m m' \<longrightarrow> steps_left m' < steps_left m) \<and>
    (\<forall>t cb b m'. RegisterCallback t cb m = Some (b, m') \<longrightarrow> \<not> b \<and> steps_left m' = steps_left m) \<and>
    (\<forall>t. steps_left (snd (DeregisterCallback t m)) = steps_left m) \<and> StartCancel_begin m = None \<and>
    (steps_left m = 0 \<longrightarrow> map_of (invocations h) = live h \<and> Deregister_wakeup m = Some False)"
proof -
  note inv = reach_inv [OF assms(1)]
  have "\<not> b" if "RegisterCallback t cb m = Some (b, m')" for t cb b m'
    using that inv assms(2) by (auto simp: manager_inv_def manager_defs Let_def split: canceller.splits if_splits)
  moreover have "steps_left m = 0 \<longrightarrow> map_of (invocations h) = live h \<and> Deregister_wakeup m = Some False"
    using inv assms(2) by (auto simp: manager_inv_def steps_left_def manager_defs split: canceller.splits)
  ultimately show ?thesis
    using canceller_can_step [OF inv] canceller_step_decreases [OF inv]
    by (intro conjI allI impI others_keep_progress(2,3) others_keep_progress(4) [OF assms(2) inv]) blast+
qed

theorem cancellation_progress_witness:
  "\<exists>m' :: nat manager. canceller_steps (the (StartCancel_begin CancellationManager)) m' \<and> steps_left m' < 2"
proof -
  let ?m = "the (StartCancel_begin CancellationManager) :: nat manager"
  have "StartCancel_begin CancellationManager = Some ?m" by (simp add: manager_defs CancellationManager_def)
  then have r: "reach ?m [] [Started]" by (rule reach_begin [OF reach_init])
  have c: "canceller ?m = Calling Map.empty" by (simp add: manager_defs CancellationManager_def)
  have "steps_left ?m = 2" by (simp add: steps_left_def c)
  then obtain m' where "canceller_steps ?m m'" "steps_left m' < steps_left ?m"
    using cancellation_progress [OF r] c by (metis canceller.distinct(1) zero_less_numeral)
  then show ?thesis using \<open>steps_left ?m = 2\<close> by auto
qed

end
