(* ===== verification/Rendezvous.thy ===== *)
theory Rendezvous
  imports C_Prelude "HOL-Library.Multiset"
begin

text \<open>
  The local rendezvous (\<open>core/framework/rendezvous.cc\<close>), through which the senders and the receivers of tensors meet.
  An operation is one transition per critical section; \<open>RecvAsync\<close> has a second one, the part it runs on a stored
  message after it has released the lock. Closures that are called are recorded with their arguments. A receiver's
  closure is a value of any type, a tensor is \<open>None\<close> for the empty \<open>Tensor()\<close>, a device context a number with a reference
  count, and a key its hash. Items live in the table until an abort deletes them, so an access to an item that is not
  there any more is an access to freed memory. What \<open>Send\<close> and \<open>StartAbort\<close> do with their own variables after they have released the
  lock (calling the closures they took out, dropping references, deleting the items) is part of their transition.
\<close>

subsection \<open>State\<close>

datatype status = OK | Error nat string

definition Aborted :: "string \<Rightarrow> status" where "Aborted msg = Error 10 msg"

record args =
  device_context :: "nat option"
  alloc_attrs :: nat

definition Args :: args where "Args = \<lparr>device_context = None, alloc_attrs = 0\<rparr>"

record ('w, 'v) item =
  item_id :: nat
  waiter :: "'w option"
  item_value :: "'v option"
  is_dead :: bool
  has_been_recvd :: bool
  send_dev_context :: "nat option"
  recv_dev_context :: "nat option"
  send_alloc_attrs :: nat
  recv_alloc_attrs :: nat

definition new_Item :: "nat \<Rightarrow> ('w, 'v) item" where
  "new_Item i = \<lparr>item_id = i, waiter = None, item_value = None, is_dead = False, has_been_recvd = False,
     send_dev_context = None, recv_dev_context = None, send_alloc_attrs = 0, recv_alloc_attrs = 0\<rparr>"

record ('w, 'v) rendezvous =
  tolerate_dup_recv :: bool
  table :: "(u64 \<times> ('w, 'v) item) list"
  status :: status
  next_item :: nat
  refs :: "nat \<Rightarrow> int"

definition LocalRendezvous :: "bool \<Rightarrow> ('w, 'v) rendezvous" where
  "LocalRendezvous dup = \<lparr>tolerate_dup_recv = dup, table = [], status = OK, next_item = 0, refs = (\<lambda>_. 0)\<rparr>"

text \<open>A call of a closure: \<open>done(status, send_args, recv_args, value, is_dead)\<close>.\<close>

datatype ('w, 'v) call = Call 'w status args args "'v option" bool

definition add_ref :: "int \<Rightarrow> nat option \<Rightarrow> (nat \<Rightarrow> int) \<Rightarrow> nat \<Rightarrow> int" where
  "add_ref n c r = (case c of None \<Rightarrow> r | Some c \<Rightarrow> r(c := r c + n))"

abbreviation Ref :: "nat option \<Rightarrow> (nat \<Rightarrow> int) \<Rightarrow> nat \<Rightarrow> int" where "Ref \<equiv> add_ref 1"
abbreviation Unref :: "nat option \<Rightarrow> (nat \<Rightarrow> int) \<Rightarrow> nat \<Rightarrow> int" where "Unref \<equiv> add_ref (- 1)"

definition put :: "u64 \<Rightarrow> ('w, 'v) item \<Rightarrow> (u64 \<times> ('w, 'v) item) list \<Rightarrow> (u64 \<times> ('w, 'v) item) list" where
  "put k i t = map (\<lambda>(k', i'). if k' = k then (k', i) else (k', i')) t"

subsection \<open>Operations\<close>

definition Send :: "u64 \<Rightarrow> args \<Rightarrow> 'v \<Rightarrow> bool \<Rightarrow> ('w, 'v) rendezvous \<Rightarrow> status \<times> ('w, 'v) call list \<times> ('w, 'v) rendezvous" where
  "Send key_hash send_args v dead r =
    (if status r \<noteq> OK then (status r, [], r)
     else case map_of (table r) key_hash of
       None \<Rightarrow>
         let item = (new_Item (next_item r))\<lparr>item_value := Some v, is_dead := dead, send_dev_context := device_context send_args,
               send_alloc_attrs := alloc_attrs send_args\<rparr>
         in (OK, [], r\<lparr>table := table r @ [(key_hash, item)], next_item := next_item r + 1,
              refs := Ref (device_context send_args) (refs r)\<rparr>)
     | Some item \<Rightarrow>
         (case waiter item of
            None \<Rightarrow> (Aborted ''Duplicated send'', [], r)
          | Some w \<Rightarrow>
             let recv_args = \<lparr>device_context = recv_dev_context item, alloc_attrs = recv_alloc_attrs item\<rparr>;
                 item = item\<lparr>has_been_recvd := True, waiter := None, recv_dev_context := None\<rparr>;
                 (item, rs) =
                   (if tolerate_dup_recv r then
                      (item\<lparr>item_value := Some v, is_dead := dead,
                         send_dev_context := (if device_context send_args \<noteq> None then device_context send_args else send_dev_context item),
                         send_alloc_attrs := alloc_attrs send_args\<rparr>,
                       Ref (device_context send_args) (refs r))
                    else (item, refs r))
             in (OK, [Call w OK send_args recv_args (Some v) dead],
                 r\<lparr>table := put key_hash item (table r), refs := Unref (device_context recv_args) rs\<rparr>)))"

text \<open>A receiver that found a message: what it took along when it released the lock.\<close>

record ('w, 'v) pending =
  pend_key :: u64
  pend_item :: nat
  pend_done :: 'w
  pend_value :: "'v option"
  pend_dead :: bool
  pend_context :: "nat option"
  pend_args :: args

definition RecvAsync :: "u64 \<Rightarrow> args \<Rightarrow> 'w \<Rightarrow> ('w, 'v) rendezvous \<Rightarrow>
    ('w, 'v) call list \<times> ('w, 'v) pending option \<times> ('w, 'v) rendezvous" where
  "RecvAsync key_hash recv_args done r =
    (if status r \<noteq> OK then ([Call done (status r) Args recv_args None False], None, r)
     else case map_of (table r) key_hash of
       Some item \<Rightarrow>
         if has_been_recvd item \<and> \<not> tolerate_dup_recv r then
           ([Call done (Aborted ''Duplicated recv'') Args recv_args None False], None, r)
         else if waiter item = None \<or> tolerate_dup_recv r then
           let v = item_value item;
               item = (if \<not> tolerate_dup_recv r then item\<lparr>item_value := None\<rparr> else item);
               item = item\<lparr>has_been_recvd := True\<rparr>
           in ([], Some \<lparr>pend_key = key_hash, pend_item = item_id item, pend_done = done, pend_value = v, pend_dead = is_dead item,
                    pend_context = send_dev_context item, pend_args = recv_args\<rparr>,
               r\<lparr>table := put key_hash item (table r), refs := Ref (send_dev_context item) (refs r)\<rparr>)
         else ([Call done (Aborted ''Duplicated recv'') Args recv_args None False], None, r)
     | None \<Rightarrow>
         let item = (new_Item (next_item r))\<lparr>waiter := Some done, recv_alloc_attrs := alloc_attrs recv_args,
               recv_dev_context := device_context recv_args\<rparr>
         in ([], None, r\<lparr>table := table r @ [(key_hash, item)], next_item := next_item r + 1,
              refs := Ref (device_context recv_args) (refs r)\<rparr>))"

text \<open>The rest of \<open>RecvAsync\<close>, after \<open>mu_.unlock()\<close>: it reads the item again. \<open>None\<close> is a read of a deleted item.\<close>

definition RecvAsync_unlocked :: "('w, 'v) pending \<Rightarrow> ('w, 'v) rendezvous \<Rightarrow> (('w, 'v) call \<times> ('w, 'v) rendezvous) option" where
  "RecvAsync_unlocked p r =
    (case find (\<lambda>ki. item_id (snd ki) = pend_item p) (table r) of
       None \<Rightarrow> None
     | Some (_, item) \<Rightarrow>
        let send_args = \<lparr>device_context = send_dev_context item, alloc_attrs = send_alloc_attrs item\<rparr>
        in Some (Call (pend_done p) OK send_args (pend_args p) (pend_value p) (pend_dead p),
                 r\<lparr>refs := Unref (pend_context p) (refs r)\<rparr>))"

definition delete_item :: "('w, 'v) item \<Rightarrow> (nat \<Rightarrow> int) \<Rightarrow> nat \<Rightarrow> int" where
  "delete_item i rs = Unref (recv_dev_context i) (Unref (send_dev_context i) rs)"

fun abort_loop :: "status \<Rightarrow> (u64 \<times> ('w, 'v) item) list \<Rightarrow> ('w, 'v) call list \<Rightarrow> (nat \<Rightarrow> int) \<Rightarrow> ('w, 'v) call list \<times> (nat \<Rightarrow> int)" where
  "abort_loop s [] calls rs = (calls, rs)"
| "abort_loop s ((k, item) # items) calls rs =
    abort_loop s items (case waiter item of None \<Rightarrow> calls | Some w \<Rightarrow> calls @ [Call w s Args Args None False]) (delete_item item rs)"

text \<open>\<open>None\<close> is the failed check on an OK status.\<close>

definition StartAbort :: "status \<Rightarrow> ('w, 'v) rendezvous \<Rightarrow> (('w, 'v) call list \<times> ('w, 'v) rendezvous) option" where
  "StartAbort s r =
    (if s = OK then None
     else if status r \<noteq> OK then Some ([], r)
     else case abort_loop s (table r) [] (refs r) of
       (calls, rs) \<Rightarrow> Some (calls, r\<lparr>status := s, table := [], refs := rs\<rparr>))"

definition destroy :: "('w, 'v) rendezvous \<Rightarrow> ('w, 'v) rendezvous" where
  "destroy r = r\<lparr>table := [], refs := fold (\<lambda>ki. delete_item (snd ki)) (table r) (refs r)\<rparr>"


subsection \<open>Executions\<close>

datatype ('w, 'v) event =
    Sent u64 'v bool status "('w, 'v) call list"
  | Received u64 'w "('w, 'v) call list"
  | Delivered u64 "('w, 'v) call"
  | Abort "('w, 'v) call list"

text \<open>Any interleaving: states, receivers between their two sections, and the history, the latest event first.\<close>

inductive reach :: "bool \<Rightarrow> ('w, 'v) rendezvous \<Rightarrow> ('w, 'v) pending list \<Rightarrow> ('w, 'v) event list \<Rightarrow> bool" for dup where
  reach_init: "reach dup (LocalRendezvous dup) [] []"
| reach_send: "reach dup r ps h \<Longrightarrow> Send k a v d r = (s, cs, r') \<Longrightarrow> reach dup r' ps (Sent k v d s cs # h)"
| reach_recv: "reach dup r ps h \<Longrightarrow> RecvAsync k a w r = (cs, p, r') \<Longrightarrow>
    reach dup r' (case p of None \<Rightarrow> ps | Some p \<Rightarrow> p # ps) (Received k w cs # h)"
| reach_unlocked: "reach dup r (ps @ p # qs) h \<Longrightarrow> RecvAsync_unlocked p r = Some (c, r') \<Longrightarrow>
    reach dup r' (ps @ qs) (Delivered (pend_key p) c # h)"
| reach_abort: "reach dup r ps h \<Longrightarrow> StartAbort s r = Some (cs, r') \<Longrightarrow> reach dup r' ps (Abort cs # h)"

text \<open>What a history says: the closures passed in, the closures called, the messages accepted and the messages handed over.\<close>

definition closure :: "('w, 'v) call \<Rightarrow> 'w" where
  "closure c = (case c of Call w _ _ _ _ _ \<Rightarrow> w)"

definition message :: "u64 \<Rightarrow> ('w, 'v) call \<Rightarrow> (u64 \<times> 'v option \<times> bool) multiset" where
  "message k c = (case c of Call _ s _ _ v d \<Rightarrow> if s = OK then {#(k, v, d)#} else {#})"

fun requests :: "('w, 'v) event list \<Rightarrow> 'w multiset" where
  "requests [] = {#}"
| "requests (Received k w cs # h) = {#w#} + requests h"
| "requests (e # h) = requests h"

fun called :: "('w, 'v) event list \<Rightarrow> 'w multiset" where
  "called [] = {#}"
| "called (Sent k v d s cs # h) = mset (map closure cs) + called h"
| "called (Received k w cs # h) = mset (map closure cs) + called h"
| "called (Delivered k c # h) = {#closure c#} + called h"
| "called (Abort cs # h) = mset (map closure cs) + called h"

fun accepted_msgs :: "('w, 'v) event list \<Rightarrow> (u64 \<times> 'v option \<times> bool) multiset" where
  "accepted_msgs [] = {#}"
| "accepted_msgs (Sent k v d s cs # h) = (if s = OK then {#(k, Some v, d)#} else {#}) + accepted_msgs h"
| "accepted_msgs (e # h) = accepted_msgs h"

fun delivered :: "('w, 'v) event list \<Rightarrow> (u64 \<times> 'v option \<times> bool) multiset" where
  "delivered [] = {#}"
| "delivered (Sent k v d s cs # h) = sum_list (map (message k) cs) + delivered h"
| "delivered (Received k w cs # h) = sum_list (map (message k) cs) + delivered h"
| "delivered (Delivered k c # h) = message k c + delivered h"
| "delivered (Abort cs # h) = sum_list (map (message 0) cs) + delivered h"

subsection \<open>The table\<close>

lemma put_split:
  assumes "map_of t k = Some i" "distinct (map fst t)"
  shows "\<exists>ys zs. t = ys @ (k, i) # zs \<and> (\<forall>j. put k j t = ys @ (k, j) # zs)"
proof -
  have "(k, i) \<in> set t" using assms(1) by (rule map_of_SomeD)
  then obtain ys zs where t: "t = ys @ (k, i) # zs" by (auto simp: in_set_conv_decomp)
  have other: "put k j xs = xs" if "k \<notin> fst ` set xs" for j and xs :: "(u64 \<times> ('a, 'b) item) list"
    using that by (induction xs) (auto simp: put_def)
  have "k \<notin> fst ` set ys" "k \<notin> fst ` set zs" using assms(2) t by auto
  then have "put k j t = ys @ (k, j) # zs" for j
    using other [of ys j] other [of zs j] by (simp add: t) (simp add: put_def)
  then show ?thesis using t by blast
qed

definition waiting :: "(u64 \<times> ('w, 'v) item) list \<Rightarrow> 'w multiset" where
  "waiting t = mset (List.map_filter (\<lambda>ki. waiter (snd ki)) t)"

definition stored :: "(u64 \<times> ('w, 'v) item) list \<Rightarrow> (u64 \<times> 'v option \<times> bool) multiset" where
  "stored t = sum_list (map (\<lambda>(k, i). if item_value i = None then {#} else {#(k, item_value i, is_dead i)#}) t)"

definition on_hand :: "('w, 'v) pending list \<Rightarrow> (u64 \<times> 'v option \<times> bool) multiset" where
  "on_hand ps = mset (map (\<lambda>p. (pend_key p, pend_value p, pend_dead p)) ps)"

definition held :: "nat \<Rightarrow> (u64 \<times> ('w, 'v) item) list \<Rightarrow> int" where
  "held c t = sum_list (map (\<lambda>(k, i). of_bool (send_dev_context i = Some c) + of_bool (recv_dev_context i = Some c)) t)"

definition pend_refs :: "nat \<Rightarrow> ('w, 'v) pending list \<Rightarrow> int" where
  "pend_refs c ps = sum_list (map (\<lambda>p. of_bool (pend_context p = Some c)) ps)"

lemma table_simps [simp]:
  "waiting [] = {#}" "waiting (xs @ ys) = waiting xs + waiting ys"
  "waiting (ki # xs) = (case waiter (snd ki) of None \<Rightarrow> {#} | Some w \<Rightarrow> {#w#}) + waiting xs"
  "stored [] = {#}" "stored (xs @ ys) = stored xs + stored ys"
  "stored ((k, i) # xs) = (if item_value i = None then {#} else {#(k, item_value i, is_dead i)#}) + stored xs"
  "held c [] = 0" "held c (xs @ ys) = held c xs + held c ys"
  "held c ((k, i) # xs) = of_bool (send_dev_context i = Some c) + of_bool (recv_dev_context i = Some c) + held c xs"
  "on_hand [] = {#}" "on_hand (ps @ qs) = on_hand ps + on_hand qs"
  "on_hand (p # ps) = {#(pend_key p, pend_value p, pend_dead p)#} + on_hand ps"
  "pend_refs c [] = 0" "pend_refs c (ps @ qs) = pend_refs c ps + pend_refs c qs"
  "pend_refs c (p # ps) = of_bool (pend_context p = Some c) + pend_refs c ps"
  by (auto simp: waiting_def stored_def held_def on_hand_def pend_refs_def List.map_filter_def split: option.split)

lemma add_ref_apply: "add_ref n c r d = r d + (if c = Some d then n else 0)"
  by (auto simp: add_ref_def split: option.split)

subsection \<open>The invariant\<close>

definition item_ok :: "bool \<Rightarrow> ('w, 'v) item \<Rightarrow> bool" where
  "item_ok dup i \<longleftrightarrow>
    (waiter i \<noteq> None \<longrightarrow> send_dev_context i = None \<and> item_value i = None \<and> (\<not> dup \<longrightarrow> \<not> has_been_recvd i)) \<and>
    (waiter i = None \<longrightarrow> recv_dev_context i = None \<and> (\<not> dup \<longrightarrow> (item_value i = None \<longleftrightarrow> has_been_recvd i)))"

definition rendezvous_inv :: "bool \<Rightarrow> ('w, 'v) rendezvous \<Rightarrow> ('w, 'v) pending list \<Rightarrow> ('w, 'v) event list \<Rightarrow> bool" where
  "rendezvous_inv dup r ps h \<longleftrightarrow>
    tolerate_dup_recv r = dup \<and> distinct (map fst (table r)) \<and> (status r \<noteq> OK \<longrightarrow> table r = []) \<and>
    (\<forall>ki\<in>set (table r). item_ok dup (snd ki)) \<and>
    requests h = called h + mset (map pend_done ps) + waiting (table r) \<and>
    (\<forall>c. refs r c = held c (table r) + pend_refs c ps) \<and>
    (\<not> dup \<longrightarrow> delivered h + on_hand ps + stored (table r) \<subseteq># accepted_msgs h)"

lemma abort_loop_eq:
  "abort_loop s t calls rs = (calls @ fst (abort_loop s t [] (\<lambda>_. 0)), \<lambda>c. rs c - held c t)"
proof (induction t arbitrary: calls rs)
  case (Cons ki t)
  obtain k i where ki: "ki = (k, i)" by (cases ki)
  have d: "delete_item i rs c = rs c - of_bool (send_dev_context i = Some c) - of_bool (recv_dev_context i = Some c)" for rs c
    by (simp add: delete_item_def add_ref_apply)
  show ?case
    by (cases "waiter i") (simp_all add: ki Cons [of "[]" "delete_item i (\<lambda>_. 0)"] Cons [of calls]
      Cons [of "calls @ _"] Cons [of "[_]"] d, simp_all add: fun_eq_iff)
qed simp

lemma abort_calls: "mset (map closure (fst (abort_loop s t [] rs))) = waiting t"
  "s \<noteq> OK \<Longrightarrow> sum_list (map (message k) (fst (abort_loop s t [] rs))) = {#}"
proof -
  have *: "fst (abort_loop s t calls rs) = calls @ map (\<lambda>w. Call w s Args Args None False) (List.map_filter (\<lambda>ki. waiter (snd ki)) t)" for calls rs
    by (induction t arbitrary: calls rs) (auto simp: List.map_filter_def split: option.split)
  show "mset (map closure (fst (abort_loop s t [] rs))) = waiting t"
    by (simp add: * waiting_def closure_def comp_def)
  show "s \<noteq> OK \<Longrightarrow> sum_list (map (message k) (fst (abort_loop s t [] rs))) = {#}"
    by (simp add: * message_def comp_def)
qed


lemma new_key: "map_of t k = None \<longleftrightarrow> k \<notin> fst ` set t"
  by (rule map_of_eq_None_iff)

text \<open>The invariant around one entry, and what it takes to replace the entry.\<close>

lemma inv_entry:
  assumes "rendezvous_inv dup r ps h" "table r = ys @ (k, i) # zs"
  shows "tolerate_dup_recv r = dup" "distinct (map fst (ys @ (k, i) # zs))" "status r = OK" "item_ok dup i"
    "\<forall>ki\<in>set ys \<union> set zs. item_ok dup (snd ki)"
    "requests h = called h + mset (map pend_done ps) + (waiting ys + (case waiter i of None \<Rightarrow> {#} | Some w \<Rightarrow> {#w#}) + waiting zs)"
    "refs r c = held c ys + held c zs + of_bool (send_dev_context i = Some c) + of_bool (recv_dev_context i = Some c) + pend_refs c ps"
    "\<not> dup \<Longrightarrow> delivered h + on_hand ps + (stored ys + (if item_value i = None then {#} else {#(k, item_value i, is_dead i)#}) + stored zs)
      \<subseteq># accepted_msgs h"
proof -
  note a = assms(1) [unfolded rendezvous_inv_def assms(2)]
  show "tolerate_dup_recv r = dup" "distinct (map fst (ys @ (k, i) # zs))" using a by blast+
  show "status r = OK" "item_ok dup i" "\<forall>ki\<in>set ys \<union> set zs. item_ok dup (snd ki)" using a by auto
  show "requests h = called h + mset (map pend_done ps) + (waiting ys + (case waiter i of None \<Rightarrow> {#} | Some w \<Rightarrow> {#w#}) + waiting zs)"
    using a by (simp only: table_simps snd_conv add.assoc)
  have "refs r c = held c (ys @ (k, i) # zs) + pend_refs c ps" using a by blast
  then show "refs r c = held c ys + held c zs + of_bool (send_dev_context i = Some c) + of_bool (recv_dev_context i = Some c) + pend_refs c ps"
    by simp
  show "\<not> dup \<Longrightarrow> delivered h + on_hand ps + (stored ys + (if item_value i = None then {#} else {#(k, item_value i, is_dead i)#}) + stored zs)
      \<subseteq># accepted_msgs h"
    using a by (simp only: table_simps snd_conv add.assoc not_False_eq_True simp_thms)
qed

lemma replace_entry:
  assumes "rendezvous_inv dup r ps h" "table r = ys @ (k, i) # zs" "item_ok dup j"
    and "tolerate_dup_recv r' = dup" "status r' = OK" "table r' = ys @ (k, j) # zs"
    and "requests h' = called h' + mset (map pend_done ps') + (waiting ys + (case waiter j of None \<Rightarrow> {#} | Some w \<Rightarrow> {#w#}) + waiting zs)"
    and "\<And>c. refs r' c = held c ys + held c zs + of_bool (send_dev_context j = Some c) + of_bool (recv_dev_context j = Some c) + pend_refs c ps'"
    and "\<not> dup \<Longrightarrow> delivered h' + on_hand ps' + (stored ys + (if item_value j = None then {#} else {#(k, item_value j, is_dead j)#}) + stored zs)
      \<subseteq># accepted_msgs h'"
  shows "rendezvous_inv dup r' ps' h'"
proof -
  note e = inv_entry [OF assms(1,2)]
  have "distinct (map fst (table r'))" using e(2) by (simp add: assms(6))
  moreover have "\<forall>ki\<in>set (table r'). item_ok dup (snd ki)" using e(5) assms(3) by (auto simp: assms(6))
  moreover have "requests h' = called h' + mset (map pend_done ps') + waiting (table r')"
    using assms(7) by (simp add: assms(6) add.assoc)
  moreover have "refs r' c = held c (table r') + pend_refs c ps'" for c using assms(8) [of c] by (simp add: assms(6))
  moreover have "delivered h' + on_hand ps' + stored (table r') \<subseteq># accepted_msgs h'" if "\<not> dup"
    using assms(9) [OF that] by (simp add: assms(6) add.assoc split: if_splits)
  ultimately show ?thesis using assms(4,5) unfolding rendezvous_inv_def by simp
qed

lemma Send_inv:
  assumes inv: "rendezvous_inv dup r ps h" and send: "Send k a v d r = (s, cs, r')"
  shows "rendezvous_inv dup r' ps (Sent k v d s cs # h)"
proof (cases "status r = OK")
  case False
  then show ?thesis using assms by (auto simp: Send_def rendezvous_inv_def)
next
  case ok: True
  show ?thesis
  proof (cases "map_of (table r) k")
    case None
    let ?i = "(new_Item (next_item r) :: ('a, 'b) item)\<lparr>item_value := Some v, is_dead := d, send_dev_context := device_context a,
      send_alloc_attrs := alloc_attrs a\<rparr>"
    have e: "s = OK" "cs = []" "r' = r\<lparr>table := table r @ [(k, ?i)], next_item := next_item r + 1, refs := Ref (device_context a) (refs r)\<rparr>"
      using send ok None by (simp_all add: Send_def Let_def)
    have "k \<notin> fst ` set (table r)" using None by (simp add: new_key)
    then show ?thesis using inv ok
      by (auto simp: e rendezvous_inv_def item_ok_def new_Item_def add_ref_apply add.assoc)
  next
    case (Some i)
    have dist: "distinct (map fst (table r))" using inv by (simp add: rendezvous_inv_def)
    obtain ys zs where t: "table r = ys @ (k, i) # zs" "\<And>j. put k j (table r) = ys @ (k, j) # zs"
      using put_split [OF Some dist] by blast
    have i: "item_ok dup i" using inv by (simp add: rendezvous_inv_def t(1))
    show ?thesis
    proof (cases "waiter i")
      case None
      then show ?thesis using assms ok Some by (auto simp: Send_def rendezvous_inv_def Aborted_def)
    next
      case w: (Some w)
      then have i': "send_dev_context i = None" "item_value i = None" "\<not> dup \<Longrightarrow> \<not> has_been_recvd i" using i by (auto simp: item_ok_def)
      define j where "j = i\<lparr>has_been_recvd := True, waiter := None, recv_dev_context := None\<rparr>"
      define j' where "j' = (if dup then j\<lparr>item_value := Some v, is_dead := d, send_dev_context := device_context a, send_alloc_attrs := alloc_attrs a\<rparr> else j)"
      define rs where "rs = Unref (recv_dev_context i) (if dup then Ref (device_context a) (refs r) else refs r)"
      have dup: "tolerate_dup_recv r = dup" using inv by (simp add: rendezvous_inv_def)
      have call: "Send k a v d r = (OK, [Call w OK a \<lparr>device_context = recv_dev_context i, alloc_attrs = recv_alloc_attrs i\<rparr> (Some v) d],
          r\<lparr>table := put k j' (table r), refs := rs\<rparr>)"
        using i'(1) by (cases "device_context a")
          (simp_all add: Send_def Let_def ok Some w dup j'_def j_def rs_def)
      have e: "s = OK" "cs = [Call w OK a \<lparr>device_context = recv_dev_context i, alloc_attrs = recv_alloc_attrs i\<rparr> (Some v) d]"
        "r' = r\<lparr>table := ys @ (k, j') # zs, refs := rs\<rparr>"
        using send call by (simp_all add: t(2))
      have j: "waiter j' = None" "recv_dev_context j' = None" "send_dev_context j' = (if dup then device_context a else None)"
        "item_value j' = (if dup then Some v else None)" "has_been_recvd j'"
        using i' by (simp_all add: j'_def j_def)
      note I = inv_entry [OF inv t(1)]
      show ?thesis
      proof (rule replace_entry [OF inv t(1), of j'])
        show "requests (Sent k v d s cs # h) = called (Sent k v d s cs # h) + mset (map pend_done ps) +
            (waiting ys + (case waiter j' of None \<Rightarrow> {#} | Some w \<Rightarrow> {#w#}) + waiting zs)"
          using I(6) by (simp add: e j w closure_def)
        show "refs r' c = held c ys + held c zs + of_bool (send_dev_context j' = Some c) + of_bool (recv_dev_context j' = Some c) + pend_refs c ps" for c
          using I(7) [of c] i' by (cases dup) (simp_all add: e j rs_def add_ref_apply)
        show "delivered (Sent k v d s cs # h) + on_hand ps +
            (stored ys + (if item_value j' = None then {#} else {#(k, item_value j', is_dead j')#}) + stored zs) \<subseteq># accepted_msgs (Sent k v d s cs # h)"
          if "\<not> dup" using I(8) [OF that] i' that by (simp add: e j message_def add.assoc)
      qed (use j ok dup in \<open>simp_all add: item_ok_def e\<close>)
    qed
  qed
qed

lemma Recv_inv:
  assumes inv: "rendezvous_inv dup r ps h" and recv: "RecvAsync k a w r = (cs, p, r')"
  shows "rendezvous_inv dup r' (case p of None \<Rightarrow> ps | Some p \<Rightarrow> p # ps) (Received k w cs # h)"
proof (cases "status r = OK")
  case False
  then show ?thesis using assms by (auto simp: RecvAsync_def rendezvous_inv_def closure_def message_def)
next
  case ok: True
  show ?thesis
  proof (cases "map_of (table r) k")
    case None
    let ?i = "(new_Item (next_item r) :: ('a, 'b) item)\<lparr>waiter := Some w, recv_alloc_attrs := alloc_attrs a, recv_dev_context := device_context a\<rparr>"
    have e: "cs = []" "p = None" "r' = r\<lparr>table := table r @ [(k, ?i)], next_item := next_item r + 1, refs := Ref (device_context a) (refs r)\<rparr>"
      using recv ok None by (simp_all add: RecvAsync_def Let_def)
    have "k \<notin> fst ` set (table r)" using None by (simp add: new_key)
    then show ?thesis using inv ok
      by (auto simp: e rendezvous_inv_def item_ok_def new_Item_def add_ref_apply add.assoc)
  next
    case (Some i)
    have dist: "distinct (map fst (table r))" using inv by (simp add: rendezvous_inv_def)
    obtain ys zs where t: "table r = ys @ (k, i) # zs" "\<And>j. put k j (table r) = ys @ (k, j) # zs"
      using put_split [OF Some dist] by blast
    have i: "item_ok dup i" and dup: "tolerate_dup_recv r = dup" using inv by (simp_all add: rendezvous_inv_def t(1))
    show ?thesis
    proof (cases "has_been_recvd i \<and> \<not> dup \<or> \<not> (waiter i = None \<or> dup)")
      case True
      then have "cs = [Call w (Aborted ''Duplicated recv'') Args a None False]" "p = None" "r' = r"
        using recv ok Some dup by (auto simp: RecvAsync_def Let_def split: if_splits)
      then show ?thesis using inv by (auto simp: rendezvous_inv_def closure_def message_def Aborted_def)
    next
      case False
      then have c: "\<not> (has_been_recvd i \<and> \<not> dup)" "waiter i = None \<or> dup" by auto
      define j where "j = (if dup then i else i\<lparr>item_value := None\<rparr>)\<lparr>has_been_recvd := True\<rparr>"
      have e: "cs = []" "p = Some \<lparr>pend_key = k, pend_item = item_id j, pend_done = w, pend_value = item_value i, pend_dead = is_dead j,
          pend_context = send_dev_context j, pend_args = a\<rparr>"
        "r' = r\<lparr>table := ys @ (k, j) # zs, refs := Ref (send_dev_context j) (refs r)\<rparr>"
        using recv ok Some c dup unfolding j_def t(2) [symmetric] by (cases dup; simp add: RecvAsync_def Let_def)+
      have j: "waiter j = waiter i" "send_dev_context j = send_dev_context i" "recv_dev_context j = recv_dev_context i"
        "is_dead j = is_dead i" "item_value j = (if dup then item_value i else None)" "has_been_recvd j"
        by (simp_all add: j_def)
      note I = inv_entry [OF inv t(1)]
      show ?thesis
      proof (rule replace_entry [OF inv t(1), of j])
        show "item_ok dup j" using i c j by (auto simp: item_ok_def)
        show "requests (Received k w cs # h) = called (Received k w cs # h) + mset (map pend_done (case p of None \<Rightarrow> ps | Some p \<Rightarrow> p # ps)) +
            (waiting ys + (case waiter j of None \<Rightarrow> {#} | Some w \<Rightarrow> {#w#}) + waiting zs)"
          using I(6) by (simp add: e j)
        show "refs r' c = held c ys + held c zs + of_bool (send_dev_context j = Some c) + of_bool (recv_dev_context j = Some c) +
            pend_refs c (case p of None \<Rightarrow> ps | Some p \<Rightarrow> p # ps)" for c
          using I(7) [of c] by (simp add: e j add_ref_apply)
        show "delivered (Received k w cs # h) + on_hand (case p of None \<Rightarrow> ps | Some p \<Rightarrow> p # ps) +
            (stored ys + (if item_value j = None then {#} else {#(k, item_value j, is_dead j)#}) + stored zs) \<subseteq># accepted_msgs (Received k w cs # h)"
          if "\<not> dup" using I(8) [OF that] i c that by (auto simp: e j item_ok_def add.assoc add.left_commute)
      qed (use ok dup in \<open>simp_all add: e\<close>)
    qed
  qed
qed

lemma rendezvous_reach_inv: "reach dup r ps h \<Longrightarrow> rendezvous_inv dup r ps h"
proof (induction rule: reach.induct)
  case reach_init
  then show ?case by (simp add: rendezvous_inv_def LocalRendezvous_def)
next
  case (reach_send r ps h k a v d s cs r')
  then show ?case by (intro Send_inv)
next
  case (reach_recv r ps h k a w cs p r')
  then show ?case by (intro Recv_inv)
next
  case (reach_unlocked r ps p qs h c r')
  then show ?case
    by (auto simp: RecvAsync_unlocked_def rendezvous_inv_def closure_def message_def add_ref_apply ac_simps split: option.splits)
next
  case (reach_abort r ps h s cs r')
  show ?case
  proof (cases "status r = OK")
    case True
    then have s: "s \<noteq> OK" "cs = fst (abort_loop s (table r) [] (\<lambda>_. 0))"
      "r' = r\<lparr>status := s, table := [], refs := (\<lambda>c. refs r c - held c (table r))\<rparr>"
      using reach_abort.hyps(2) abort_loop_eq [of s "table r" "[]" "refs r"] by (auto simp: StartAbort_def split: if_splits)
    then show ?thesis
      using reach_abort.IH abort_calls(1) [of s "table r" "\<lambda>_. 0"] abort_calls(2) [OF s(1), of 0 "table r" "\<lambda>_. 0"]
      by (auto simp: rendezvous_inv_def intro: subset_mset.order_trans [rotated])
  next
    case False
    then show ?thesis using reach_abort by (auto simp: StartAbort_def rendezvous_inv_def split: if_splits)
  qed
qed

subsection \<open>Properties\<close>

text \<open>C30: However senders, receivers and aborts interleave, every receiver is answered exactly once or is still to be answered:
  the closures passed to \<open>RecvAsync\<close> are those called, those of the receivers between their two sections, and those
  waiting in the table, where none is left after an abort. And the references on device contexts balance: a context is
  referenced as often as items and receivers hold it.\<close>

theorem rendezvous_answers_once:
  assumes "reach dup r ps h"
  shows "requests h = called h + mset (map pend_done ps) + waiting (table r) \<and>
    (status r = OK \<or> table r = []) \<and> (\<forall>c. refs r c = held c (table r) + pend_refs c ps)"
  using rendezvous_reach_inv [OF assms] by (auto simp: rendezvous_inv_def)

text \<open>A run with a message before its receiver, a receiver before its message, and an abort that answers a third receiver.\<close>

definition sample_run :: "(nat, nat) event list" where
  "sample_run = [Abort [Call 3 (Error 1 ''stop'') Args Args None False], Received 9 3 [],
     Sent 8 20 False OK [Call 2 OK Args \<lparr>device_context = Some 5, alloc_attrs = 0\<rparr> (Some 20) False],
     Received 8 2 [], Delivered 7 (Call 1 OK \<lparr>device_context = Some 4, alloc_attrs = 0\<rparr> Args (Some 10) True),
     Received 7 1 [], Sent 7 10 True OK []]"

lemma sample_run_reach: "\<exists>r. reach False r [] sample_run \<and> status r = Error 1 ''stop'' \<and> refs r 4 = 0 \<and> refs r 5 = 0"
proof -
  define r0 :: "(nat, nat) rendezvous" where "r0 = LocalRendezvous False"
  define r1 where "r1 = snd (snd (Send 7 \<lparr>device_context = Some 4, alloc_attrs = 0\<rparr> 10 True r0))"
  define r2 where "r2 = snd (snd (RecvAsync 7 Args 1 r1))"
  define p where "p = the (fst (snd (RecvAsync 7 Args 1 r1)))"
  define r3 where "r3 = snd (the (RecvAsync_unlocked p r2))"
  define r4 where "r4 = snd (snd (RecvAsync 8 \<lparr>device_context = Some 5, alloc_attrs = 0\<rparr> 2 r3))"
  define r5 where "r5 = snd (snd (Send 8 Args 20 False r4))"
  define r6 where "r6 = snd (snd (RecvAsync 9 Args 3 r5))"
  define r7 where "r7 = snd (the (StartAbort (Error 1 ''stop'') r6))"
  note ops = Send_def RecvAsync_def RecvAsync_unlocked_def StartAbort_def LocalRendezvous_def new_Item_def put_def
    add_ref_def delete_item_def Args_def Let_def
  have R0: "reach False r0 [] []" by (simp add: r0_def reach_init)
  have "Send 7 \<lparr>device_context = Some 4, alloc_attrs = 0\<rparr> 10 True r0 = (OK, [], r1)" by (simp add: r1_def r0_def ops)
  from reach_send [OF R0 this] have R1: "reach False r1 [] [Sent 7 10 True OK []]" .
  have "RecvAsync 7 Args 1 r1 = ([], Some p, r2)" by (simp add: r2_def p_def r1_def r0_def ops)
  from reach_recv [OF R1 this] have R2: "reach False r2 ([] @ p # []) [Received 7 1 [], Sent 7 10 True OK []]" by simp
  have "RecvAsync_unlocked p r2 = Some (Call 1 OK \<lparr>device_context = Some 4, alloc_attrs = 0\<rparr> Args (Some 10) True, r3)" "pend_key p = 7"
    by (simp_all add: r3_def r2_def p_def r1_def r0_def ops)
  with reach_unlocked [OF R2 this(1)]
  have R3: "reach False r3 [] (drop 4 sample_run)" by (simp add: sample_run_def)
  have "RecvAsync 8 \<lparr>device_context = Some 5, alloc_attrs = 0\<rparr> 2 r3 = ([], None, r4)"
    by (simp add: r4_def r3_def r2_def p_def r1_def r0_def ops)
  from reach_recv [OF R3 this] have R4: "reach False r4 [] (drop 3 sample_run)" by (simp add: sample_run_def)
  have "Send 8 Args 20 False r4 = (OK, [Call 2 OK Args \<lparr>device_context = Some 5, alloc_attrs = 0\<rparr> (Some 20) False], r5)"
    by (simp add: r5_def r4_def r3_def r2_def p_def r1_def r0_def ops)
  from reach_send [OF R4 this] have R5: "reach False r5 [] (drop 2 sample_run)" by (simp add: sample_run_def)
  have "RecvAsync 9 Args 3 r5 = ([], None, r6)"
    by (simp add: r6_def r5_def r4_def r3_def r2_def p_def r1_def r0_def ops)
  from reach_recv [OF R5 this] have R6: "reach False r6 [] (drop 1 sample_run)" by (simp add: sample_run_def)
  have "StartAbort (Error 1 ''stop'') r6 = Some ([Call 3 (Error 1 ''stop'') Args Args None False], r7)"
    by (simp add: r7_def r6_def r5_def r4_def r3_def r2_def p_def r1_def r0_def ops)
  from reach_abort [OF R6 this] have R7: "reach False r7 [] sample_run" by (simp add: sample_run_def)
  have "status r7 = Error 1 ''stop'' \<and> refs r7 4 = 0 \<and> refs r7 5 = 0"
    by (simp add: r7_def r6_def r5_def r4_def r3_def r2_def p_def r1_def r0_def ops)
  with R7 show ?thesis by blast
qed

theorem rendezvous_answers_once_witness:
  "\<exists>r. reach False r [] sample_run \<and> requests sample_run = called sample_run + mset (map pend_done ([] :: (nat, nat) pending list)) + waiting (table r)"
  using sample_run_reach rendezvous_answers_once [of False _ "[]" sample_run] by blast

text \<open>Without tolerance of repeated receivers, a message that \<open>Send\<close> accepted is handed over at most once, with the tensor and
  the death mark it was sent with, and nothing else is ever handed over with an OK status.\<close>

theorem rendezvous_no_duplicates:
  assumes "reach False r ps h"
  shows "delivered h \<subseteq># accepted_msgs h"
proof -
  have "delivered h + on_hand ps + stored (table r) \<subseteq># accepted_msgs h"
    using rendezvous_reach_inv [OF assms] by (simp add: rendezvous_inv_def)
  then show ?thesis by (meson mset_subset_eq_add_left subset_mset.order_trans)
qed

theorem rendezvous_no_duplicates_witness:
  "delivered sample_run \<subseteq># accepted_msgs sample_run \<and> delivered sample_run = {#(8, Some 20, False), (7, Some 10, True)#}"
  using sample_run_reach rendezvous_no_duplicates [of _ "[]" sample_run]
  by (auto simp: sample_run_def message_def)

text \<open>With tolerance of repeated receivers, a second receiver that comes before the message is not made to wait: it is
  answered at once with an OK status and the empty tensor, which no sender sent.\<close>

theorem tolerant_recv_empty_tensor:
  "\<exists>(r :: (nat, nat) rendezvous) h. reach True r [] h \<and> accepted_msgs h = {#} \<and>
    hd h = Delivered k (Call w OK Args Args None False)"
proof -
  define r0 :: "(nat, nat) rendezvous" where "r0 = LocalRendezvous True"
  define r1 where "r1 = snd (snd (RecvAsync k Args v r0))"
  define r2 where "r2 = snd (snd (RecvAsync k Args w r1))"
  define p where "p = the (fst (snd (RecvAsync k Args w r1)))"
  define r3 where "r3 = snd (the (RecvAsync_unlocked p r2))"
  note ops = Send_def RecvAsync_def RecvAsync_unlocked_def LocalRendezvous_def new_Item_def put_def
    add_ref_def Args_def Let_def
  have R0: "reach True r0 [] []" by (simp add: r0_def reach_init)
  have "RecvAsync k Args v r0 = ([], None, r1)" by (simp add: r1_def r0_def ops)
  from reach_recv [OF R0 this] have R1: "reach True r1 [] [Received k v []]" by simp
  have "RecvAsync k Args w r1 = ([], Some p, r2)" by (simp add: r2_def p_def r1_def r0_def ops)
  from reach_recv [OF R1 this] have R2: "reach True r2 ([] @ p # []) [Received k w [], Received k v []]" by simp
  have "RecvAsync_unlocked p r2 = Some (Call w OK Args Args None False, r3)" "pend_key p = k"
    by (simp_all add: r3_def r2_def p_def r1_def r0_def ops)
  with reach_unlocked [OF R2 this(1)]
  have "reach True r3 [] [Delivered k (Call w OK Args Args None False), Received k w [], Received k v []]" by simp
  then show ?thesis by force
qed

text \<open>C39: A receiver that found a message reads the item again after it released the lock. If an abort comes in between, the item has
  been deleted: there are executions where the read hits freed memory.\<close>

theorem recv_reads_deleted_item:
  "\<exists>(r :: (nat, nat) rendezvous) p h. reach dup r [p] h \<and> RecvAsync_unlocked p r = None"
proof -
  define r0 :: "(nat, nat) rendezvous" where "r0 = LocalRendezvous dup"
  define r1 where "r1 = snd (snd (Send 7 Args 10 False r0))"
  define r2 where "r2 = snd (snd (RecvAsync 7 Args 1 r1))"
  define p where "p = the (fst (snd (RecvAsync 7 Args 1 r1)))"
  define r3 where "r3 = snd (the (StartAbort (Error 1 ''stop'') r2))"
  note ops = Send_def RecvAsync_def RecvAsync_unlocked_def StartAbort_def LocalRendezvous_def new_Item_def put_def
    add_ref_def delete_item_def Args_def Let_def
  have R0: "reach dup r0 [] []" by (simp add: r0_def reach_init)
  have "Send 7 Args 10 False r0 = (OK, [], r1)" by (simp add: r1_def r0_def ops)
  from reach_send [OF R0 this] have R1: "reach dup r1 [] [Sent 7 10 False OK []]" .
  have "RecvAsync 7 Args 1 r1 = ([], Some p, r2)" by (simp add: r2_def p_def r1_def r0_def ops)
  from reach_recv [OF R1 this] have R2: "reach dup r2 [p] [Received 7 1 [], Sent 7 10 False OK []]" by simp
  have "StartAbort (Error 1 ''stop'') r2 = Some ([], r3)" by (simp add: r3_def r2_def r1_def r0_def ops)
  from reach_abort [OF R2 this] have "reach dup r3 [p] [Abort [], Received 7 1 [], Sent 7 10 False OK []]" .
  moreover have "RecvAsync_unlocked p r3 = None" by (simp add: r3_def r2_def r1_def r0_def ops)
  ultimately show ?thesis by blast
qed

end
