(* ===== verification/Bits.thy ===== *)
theory Bits
  imports C_Prelude
begin

text \<open>
  \<open>core/lib/core/bits.h\<close> (and the private copy of \<open>Log2Floor64\<close> in
  \<open>strings/ordered_code.cc\<close>): integer logarithms. \<open>builtin_clz\<close> is the compiler's
  \<open>__builtin_clz\<close>/\<open>__builtin_clzll\<close>: the number of leading zero bits. The portable
  branch, for compilers that are not GCC, is modelled beside it.
\<close>

definition builtin_clz :: "'a::len word \<Rightarrow> nat" where
  "builtin_clz n = length (takeWhile (\<lambda>i. \<not> bit n i) (rev [0..<LENGTH('a)]))"

definition Log2Floor :: "u32 \<Rightarrow> int" where
  "Log2Floor n = (if n = 0 then -1 else 31 XOR int (builtin_clz n))"

definition Log2Floor64 :: "u64 \<Rightarrow> int" where
  "Log2Floor64 n = (if n = 0 then -1 else 63 XOR int (builtin_clz n))"

fun log2_portable_loop :: "nat list \<Rightarrow> int \<Rightarrow> u32 \<Rightarrow> int \<times> u32" where
  "log2_portable_loop [] log value = (log, value)"
| "log2_portable_loop (i # is) log value =
     (let shift = push_bit i 1; x = drop_bit shift value in
      if x \<noteq> 0 then log2_portable_loop is (log + int shift) x else log2_portable_loop is log value)"

definition Log2Floor_portable :: "u32 \<Rightarrow> int" where
  "Log2Floor_portable n = (if n = 0 then -1 else fst (log2_portable_loop [4, 3, 2, 1, 0] 0 n))"

definition Log2Floor64_portable :: "u64 \<Rightarrow> int" where
  "Log2Floor64_portable n =
     (let topbits = ucast (drop_bit 32 n) in
      if topbits = 0 then Log2Floor_portable (ucast n) else 32 + Log2Floor_portable topbits)"

definition Log2Ceiling :: "u32 \<Rightarrow> int" where
  "Log2Ceiling n = (let floor = Log2Floor n in if n = (n AND NOT (n - 1)) then floor else floor + 1)"

definition Log2Ceiling64 :: "u64 \<Rightarrow> int" where
  "Log2Ceiling64 n = (let floor = Log2Floor64 n in if n = (n AND NOT (n - 1)) then floor else floor + 1)"

subsection \<open>The specification: the floor of the binary logarithm\<close>

definition is_log2 :: "int \<Rightarrow> nat \<Rightarrow> bool" where
  "is_log2 l n \<longleftrightarrow> 0 \<le> l \<and> 2 ^ nat l \<le> n \<and> n < 2 ^ Suc (nat l)"

lemma is_log2_unique: "is_log2 l n \<Longrightarrow> is_log2 m n \<Longrightarrow> l = m"
proof -
  assume l: "is_log2 l n" and m: "is_log2 m n"
  have "(2::nat) ^ nat l < 2 ^ Suc (nat m)" "(2::nat) ^ nat m < 2 ^ Suc (nat l)"
    using l m by (auto simp: is_log2_def)
  then have "nat l < Suc (nat m)" "nat m < Suc (nat l)"
    by (auto dest!: power_less_imp_less_exp [rotated] simp del: power_Suc)
  then have "nat l = nat m" by simp
  moreover have "0 \<le> l" "0 \<le> m" using l m by (simp_all add: is_log2_def)
  ultimately show ?thesis by simp
qed

lemma takeWhile_rev_upt:
  assumes "k < n" "P k" "\<And>i. k < i \<Longrightarrow> i < n \<Longrightarrow> \<not> P i"
  shows "takeWhile (\<lambda>i. \<not> P i) (rev [0..<n]) = rev [Suc k..<n]"
proof -
  have "[0..<n] = [0..<k] @ k # [Suc k..<n]"
    using assms(1) by (metis upt_add_eq_append upt_conv_Cons le0 less_imp_add_positive)
  with assms(2,3) show ?thesis
    by (auto simp: takeWhile_append)
qed

lemma clz_eq:
  fixes n :: "'a::len word"
  assumes "n \<noteq> 0"
  obtains k where "k < LENGTH('a)" "builtin_clz n = LENGTH('a) - 1 - k" "is_log2 (int k) (unat n)"
proof -
  define k where "k = Max {i. bit n i}"
  have fin: "finite {i. bit n i}"
    by (rule finite_subset [of _ "{..<LENGTH('a)}"]) (auto dest: bit_imp_le_length)
  have ne: "{i. bit n i} \<noteq> {}"
    using assms by (auto simp: bit_eq_iff)
  have k: "bit n k" "k < LENGTH('a)"
    using Max_in [OF fin ne] by (auto simp: k_def dest: bit_imp_le_length)
  have above: "\<not> bit n i" if "k < i" for i
  proof
    assume "bit n i"
    then have "i \<le> k" unfolding k_def using fin by (intro Max_ge) auto
    with that show False by simp
  qed
  have "builtin_clz n = LENGTH('a) - 1 - k"
    using takeWhile_rev_upt [of k "LENGTH('a)" "bit n"] k above by (simp add: builtin_clz_def)
  moreover have "unat n < 2 ^ Suc k"
  proof -
    have "drop_bit (Suc k) n = 0"
      by (rule bit_word_eqI) (simp add: bit_drop_bit_eq above)
    then have "unat n div 2 ^ Suc k = 0" by (metis unat_drop_div unsigned_0)
    then show ?thesis by (simp add: div_eq_0_iff del: power_Suc)
  qed
  moreover have "2 ^ k \<le> unat n"
  proof (rule ccontr)
    assume "\<not> 2 ^ k \<le> unat n"
    then show False using word_small_bit [of n k k] k by simp
  qed
  ultimately show thesis using that k by (auto simp: is_log2_def)
qed

lemma xor_31: "k < 32 \<Longrightarrow> 31 XOR (31 - int k) = int k"
proof -
  assume "k < 32"
  then have "k \<in> set [0..<32]" by simp
  moreover have "list_all (\<lambda>k. 31 XOR (31 - int k) = int k) [0..<32]" by code_simp
  ultimately show ?thesis by (simp add: list_all_iff)
qed

lemma xor_63: "k < 64 \<Longrightarrow> 63 XOR (63 - int k) = int k"
proof -
  assume "k < 64"
  then have "k \<in> set [0..<64]" by simp
  moreover have "list_all (\<lambda>k. 63 XOR (63 - int k) = int k) [0..<64]" by code_simp
  ultimately show ?thesis by (simp add: list_all_iff)
qed

lemma Log2Floor_is_log2: "n \<noteq> 0 \<Longrightarrow> is_log2 (Log2Floor n) (unat n)"
  by (rule clz_eq [of n]) (auto simp: Log2Floor_def xor_31 of_nat_diff)

lemma Log2Floor64_is_log2: "n \<noteq> 0 \<Longrightarrow> is_log2 (Log2Floor64 n) (unat n)"
  by (rule clz_eq [of n]) (auto simp: Log2Floor64_def xor_63 of_nat_diff)

subsection \<open>The portable branch\<close>

lemma log2_loop_step:
  assumes "value \<noteq> 0" "unat value < 2 ^ 2 ^ Suc i"
    and rest: "\<And>log v. v \<noteq> 0 \<Longrightarrow> unat v < 2 ^ 2 ^ i \<Longrightarrow>
       \<exists>l. log2_portable_loop is log v = (log + l, 1) \<and> is_log2 l (unat v)"
  shows "\<exists>l. log2_portable_loop (i # is) log value = (log + l, 1) \<and> is_log2 l (unat value)"
proof -
  let ?x = "drop_bit (2 ^ i) value"
  have sh: "push_bit i 1 = (2 ^ i :: nat)" by (simp add: push_bit_eq_mult)
  have ux: "unat ?x = unat value div 2 ^ 2 ^ i" by (rule unat_drop_div)
  show ?thesis
  proof (cases "?x = 0")
    case True
    then have "unat value < 2 ^ 2 ^ i" using ux by (simp add: div_eq_0_iff)
    with rest [OF assms(1)] True show ?thesis by (simp add: sh Let_def del: push_bit_of_1)
  next
    case False
    have "unat value < 2 ^ 2 ^ i * 2 ^ 2 ^ i"
      using assms(2) by (simp add: mult_2 power_add)
    then have "unat ?x < 2 ^ 2 ^ i" using ux by (simp add: less_mult_imp_div_less)
    from rest [OF False this, of "log + int (2 ^ i)"] obtain l where
      l: "log2_portable_loop is (log + int (2 ^ i)) ?x = (log + int (2 ^ i) + l, 1)" "is_log2 l (unat ?x)" by auto
    then have "2 ^ nat l \<le> unat value div 2 ^ 2 ^ i" "unat value div 2 ^ 2 ^ i < 2 ^ Suc (nat l)" "0 \<le> l"
      by (auto simp: is_log2_def ux)
    then have "2 ^ nat l * 2 ^ 2 ^ i \<le> unat value" "unat value < 2 ^ Suc (nat l) * 2 ^ 2 ^ i"
      by (simp_all add: less_eq_div_iff_mult_less_eq div_less_iff_less_mult del: power_Suc)
    then have "is_log2 (int (2 ^ i) + l) (unat value)"
      using \<open>0 \<le> l\<close> by (simp add: is_log2_def nat_add_distrib power_add ac_simps nat_power_eq)
    with l False show ?thesis by (auto simp: sh Let_def add.assoc simp del: push_bit_of_1)
  qed
qed

lemma log2_loop_correct:
  assumes "value \<noteq> 0"
  shows "\<exists>l. log2_portable_loop [4, 3, 2, 1, 0] log value = (log + l, 1) \<and> is_log2 l (unat value)"
proof -
  have base: "\<exists>l. log2_portable_loop [] log v = (log + l, 1) \<and> is_log2 l (unat v)"
    if "v \<noteq> 0" "unat v < 2 ^ 2 ^ 0" for log v
  proof -
    have "unat v = 1" using that by (metis One_nat_def less_2_cases power_0 power_one_right unat_eq_zero)
    then have "v = 1" by (metis unat_1 word_unat_eq_iff)
    then show ?thesis by (simp add: is_log2_def)
  qed
  show ?thesis
    apply (rule log2_loop_step [OF assms])
    subgoal using unsigned_less [of "value", where 'a = nat] by simp
    apply (rule log2_loop_step, assumption, simp)
    apply (rule log2_loop_step, assumption, simp)
    apply (rule log2_loop_step, assumption, simp)
    apply (rule log2_loop_step, assumption, simp)
    apply (rule base, assumption, simp)
    done
qed


lemma Log2Floor_portable_is_log2: "n \<noteq> 0 \<Longrightarrow> is_log2 (Log2Floor_portable n) (unat n)"
  using log2_loop_correct [of n 0] by (auto simp: Log2Floor_portable_def)

lemma Log2Floor_portable_eq: "Log2Floor_portable n = Log2Floor n"
  using is_log2_unique [OF Log2Floor_portable_is_log2 Log2Floor_is_log2, of n]
  by (cases "n = 0") (auto simp: Log2Floor_portable_def Log2Floor_def)

lemma Log2Floor64_portable_is_log2:
  assumes "n \<noteq> 0"
  shows "is_log2 (Log2Floor64_portable n) (unat n)"
proof -
  let ?t = "ucast (drop_bit 32 n) :: u32"
  have "unat n < 2 ^ 32 * 2 ^ 32" using unsigned_less [of n, where 'a = nat] by simp
  then have d: "unat n div 2 ^ 32 < 2 ^ 32" by (simp add: less_mult_imp_div_less)
  then have t: "unat ?t = unat n div 2 ^ 32"
    by (simp add: unsigned_ucast_eq unat_drop_div take_bit_nat_eq_self)
  show ?thesis
  proof (cases "?t = 0")
    case True
    then have "unat n < 2 ^ 32" using t by (simp add: div_eq_0_iff)
    then have u: "unat (ucast n :: u32) = unat n" by (simp add: unsigned_ucast_eq take_bit_nat_eq_self)
    then have "(ucast n :: u32) \<noteq> 0" using assms by (metis unsigned_0 unat_eq_zero)
    from Log2Floor_portable_is_log2 [OF this] True u show ?thesis
      by (simp add: Log2Floor64_portable_def)
  next
    case False
    from Log2Floor_portable_is_log2 [OF this]
    have l: "0 \<le> Log2Floor_portable ?t" "2 ^ nat (Log2Floor_portable ?t) \<le> unat n div 2 ^ 32"
        "unat n div 2 ^ 32 < 2 ^ Suc (nat (Log2Floor_portable ?t))"
      by (auto simp: is_log2_def t)
    then have "2 ^ nat (Log2Floor_portable ?t) * 2 ^ 32 \<le> unat n" "unat n < 2 ^ Suc (nat (Log2Floor_portable ?t)) * 2 ^ 32"
      by (simp_all add: less_eq_div_iff_mult_less_eq div_less_iff_less_mult del: power_Suc)
    then have "is_log2 (32 + Log2Floor_portable ?t) (unat n)"
      using l(1) by (simp add: is_log2_def nat_add_distrib power_add ac_simps)
    with False show ?thesis by (simp add: Log2Floor64_portable_def Let_def)
  qed
qed

lemma Log2Floor64_portable_eq: "Log2Floor64_portable n = Log2Floor64 n"
  using is_log2_unique [OF Log2Floor64_portable_is_log2 Log2Floor64_is_log2, of n]
  by (cases "n = 0") (auto simp: Log2Floor64_portable_def Log2Floor64_def Log2Floor_portable_def)


subsection \<open>Ceiling\<close>

lemma is_log2_bit:
  fixes n :: "'a::len word"
  assumes "is_log2 (int l) (unat n)"
  shows "bit n l"
proof -
  have "unat n div 2 ^ l = 1"
    using assms by (intro div_nat_eqI) (auto simp: is_log2_def)
  then have "bit (unat n) l" by (simp add: bit_iff_odd)
  then show ?thesis by (auto simp: bit_unsigned_iff)
qed

text \<open>The test of the code, \<open>n == (n & ~(n - 1))\<close>, recognises zero and the powers of two.\<close>

lemma power_of_two_test:
  fixes n :: "'a::len word"
  assumes "is_log2 (int l) (unat n)"
  shows "n = (n AND NOT (n - 1)) \<longleftrightarrow> unat n = 2 ^ l"
proof
  assume e: "n = (n AND NOT (n - 1))"
  show "unat n = 2 ^ l"
  proof (rule ccontr)
    assume "unat n \<noteq> 2 ^ l"
    moreover have "n \<noteq> 0" using assms by (auto simp: is_log2_def)
    then have "unat (n - 1) = unat n - 1" by (simp add: unat_minus_one)
    ultimately have "is_log2 (int l) (unat (n - 1))"
      using assms by (auto simp: is_log2_def)
    then have "bit (n - 1) l" by (rule is_log2_bit)
    moreover have "bit n l" using assms by (rule is_log2_bit)
    ultimately show False using e by (metis bit_and_iff bit_not_iff)
  qed
next
  assume p: "unat n = 2 ^ l"
  have "n \<noteq> 0" using p by auto
  then have "unat (n - 1) < 2 ^ l" using p by (simp add: unat_minus_one)
  then have hi: "\<not> bit (n - 1) k" if "l \<le> k" for k using word_small_bit that by blast
  have lo: "\<not> bit n k" if "k < l" for k
  proof
    assume "bit n k"
    then have "bit (unat n) k" by (simp add: bit_unsigned_iff)
    then have "odd ((2::nat) ^ l div 2 ^ k)" by (simp add: p bit_iff_odd)
    moreover have "(2::nat) ^ l div 2 ^ k = 2 ^ (l - k)" using that by (simp add: power_diff)
    ultimately show False using that by simp
  qed
  show "n = (n AND NOT (n - 1))"
  proof (rule bit_word_eqI)
    fix k assume "k < LENGTH('a)"
    then show "bit n k = bit (n AND NOT (n - 1)) k"
      using hi [of k] lo [of k] by (cases "k < l") (auto simp: bit_and_iff bit_not_iff)
  qed
qed

definition is_ceil_log2 :: "int \<Rightarrow> nat \<Rightarrow> bool" where
  "is_ceil_log2 c n \<longleftrightarrow> 0 \<le> c \<and> n \<le> 2 ^ nat c \<and> (\<forall>d. n \<le> 2 ^ d \<longrightarrow> nat c \<le> d)"

lemma is_ceil_log2I:
  fixes n :: "'a::len word"
  assumes "is_log2 l (unat n)"
  shows "is_ceil_log2 (if n = (n AND NOT (n - 1)) then l else l + 1) (unat n)"
proof -
  obtain k where k: "l = int k" using assms by (metis is_log2_def nonneg_int_cases)
  have b: "2 ^ k \<le> unat n" "unat n < 2 ^ Suc k" using assms by (auto simp: is_log2_def k)
  have mono: "k \<le> d" if "(2::nat) ^ k \<le> 2 ^ d" for d using that by simp
  show ?thesis
  proof (cases "n = (n AND NOT (n - 1))")
    case True
    then have "unat n = 2 ^ k" using power_of_two_test [of k n] assms k by simp
    with True k show ?thesis by (auto simp: is_ceil_log2_def)
  next
    case False
    then have "unat n \<noteq> 2 ^ k" using power_of_two_test [of k n] assms k by simp
    then have "2 ^ k < unat n" using b by simp
    then have "Suc k \<le> d" if "unat n \<le> 2 ^ d" for d
      using that by (metis less_le_trans power_less_imp_less_exp Suc_leI one_less_numeral_iff semiring_norm(76))
    with False b k show ?thesis by (auto simp: is_ceil_log2_def nat_add_distrib)
  qed
qed

lemma Log2Ceiling_spec: "n \<noteq> 0 \<Longrightarrow> is_ceil_log2 (Log2Ceiling n) (unat n)"
  using is_ceil_log2I [OF Log2Floor_is_log2] by (simp add: Log2Ceiling_def Let_def split del: if_split)

lemma Log2Ceiling64_spec: "n \<noteq> 0 \<Longrightarrow> is_ceil_log2 (Log2Ceiling64 n) (unat n)"
  using is_ceil_log2I [OF Log2Floor64_is_log2] by (simp add: Log2Ceiling64_def Let_def split del: if_split)

subsection \<open>Properties\<close>

text \<open>The built-in and the portable branches of \<open>Log2Floor\<close> and \<open>Log2Floor64\<close> agree on
  every input; on a positive one they are the exponent of the largest power of two below it, on zero -1.\<close>

theorem Log2Floor_correct:
  "Log2Floor_portable m = Log2Floor m \<and> Log2Floor64_portable n = Log2Floor64 n \<and>
   (if m = 0 then Log2Floor m = -1 else is_log2 (Log2Floor m) (unat m)) \<and>
   (if n = 0 then Log2Floor64 n = -1 else is_log2 (Log2Floor64 n) (unat n))"
  using Log2Floor_is_log2 [of m] Log2Floor64_is_log2 [of n]
  by (simp add: Log2Floor_portable_eq Log2Floor64_portable_eq Log2Floor_def Log2Floor64_def)

text \<open>On a positive input \<open>Log2Ceiling64\<close> is the least exponent whose power of two is not below
  it: the test \<open>n == (n & ~(n - 1))\<close> recognises exactly the powers of two, and -1 is returned for zero.\<close>

theorem Log2Ceiling64_correct:
  "if n = 0 then Log2Ceiling64 n = -1 else is_ceil_log2 (Log2Ceiling64 n) (unat n)"
  using Log2Ceiling64_spec [of n] by (simp add: Log2Ceiling64_def Log2Floor64_def)

end
