(* ===== verification/BfcAllocator.thy ===== *)
theory BfcAllocator
  imports Bits
begin

text \<open>
  The best-fit allocator with coalescing (\<open>core/common_runtime/bfc_allocator.{h,cc}\<close>), as the code stores it: a vector of
  chunks that are linked by handles into one list per region, a free list of unused vector slots, 21 bins of free
  chunks ordered by size and address, and per region an array from addresses to handles. Sizes and addresses are
  numbers with the wrap-around of \<open>size_t\<close> written out. The invalid handle and the invalid bin are \<open>None\<close>, the null
  pointer is 0. A failed \<open>CHECK\<close>, an access outside a vector or an array and a loop that does not end are
  \<open>None\<close>; \<open>DCHECK\<close>s are compiled out. The operations are those performed under the lock.
  Chunk handles, an \<open>int\<close> in the code, and the identifiers and statistics, of 64 bits, are unbounded.
\<close>

subsection \<open>Data\<close>

definition wrap64 :: "nat \<Rightarrow> nat" where "wrap64 n = n mod 2 ^ 64"

definition sub64 :: "nat \<Rightarrow> nat \<Rightarrow> nat" where "sub64 m n = wrap64 (m + (2 ^ 64 - wrap64 n))"

definition to_int32 :: "nat \<Rightarrow> int" where "to_int32 n = (int n + 2 ^ 31) mod 2 ^ 32 - 2 ^ 31"

definition kNumBins :: nat where "kNumBins = 21"
definition kMinAllocationBits :: nat where "kMinAllocationBits = 8"
definition kMinAllocationSize :: nat where "kMinAllocationSize = 256"

record chunk =
  chunk_size :: nat
  requested_size :: nat
  allocation_id :: int
  chunk_ptr :: nat
  prev_chunk :: "nat option"
  next_chunk :: "nat option"
  bin_num :: "nat option"

definition new_Chunk :: chunk where
  "new_Chunk = \<lparr>chunk_size = 0, requested_size = 0, allocation_id = -1, chunk_ptr = 0, prev_chunk = None, next_chunk = None,
     bin_num = None\<rparr>"

definition in_use :: "chunk \<Rightarrow> bool" where "in_use c \<longleftrightarrow> allocation_id c \<noteq> -1"

record region =
  region_ptr :: nat
  memory_size :: nat
  end_ptr :: nat
  handles :: "nat option list"

definition AllocationRegion :: "nat \<Rightarrow> nat \<Rightarrow> region" where
  "AllocationRegion ptr bytes = \<lparr>region_ptr = ptr, memory_size = bytes, end_ptr = wrap64 (ptr + bytes),
     handles = replicate (wrap64 (bytes + kMinAllocationSize - 1) div kMinAllocationSize) None\<rparr>"

record stats =
  num_allocs :: int
  bytes_in_use :: int
  max_bytes_in_use :: int
  max_alloc_size :: int
  bytes_limit :: int

text \<open>\<open>visits\<close> records the calls of the visitors, with the address and the size of the region.\<close>

record bfc =
  memory_limit :: nat
  bins :: "nat list list"
  curr_region_allocation_bytes :: nat
  total_region_allocated_bytes :: nat
  started_backpedal :: bool
  regions :: "region list"
  chunks :: "chunk list"
  free_chunks_list :: "nat option"
  region_visitors :: "nat list"
  visits :: "(nat \<times> nat \<times> nat) list"
  next_allocation_id :: int
  stats :: stats

subsection \<open>Sizes and bins\<close>

definition RoundedBytes :: "nat \<Rightarrow> nat" where
  "RoundedBytes bytes = wrap64 (kMinAllocationSize * (wrap64 (bytes + kMinAllocationSize - 1) div kMinAllocationSize))"

definition Log2FloorNonZero :: "u64 \<Rightarrow> int" where
  "Log2FloorNonZero n = 63 XOR int (builtin_clz n)"

definition BinNumToSize :: "nat \<Rightarrow> nat" where
  "BinNumToSize index = wrap64 (256 * 2 ^ index)"

definition BinNumForSize :: "nat \<Rightarrow> nat" where
  "BinNumForSize bytes =
    (let v = word_of_nat (max bytes 256 div 2 ^ kMinAllocationBits) in nat (min (int kNumBins - 1) (Log2FloorNonZero v)))"

text \<open>The conversion of a \<open>size_t\<close> to \<open>float\<close>, which keeps 24 bits and rounds to the nearest, and the product with \<open>0.9f\<close>, which
  is the float 15099494 / 2^24, rounded likewise and then truncated.\<close>

fun ilog2 :: "nat \<Rightarrow> nat" where
  "ilog2 n = (if n < 2 then 0 else Suc (ilog2 (n div 2)))"

declare ilog2.simps [simp del]

definition round_float :: "nat \<Rightarrow> nat" where
  "round_float n =
    (if n < 2 ^ 24 then n
     else let k = ilog2 n - 23; q = n div 2 ^ k; r = n mod 2 ^ k; half = 2 ^ (k - 1)
       in (if half < r \<or> (r = half \<and> odd q) then q + 1 else q) * 2 ^ k)"

definition backpedal :: "nat \<Rightarrow> nat" where
  "backpedal bytes = round_float (round_float bytes * 15099494) div 2 ^ 24"

subsection \<open>Regions\<close>

definition IndexFor :: "region \<Rightarrow> nat \<Rightarrow> int" where
  "IndexFor r p = to_int32 (sub64 p (region_ptr r) div 2 ^ kMinAllocationBits)"

text \<open>The regions are kept in a vector sorted by end address; the binary search finds the first one that ends behind the pointer.\<close>

fun AddAllocationRegion :: "nat \<Rightarrow> nat \<Rightarrow> region list \<Rightarrow> region list" where
  "AddAllocationRegion ptr bytes [] = [AllocationRegion ptr bytes]"
| "AddAllocationRegion ptr bytes (r # rs) =
    (if ptr < end_ptr r then AllocationRegion ptr bytes # r # rs else r # AddAllocationRegion ptr bytes rs)"

fun get_handle :: "region list \<Rightarrow> nat \<Rightarrow> nat option option" where
  "get_handle [] p = None"
| "get_handle (r # rs) p = (if p < end_ptr r then rd (handles r) (IndexFor r p) else get_handle rs p)"

fun set_handle :: "nat \<Rightarrow> nat option \<Rightarrow> region list \<Rightarrow> region list option" where
  "set_handle p h [] = None"
| "set_handle p h (r # rs) =
    (if p < end_ptr r then map_option (\<lambda>hs. r\<lparr>handles := hs\<rparr> # rs) (wr (handles r) (IndexFor r p) h)
     else map_option ((#) r) (set_handle p h rs))"

subsection \<open>Chunks\<close>

definition ChunkFromHandle :: "bfc \<Rightarrow> nat \<Rightarrow> chunk option" where
  "ChunkFromHandle s h = (if h < length (chunks s) then Some (chunks s ! h) else None)"

text \<open>An assignment to fields of the chunk behind a handle.\<close>

definition modify :: "nat \<Rightarrow> (chunk \<Rightarrow> chunk) \<Rightarrow> bfc \<Rightarrow> bfc option" where
  "modify h f s = (if h < length (chunks s) then Some (s\<lparr>chunks := (chunks s)[h := f (chunks s ! h)]\<rparr>) else None)"

definition check :: "bool \<Rightarrow> unit option" where
  "check b = (if b then Some () else None)"

definition AllocateChunk :: "bfc \<Rightarrow> (nat \<times> bfc) option" where
  "AllocateChunk s =
    (case free_chunks_list s of
       Some h \<Rightarrow> do { c \<leftarrow> ChunkFromHandle s h; Some (h, s\<lparr>free_chunks_list := next_chunk c\<rparr>) }
     | None \<Rightarrow> Some (length (chunks s), s\<lparr>chunks := chunks s @ [new_Chunk]\<rparr>))"

definition DeallocateChunk :: "nat \<Rightarrow> bfc \<Rightarrow> bfc option" where
  "DeallocateChunk h s = do {
     s \<leftarrow> modify h (\<lambda>c. c\<lparr>next_chunk := free_chunks_list s\<rparr>) s;
     Some (s\<lparr>free_chunks_list := Some h\<rparr>) }"

subsection \<open>Bins\<close>

text \<open>The order of a bin, and \<open>std::set\<close> as the list of its elements in that order.\<close>

definition ChunkComparator :: "chunk list \<Rightarrow> nat \<Rightarrow> nat \<Rightarrow> bool" where
  "ChunkComparator cs ha hb =
    (let a = cs ! ha; b = cs ! hb in
     if chunk_size a \<noteq> chunk_size b then chunk_size a < chunk_size b else chunk_ptr a < chunk_ptr b)"

fun set_insert :: "('a \<Rightarrow> 'a \<Rightarrow> bool) \<Rightarrow> 'a \<Rightarrow> 'a list \<Rightarrow> 'a list" where
  "set_insert lt x [] = [x]"
| "set_insert lt x (y # ys) = (if lt x y then x # y # ys else if lt y x then y # set_insert lt x ys else y # ys)"

definition set_erase :: "('a \<Rightarrow> 'a \<Rightarrow> bool) \<Rightarrow> 'a \<Rightarrow> 'a list \<Rightarrow> 'a list" where
  "set_erase lt x ys = filter (\<lambda>y. lt x y \<or> lt y x) ys"

definition InsertFreeChunkIntoBin :: "nat \<Rightarrow> bfc \<Rightarrow> bfc option" where
  "InsertFreeChunkIntoBin h s = do {
     c \<leftarrow> ChunkFromHandle s h;
     check (\<not> in_use c \<and> bin_num c = None);
     let b = BinNumForSize (chunk_size c);
     s \<leftarrow> modify h (\<lambda>c. c\<lparr>bin_num := Some b\<rparr>) s;
     bin \<leftarrow> rd (bins s) (int b);
     check (\<forall>x\<in>set bin. x < length (chunks s));
     Some (s\<lparr>bins := (bins s)[b := set_insert (ChunkComparator (chunks s)) h bin]\<rparr>) }"

definition RemoveFreeChunkIterFromBin :: "nat \<Rightarrow> nat \<Rightarrow> bfc \<Rightarrow> bfc option" where
  "RemoveFreeChunkIterFromBin b h s = do {
     c \<leftarrow> ChunkFromHandle s h;
     check (\<not> in_use c \<and> bin_num c \<noteq> None);
     bin \<leftarrow> rd (bins s) (int b);
     modify h (\<lambda>c. c\<lparr>bin_num := None\<rparr>) (s\<lparr>bins := (bins s)[b := remove1 h bin]\<rparr>) }"

definition RemoveFreeChunkFromBin :: "nat \<Rightarrow> bfc \<Rightarrow> bfc option" where
  "RemoveFreeChunkFromBin h s = do {
     c \<leftarrow> ChunkFromHandle s h;
     check (\<not> in_use c);
     b \<leftarrow> bin_num c;
     bin \<leftarrow> rd (bins s) (int b);
     check (\<forall>x\<in>set bin. x < length (chunks s));
     let bin' = set_erase (ChunkComparator (chunks s)) h bin;
     check (length bin' < length bin);
     modify h (\<lambda>c. c\<lparr>bin_num := None\<rparr>) (s\<lparr>bins := (bins s)[b := bin']\<rparr>) }"

subsection \<open>Splitting and merging\<close>

definition SplitChunk :: "nat \<Rightarrow> nat \<Rightarrow> bfc \<Rightarrow> bfc option" where
  "SplitChunk h num_bytes s = do {
     (h_new, s) \<leftarrow> AllocateChunk s;
     c \<leftarrow> ChunkFromHandle s h;
     check (\<not> in_use c \<and> bin_num c = None);
     s \<leftarrow> modify h_new (\<lambda>n. n\<lparr>chunk_ptr := wrap64 (chunk_ptr c + num_bytes)\<rparr>) s;
     rs \<leftarrow> set_handle (wrap64 (chunk_ptr c + num_bytes)) (Some h_new) (regions s);
     let s = s\<lparr>regions := rs\<rparr>;
     s \<leftarrow> modify h_new (\<lambda>n. n\<lparr>chunk_size := sub64 (chunk_size c) num_bytes\<rparr>) s;
     s \<leftarrow> modify h (\<lambda>c. c\<lparr>chunk_size := num_bytes\<rparr>) s;
     s \<leftarrow> modify h_new (\<lambda>n. n\<lparr>allocation_id := -1\<rparr>) s;
     let h_neighbor = next_chunk c;
     s \<leftarrow> modify h_new (\<lambda>n. n\<lparr>prev_chunk := Some h, next_chunk := h_neighbor\<rparr>) s;
     s \<leftarrow> modify h (\<lambda>c. c\<lparr>next_chunk := Some h_new\<rparr>) s;
     s \<leftarrow> (case h_neighbor of None \<Rightarrow> Some s | Some n \<Rightarrow> modify n (\<lambda>c. c\<lparr>prev_chunk := Some h_new\<rparr>) s);
     InsertFreeChunkIntoBin h_new s }"

definition DeleteChunk :: "nat \<Rightarrow> bfc \<Rightarrow> bfc option" where
  "DeleteChunk h s = do {
     c \<leftarrow> ChunkFromHandle s h;
     rs \<leftarrow> set_handle (chunk_ptr c) None (regions s);
     DeallocateChunk h (s\<lparr>regions := rs\<rparr>) }"

definition Merge :: "nat \<Rightarrow> nat \<Rightarrow> bfc \<Rightarrow> bfc option" where
  "Merge h1 h2 s = do {
     c1 \<leftarrow> ChunkFromHandle s h1;
     c2 \<leftarrow> ChunkFromHandle s h2;
     check (\<not> in_use c1 \<and> \<not> in_use c2);
     let h3 = next_chunk c2;
     s \<leftarrow> modify h1 (\<lambda>c. c\<lparr>next_chunk := h3\<rparr>) s;
     check (prev_chunk c2 = Some h1);
     s \<leftarrow> (case h3 of None \<Rightarrow> Some s | Some h \<Rightarrow> modify h (\<lambda>c. c\<lparr>prev_chunk := Some h1\<rparr>) s);
     s \<leftarrow> modify h1 (\<lambda>c. c\<lparr>chunk_size := wrap64 (chunk_size c + chunk_size c2)\<rparr>) s;
     DeleteChunk h2 s }"

subsection \<open>Allocation\<close>

text \<open>The constructor, with the checks on the sizes of the bins.\<close>

definition BFCAllocator :: "nat \<Rightarrow> bool \<Rightarrow> bfc option" where
  "BFCAllocator total_memory allow_growth = do {
     check (\<forall>b\<in>set [0..<kNumBins]. let bin_size = BinNumToSize b in
       BinNumForSize bin_size = b \<and> BinNumForSize (wrap64 (bin_size + 255)) = b \<and>
       BinNumForSize (wrap64 (bin_size * 2 - 1)) = b \<and>
       (b + 1 < kNumBins \<longrightarrow> BinNumForSize (wrap64 (bin_size * 2)) \<noteq> b));
     Some \<lparr>memory_limit = total_memory, bins = replicate kNumBins [],
       curr_region_allocation_bytes =
         (if allow_growth then RoundedBytes (min total_memory 1048576) else RoundedBytes total_memory),
       total_region_allocated_bytes = 0, started_backpedal = False, regions = [], chunks = [], free_chunks_list = None,
       region_visitors = [], visits = [], next_allocation_id = 1,
       stats = \<lparr>num_allocs = 0, bytes_in_use = 0, max_bytes_in_use = 0, max_alloc_size = 0, bytes_limit = int total_memory\<rparr>\<rparr> }"

text \<open>The memory below: the answer of the \<open>n\<close>-th call of \<open>SubAllocator::Alloc\<close> within an \<open>Extend\<close> to a number of bytes, 0 when it
  fails.\<close>

type_synonym sub_alloc = "nat \<Rightarrow> nat \<Rightarrow> nat"

partial_function (option) grow_loop :: "nat \<Rightarrow> nat \<Rightarrow> bool \<Rightarrow> (nat \<times> bool) option" where
  "grow_loop rounded_bytes cur increased =
    (if cur < rounded_bytes then grow_loop rounded_bytes (wrap64 (cur * 2)) True else Some (cur, increased))"

partial_function (option) backpedal_loop :: "sub_alloc \<Rightarrow> nat \<Rightarrow> nat \<Rightarrow> nat \<Rightarrow> nat \<Rightarrow> (nat \<times> nat) option" where
  "backpedal_loop Alloc rounded_bytes n mem_addr bytes =
    (if mem_addr = 0 \<and> rounded_bytes < bytes
     then backpedal_loop Alloc rounded_bytes (n + 1) (Alloc n bytes) (RoundedBytes (backpedal bytes))
     else Some (mem_addr, bytes))"

declare grow_loop.simps [code] backpedal_loop.simps [code]

definition Extend :: "sub_alloc \<Rightarrow> nat \<Rightarrow> bfc \<Rightarrow> (bool \<times> bfc) option" where
  "Extend Alloc rounded_bytes s =
    (if memory_limit s < wrap64 (total_region_allocated_bytes s + rounded_bytes) then Some (False, s)
     else do {
       (cur, increased_allocation) \<leftarrow> grow_loop rounded_bytes (curr_region_allocation_bytes s) False;
       let s = s\<lparr>curr_region_allocation_bytes := cur\<rparr>;
       let mem_addr = Alloc 0 cur;
       (mem_addr, bytes, s) \<leftarrow>
         (if mem_addr = 0 \<and> \<not> started_backpedal s then do {
            (mem_addr, bytes) \<leftarrow> backpedal_loop Alloc rounded_bytes 1 mem_addr (RoundedBytes (backpedal cur));
            Some (mem_addr, bytes, s\<lparr>started_backpedal := True\<rparr>) }
          else Some (mem_addr, cur, s));
       if mem_addr = 0 then Some (False, s)
       else do {
         let s = (if increased_allocation then s
                  else s\<lparr>curr_region_allocation_bytes := wrap64 (curr_region_allocation_bytes s * 2)\<rparr>);
         let s = s\<lparr>total_region_allocated_bytes := wrap64 (total_region_allocated_bytes s + bytes),
                   regions := AddAllocationRegion mem_addr bytes (regions s)\<rparr>;
         (h, s) \<leftarrow> AllocateChunk s;
         s \<leftarrow> modify h (\<lambda>c. c\<lparr>chunk_ptr := mem_addr, chunk_size := bytes, allocation_id := -1, prev_chunk := None,
                            next_chunk := None\<rparr>) s;
         rs \<leftarrow> set_handle mem_addr (Some h) (regions s);
         s \<leftarrow> InsertFreeChunkIntoBin h (s\<lparr>regions := rs\<rparr>);
         Some (True, s\<lparr>visits := visits s @ map (\<lambda>v. (v, mem_addr, bytes)) (region_visitors s)\<rparr>) } })"

fun scan_bin :: "bfc \<Rightarrow> nat \<Rightarrow> nat list \<Rightarrow> nat option option" where
  "scan_bin s rounded_bytes [] = Some None"
| "scan_bin s rounded_bytes (h # hs) = do {
     chunk \<leftarrow> ChunkFromHandle s h;
     if rounded_bytes \<le> chunk_size chunk then Some (Some h) else scan_bin s rounded_bytes hs }"

fun scan_bins :: "bfc \<Rightarrow> nat \<Rightarrow> nat list \<Rightarrow> (nat \<times> nat) option option" where
  "scan_bins s rounded_bytes [] = Some None"
| "scan_bins s rounded_bytes (b # bs) = do {
     bin \<leftarrow> rd (bins s) (int b);
     found \<leftarrow> scan_bin s rounded_bytes bin;
     (case found of Some h \<Rightarrow> Some (Some (b, h)) | None \<Rightarrow> scan_bins s rounded_bytes bs) }"

definition FindChunkPtr :: "nat \<Rightarrow> nat \<Rightarrow> nat \<Rightarrow> bfc \<Rightarrow> (nat \<times> bfc) option" where
  "FindChunkPtr bin rounded_bytes num_bytes s = do {
     found \<leftarrow> scan_bins s rounded_bytes [bin..<kNumBins];
     (case found of
        None \<Rightarrow> Some (0, s)
      | Some (b, h) \<Rightarrow> do {
          s \<leftarrow> RemoveFreeChunkIterFromBin b h s;
          chunk \<leftarrow> ChunkFromHandle s h;
          s \<leftarrow> (if wrap64 (rounded_bytes * 2) \<le> chunk_size chunk then SplitChunk h rounded_bytes s else Some s);
          chunk \<leftarrow> ChunkFromHandle s h;
          s \<leftarrow> modify h (\<lambda>c. c\<lparr>requested_size := num_bytes, allocation_id := next_allocation_id s\<rparr>) s;
          let st = stats s;
          let used = bytes_in_use st + int (chunk_size chunk);
          Some (chunk_ptr chunk, s\<lparr>next_allocation_id := next_allocation_id s + 1,
            stats := st\<lparr>num_allocs := num_allocs st + 1, bytes_in_use := used, max_bytes_in_use := max (max_bytes_in_use st) used,
              max_alloc_size := max (max_alloc_size st) (int (chunk_size chunk))\<rparr>\<rparr>) }) }"

definition AllocateRawInternal :: "sub_alloc \<Rightarrow> nat \<Rightarrow> bfc \<Rightarrow> (nat \<times> bfc) option" where
  "AllocateRawInternal Alloc num_bytes s =
    (if num_bytes = 0 then Some (0, s)
     else do {
       let rounded_bytes = RoundedBytes num_bytes;
       let bin = BinNumForSize rounded_bytes;
       (ptr, s) \<leftarrow> FindChunkPtr bin rounded_bytes num_bytes s;
       if ptr \<noteq> 0 then Some (ptr, s)
       else do {
         (extended, s) \<leftarrow> Extend Alloc rounded_bytes s;
         if extended then FindChunkPtr bin rounded_bytes num_bytes s else Some (0, s) } })"

subsection \<open>Deallocation and queries\<close>

definition FreeAndMaybeCoalesce :: "nat \<Rightarrow> bfc \<Rightarrow> bfc option" where
  "FreeAndMaybeCoalesce h s = do {
     c \<leftarrow> ChunkFromHandle s h;
     check (in_use c \<and> bin_num c = None);
     s \<leftarrow> modify h (\<lambda>c. c\<lparr>allocation_id := -1\<rparr>) s;
     let s = s\<lparr>stats := (stats s)\<lparr>bytes_in_use := bytes_in_use (stats s) - int (chunk_size c)\<rparr>\<rparr>;
     s \<leftarrow> (case next_chunk c of
         None \<Rightarrow> Some s
       | Some n \<Rightarrow> do {
           cnext \<leftarrow> ChunkFromHandle s n;
           if in_use cnext then Some s
           else do { s \<leftarrow> RemoveFreeChunkFromBin n s; Merge h n s } });
     c \<leftarrow> ChunkFromHandle s h;
     (chunk_to_reassign, s) \<leftarrow> (case prev_chunk c of
         None \<Rightarrow> Some (h, s)
       | Some p \<Rightarrow> do {
           cprev \<leftarrow> ChunkFromHandle s p;
           if in_use cprev then Some (h, s)
           else do { s \<leftarrow> RemoveFreeChunkFromBin p s; s \<leftarrow> Merge p h s; Some (p, s) } });
     InsertFreeChunkIntoBin chunk_to_reassign s }"

definition DeallocateRawInternal :: "nat \<Rightarrow> bfc \<Rightarrow> bfc option" where
  "DeallocateRawInternal ptr s =
    (if ptr = 0 then Some s
     else do {
       h \<leftarrow> get_handle (regions s) ptr;
       h \<leftarrow> h;
       FreeAndMaybeCoalesce h s })"

definition ChunkAt :: "nat \<Rightarrow> bfc \<Rightarrow> chunk option" where
  "ChunkAt ptr s = do { h \<leftarrow> get_handle (regions s) ptr; h \<leftarrow> h; ChunkFromHandle s h }"

definition RequestedSize :: "nat \<Rightarrow> bfc \<Rightarrow> nat option" where
  "RequestedSize ptr s = map_option requested_size (ChunkAt ptr s)"

definition AllocatedSize :: "nat \<Rightarrow> bfc \<Rightarrow> nat option" where
  "AllocatedSize ptr s = map_option chunk_size (ChunkAt ptr s)"

definition AllocationId :: "nat \<Rightarrow> bfc \<Rightarrow> int option" where
  "AllocationId ptr s = map_option allocation_id (ChunkAt ptr s)"

definition AddAllocVisitor :: "nat \<Rightarrow> bfc \<Rightarrow> bfc" where
  "AddAllocVisitor visitor s =
    s\<lparr>region_visitors := region_visitors s @ [visitor], visits := visits s @ map (\<lambda>r. (visitor, region_ptr r, memory_size r)) (regions s)\<rparr>"

definition GetStats :: "bfc \<Rightarrow> stats" where
  "GetStats s = stats s"

end
