(* ===== verification/BfcHeap.thy ===== *)
theory BfcHeap
  imports BfcAllocator
begin

text \<open>
  The heap of the best-fit allocator: the chunks of a region tile it, in the order of the links, the array of handles
  points to their first bytes, the bins hold the free chunks in order, and what the steps of splitting and merging
  do to it.
\<close>

subsection \<open>Sizes\<close>

lemma wrap64_small [simp]: "n < 2 ^ 64 \<Longrightarrow> wrap64 n = n"
  by (simp add: wrap64_def)

lemma wrap64_less [simp]: "wrap64 n < 2 ^ 64"
  by (simp add: wrap64_def)

lemma sub64_small [simp]: "n \<le> m \<Longrightarrow> m < 2 ^ 64 \<Longrightarrow> sub64 m n = m - n"
proof -
  assume a: "n \<le> m" "m < 2 ^ 64"
  then have "m + (2 ^ 64 - wrap64 n) = (m - n) + 2 ^ 64" by simp
  then have "sub64 m n = (m - n) mod 2 ^ 64" unfolding sub64_def wrap64_def [of "m + _"] by (simp only: mod_add_self2)
  then show ?thesis using a by simp
qed

lemma RoundedBytes_eq:
  assumes "n + 255 < 2 ^ 64"
  shows "RoundedBytes n = 256 * ((n + 255) div 256)" "n \<le> RoundedBytes n" "RoundedBytes n < n + 256" "256 dvd RoundedBytes n"
proof -
  have "256 * ((n + 255) div 256) \<le> n + 255" by simp
  then show e: "RoundedBytes n = 256 * ((n + 255) div 256)"
    using assms by (simp add: RoundedBytes_def kMinAllocationSize_def)
  show "n \<le> RoundedBytes n" "RoundedBytes n < n + 256" "256 dvd RoundedBytes n"
    unfolding e by (simp_all add: e)
qed

lemma RoundedBytes_multiple: "256 dvd n \<Longrightarrow> n + 255 < 2 ^ 64 \<Longrightarrow> RoundedBytes n = n"
  using RoundedBytes_eq(1) [of n] by (auto elim!: dvdE)

lemma Log2FloorNonZero_eq: "n \<noteq> 0 \<Longrightarrow> Log2FloorNonZero n = Log2Floor64 n"
  by (simp add: Log2FloorNonZero_def Log2Floor64_def)

lemma BinNumForSize_is_log2:
  assumes "256 \<le> n" "n < 2 ^ 64"
  shows "\<exists>l. is_log2 l (n div 256) \<and> BinNumForSize n = min 20 (nat l)"
proof -
  let ?v = "word_of_nat (n div 256) :: u64"
  have "n div 256 < 2 ^ 64" using assms(2) by simp
  then have u: "unat ?v = n div 256" by (simp add: unsigned_of_nat take_bit_nat_eq_self)
  have "n div 256 \<noteq> 0" using assms(1) by simp
  then have nz: "?v \<noteq> 0" using u by fastforce
  have l: "is_log2 (Log2Floor64 ?v) (n div 256)" using Log2Floor64_is_log2 [OF nz] u by simp
  moreover have "BinNumForSize n = min 20 (nat (Log2Floor64 ?v))"
    using assms(1) Log2FloorNonZero_eq [OF nz] by (simp add: BinNumForSize_def kMinAllocationBits_def kNumBins_def Let_def max_def min_def) linarith
  ultimately show ?thesis by blast
qed

lemma BinNumForSize_less [simp]: "BinNumForSize n < kNumBins"
  by (simp add: BinNumForSize_def kNumBins_def Let_def)

lemma BinNumForSize_mono:
  assumes "256 \<le> m" "m \<le> n" "n < 2 ^ 64"
  shows "BinNumForSize m \<le> BinNumForSize n"
proof -
  obtain k where k: "is_log2 k (m div 256)" "BinNumForSize m = min 20 (nat k)"
    using BinNumForSize_is_log2 [of m] assms by auto
  obtain l where l: "is_log2 l (n div 256)" "BinNumForSize n = min 20 (nat l)"
    using BinNumForSize_is_log2 [of n] assms by auto
  have "2 ^ nat k \<le> n div 256" using k(1) div_le_mono [OF assms(2), of 256] by (auto simp: is_log2_def)
  then have "(2::nat) ^ nat k < 2 ^ Suc (nat l)" using l(1) by (auto simp: is_log2_def)
  then have "nat k < Suc (nat l)" by (rule power_less_imp_less_exp [rotated]) simp
  then show ?thesis by (simp add: k l)
qed

text \<open>Chunks of one bin, other than the last, are smaller than those of a later bin.\<close>

lemma BinNumForSize_less_size:
  assumes "256 \<le> m" "256 \<le> n" "m < 2 ^ 64" "n < 2 ^ 64" "BinNumForSize m < BinNumForSize n"
  shows "m < n"
  using BinNumForSize_mono [of n m] assms by fastforce

subsection \<open>Chunks that tile a stretch of memory\<close>

definition hdo :: "nat list \<Rightarrow> nat option \<Rightarrow> nat option" where
  "hdo hs nx = (case hs of [] \<Rightarrow> nx | h # _ \<Rightarrow> Some h)"

definition lasto :: "nat list \<Rightarrow> nat option \<Rightarrow> nat option" where
  "lasto hs pr = (if hs = [] then pr else Some (last hs))"

lemma hdo_simps [simp]: "hdo [] nx = nx" "hdo (h # hs) nx = Some h"
  by (simp_all add: hdo_def)

lemma lasto_simps [simp]: "lasto [] pr = pr" "lasto (h # hs) pr = lasto hs (Some h)" "lasto (hs @ [h]) pr = Some h"
  by (simp_all add: lasto_def)

definition chunk_end :: "chunk \<Rightarrow> nat" where "chunk_end c = chunk_ptr c + chunk_size c"

text \<open>The chunks \<open>hs\<close>, between the neighbours \<open>pr\<close> and \<open>nx\<close>, fill the addresses from \<open>a\<close> to \<open>e\<close>.\<close>

fun tiles :: "chunk list \<Rightarrow> nat option \<Rightarrow> nat \<Rightarrow> nat list \<Rightarrow> nat option \<Rightarrow> nat \<Rightarrow> bool" where
  "tiles cs pr a [] nx e \<longleftrightarrow> a = e"
| "tiles cs pr a (h # hs) nx e \<longleftrightarrow>
     chunk_ptr (cs ! h) = a \<and> prev_chunk (cs ! h) = pr \<and> next_chunk (cs ! h) = hdo hs nx \<and>
     0 < chunk_size (cs ! h) \<and> 256 dvd chunk_size (cs ! h) \<and> tiles cs (Some h) (chunk_end (cs ! h)) hs nx e"

lemma hdo_append: "hdo (xs @ ys) nx = hdo xs (hdo ys nx)"
  by (cases xs) simp_all

lemma tiles_append:
  "tiles cs pr a (xs @ ys) nx e \<longleftrightarrow> (\<exists>m. tiles cs pr a xs (hdo ys nx) m \<and> tiles cs (lasto xs pr) m ys nx e)"
  by (induction xs arbitrary: pr a) (auto simp: hdo_append)

definition same_link :: "chunk \<Rightarrow> chunk \<Rightarrow> bool" where
  "same_link c d \<longleftrightarrow> chunk_ptr d = chunk_ptr c \<and> chunk_size d = chunk_size c \<and> prev_chunk d = prev_chunk c \<and> next_chunk d = next_chunk c"

lemma same_link_refl [simp]: "same_link c c"
  by (simp add: same_link_def)

lemma tiles_cong:
  assumes "\<And>h. h \<in> set hs \<Longrightarrow> same_link (cs ! h) (cs' ! h)"
  shows "tiles cs' pr a hs nx e \<longleftrightarrow> tiles cs pr a hs nx e"
  using assms by (induction hs arbitrary: pr a) (simp_all add: same_link_def chunk_end_def)

lemma tiles_end: "tiles cs pr a hs nx e \<Longrightarrow> a \<le> e \<and> 256 dvd e - a"
proof (induction hs arbitrary: pr a)
  case (Cons h hs)
  then have "chunk_end (cs ! h) \<le> e \<and> 256 dvd e - chunk_end (cs ! h)" "chunk_end (cs ! h) = a + chunk_size (cs ! h)"
    "256 dvd chunk_size (cs ! h)"
    by (auto simp: chunk_end_def)
  moreover from this have "e - a = (e - chunk_end (cs ! h)) + chunk_size (cs ! h)" by simp
  ultimately show ?case by (metis dvd_add le_add1 le_trans)
qed simp

lemma tiles_bounds:
  assumes "tiles cs pr a hs nx e" "h \<in> set hs"
  shows "a \<le> chunk_ptr (cs ! h)" "chunk_end (cs ! h) \<le> e" "256 dvd chunk_ptr (cs ! h) - a" "0 < chunk_size (cs ! h)"
    "256 dvd chunk_size (cs ! h)"
proof -
  obtain xs ys where hs: "hs = xs @ h # ys" using assms(2) by (auto simp: in_set_conv_decomp)
  obtain m where m: "tiles cs pr a xs (Some h) m" "tiles cs (lasto xs pr) m (h # ys) nx e"
    using assms(1) unfolding hs tiles_append by auto
  have "a \<le> m \<and> 256 dvd m - a" using m(1) by (rule tiles_end)
  then show "a \<le> chunk_ptr (cs ! h)" "256 dvd chunk_ptr (cs ! h) - a" using m(2) by simp_all
  show "chunk_end (cs ! h) \<le> e" "0 < chunk_size (cs ! h)" "256 dvd chunk_size (cs ! h)" using m(2) tiles_end by auto
qed

text \<open>Different chunks do not overlap.\<close>

lemma tiles_order:
  assumes "tiles cs pr a (xs @ h # ys) nx e"
  shows "\<forall>x\<in>set xs. chunk_end (cs ! x) \<le> chunk_ptr (cs ! h)" "\<forall>y\<in>set ys. chunk_end (cs ! h) \<le> chunk_ptr (cs ! y)"
proof -
  obtain m where m: "tiles cs pr a xs (Some h) m" "tiles cs (lasto xs pr) m (h # ys) nx e"
    using assms unfolding tiles_append by auto
  show "\<forall>x\<in>set xs. chunk_end (cs ! x) \<le> chunk_ptr (cs ! h)" using tiles_bounds(2) [OF m(1)] m(2) by simp
  show "\<forall>y\<in>set ys. chunk_end (cs ! h) \<le> chunk_ptr (cs ! y)" using m(2) tiles_bounds(1) by fastforce
qed

lemma tiles_disjoint:
  assumes "tiles cs pr a hs nx e" "h \<in> set hs" "k \<in> set hs" "h \<noteq> k"
  shows "chunk_end (cs ! h) \<le> chunk_ptr (cs ! k) \<or> chunk_end (cs ! k) \<le> chunk_ptr (cs ! h)"
proof -
  obtain xs ys where hs: "hs = xs @ h # ys" using assms(2) by (auto simp: in_set_conv_decomp)
  then have "k \<in> set xs \<or> k \<in> set ys" using assms by auto
  then show ?thesis using tiles_order [of cs pr a xs h ys nx e] assms(1) hs by blast
qed

subsection \<open>Regions\<close>

definition handles_ok :: "chunk list \<Rightarrow> nat list \<Rightarrow> region \<Rightarrow> bool" where
  "handles_ok cs hs r \<longleftrightarrow> length (handles r) = memory_size r div 256 \<and>
    (\<forall>j h. j < memory_size r div 256 \<longrightarrow> (handles r ! j = Some h \<longleftrightarrow> h \<in> set hs \<and> chunk_ptr (cs ! h) = region_ptr r + 256 * j))"

definition region_ok :: "chunk list \<Rightarrow> region \<Rightarrow> nat list \<Rightarrow> bool" where
  "region_ok cs r hs \<longleftrightarrow>
    0 < region_ptr r \<and> end_ptr r = region_ptr r + memory_size r \<and> end_ptr r < 2 ^ 64 \<and> memory_size r < 2 ^ 39 \<and>
    tiles cs None (region_ptr r) hs None (end_ptr r) \<and> handles_ok cs hs r"

lemma region_ok_tiles: "region_ok cs r hs \<Longrightarrow> tiles cs None (region_ptr r) hs None (end_ptr r)"
  unfolding region_ok_def by blast

lemma region_ok_cong:
  assumes "\<And>h. h \<in> set hs \<Longrightarrow> same_link (cs ! h) (cs' ! h)"
  shows "region_ok cs' r hs \<longleftrightarrow> region_ok cs r hs"
  using assms tiles_cong [OF assms, of hs] unfolding region_ok_def handles_ok_def
  by (simp add: same_link_def cong: conj_cong)

lemma to_int32_small: "n < 2 ^ 31 \<Longrightarrow> to_int32 n = int n"
  by (simp add: to_int32_def)

lemma IndexFor_eq:
  assumes "region_ok cs r hs" "region_ptr r \<le> p" "p < end_ptr r"
  shows "IndexFor r p = int ((p - region_ptr r) div 256)" "(p - region_ptr r) div 256 < length (handles r)"
proof -
  have r: "end_ptr r = region_ptr r + memory_size r" "end_ptr r < 2 ^ 64" "memory_size r < 2 ^ 39" "256 dvd memory_size r"
    "length (handles r) = memory_size r div 256"
    using assms(1) by (auto simp: region_ok_def handles_ok_def dest!: tiles_end)
  then have "(p - region_ptr r) div 256 < memory_size r div 256"
    using assms(2,3) by (intro less_mult_imp_div_less) auto
  moreover have "memory_size r div 256 < 2 ^ 31" using r(3) by simp
  ultimately show "(p - region_ptr r) div 256 < length (handles r)" "IndexFor r p = int ((p - region_ptr r) div 256)"
    using r assms(2,3) by (simp_all add: IndexFor_def kMinAllocationBits_def to_int32_small)
qed

definition regions_sorted :: "region list \<Rightarrow> bool" where
  "regions_sorted rs \<longleftrightarrow> sorted_wrt (\<lambda>r r'. end_ptr r \<le> region_ptr r') rs"

lemma get_handle_at:
  assumes "regions_sorted (R1 @ r # R2)" "region_ok cs r hs" "region_ptr r \<le> p" "p < end_ptr r"
  shows "get_handle (R1 @ r # R2) p = Some (handles r ! ((p - region_ptr r) div 256))"
  using assms
proof (induction R1)
  case Nil
  then show ?case using IndexFor_eq [OF assms(2-4)] by (simp add: array_simps)
next
  case (Cons q R1)
  then have "end_ptr q \<le> p" by (auto simp: regions_sorted_def)
  with Cons show ?case by (simp add: regions_sorted_def)
qed

lemma set_handle_at:
  assumes "regions_sorted (R1 @ r # R2)" "region_ok cs r hs" "region_ptr r \<le> p" "p < end_ptr r"
  shows "set_handle p v (R1 @ r # R2) = Some (R1 @ r\<lparr>handles := (handles r)[(p - region_ptr r) div 256 := v]\<rparr> # R2)"
  using assms
proof (induction R1)
  case Nil
  then show ?case using IndexFor_eq [OF assms(2-4)] by (simp add: array_simps)
next
  case (Cons q R1)
  then have "end_ptr q \<le> p" by (auto simp: regions_sorted_def)
  with Cons show ?case by (simp add: regions_sorted_def)
qed

lemma handle_index:
  assumes "region_ok cs r hs" "h \<in> set hs"
  obtains j where "chunk_ptr (cs ! h) = region_ptr r + 256 * j" "(chunk_ptr (cs ! h) - region_ptr r) div 256 = j"
    "j < memory_size r div 256" "region_ptr r \<le> chunk_ptr (cs ! h)" "chunk_ptr (cs ! h) < end_ptr r" "handles r ! j = Some h"
proof -
  have r: "tiles cs None (region_ptr r) hs None (end_ptr r)" "end_ptr r = region_ptr r + memory_size r" "handles_ok cs hs r"
    using assms(1) by (auto simp: region_ok_def)
  note b = tiles_bounds [OF r(1) assms(2)]
  define j where "j = (chunk_ptr (cs ! h) - region_ptr r) div 256"
  have p: "chunk_ptr (cs ! h) = region_ptr r + 256 * j" using b(1,3) by (simp add: j_def)
  have "256 * j < memory_size r" "256 dvd memory_size r"
    using b p r(2) tiles_end [OF r(1)] by (simp_all add: chunk_end_def)
  then have j: "j < memory_size r div 256" by (auto elim!: dvdE)
  have "handles r ! j = Some h" using r(3) assms(2) p j by (simp add: handles_ok_def)
  then show thesis using that [of j] p j b(1,2,4) by (simp add: chunk_end_def)
qed

lemma get_handle_chunk:
  assumes "regions_sorted (R1 @ r # R2)" "region_ok cs r hs" "h \<in> set hs"
  shows "get_handle (R1 @ r # R2) (chunk_ptr (cs ! h)) = Some (Some h)"
proof -
  obtain j where "(chunk_ptr (cs ! h) - region_ptr r) div 256 = j" "region_ptr r \<le> chunk_ptr (cs ! h)"
    "chunk_ptr (cs ! h) < end_ptr r" "handles r ! j = Some h"
    using handle_index [OF assms(2,3)] by metis
  with get_handle_at [OF assms(1,2)] show ?thesis by simp
qed

lemma handles_ok_add:
  assumes "handles_ok cs hs r" "j < memory_size r div 256" "set hs' = insert h (set hs)" "h \<notin> set hs"
    and "\<And>k. k \<in> set hs \<Longrightarrow> chunk_ptr (cs' ! k) = chunk_ptr (cs ! k) \<and> chunk_ptr (cs ! k) \<noteq> region_ptr r + 256 * j"
    and "chunk_ptr (cs' ! h) = region_ptr r + 256 * j"
  shows "handles_ok cs' hs' (r\<lparr>handles := (handles r)[j := Some h]\<rparr>)"
  unfolding handles_ok_def
proof (intro conjI allI impI)
  fix i k assume i: "i < memory_size (r\<lparr>handles := (handles r)[j := Some h]\<rparr>) div 256"
  then have l: "i < length (handles r)" and old: "\<And>k. handles r ! i = Some k \<longleftrightarrow> k \<in> set hs \<and> chunk_ptr (cs ! k) = region_ptr r + 256 * i"
    using assms(1) by (auto simp: handles_ok_def)
  show "handles (r\<lparr>handles := (handles r)[j := Some h]\<rparr>) ! i = Some k \<longleftrightarrow>
      k \<in> set hs' \<and> chunk_ptr (cs' ! k) = region_ptr (r\<lparr>handles := (handles r)[j := Some h]\<rparr>) + 256 * i"
    using l old [of k] assms(3-6) by (cases "i = j") (auto simp: nth_list_update)
qed (use assms(1) in \<open>simp add: handles_ok_def\<close>)

lemma handles_ok_remove:
  assumes "handles_ok cs hs r" "j < memory_size r div 256" "set hs' = set hs - {h}" "h \<in> set hs"
    and "\<And>k. k \<in> set hs \<Longrightarrow> k \<noteq> h \<Longrightarrow> chunk_ptr (cs' ! k) = chunk_ptr (cs ! k) \<and> chunk_ptr (cs ! k) \<noteq> region_ptr r + 256 * j"
    and "chunk_ptr (cs ! h) = region_ptr r + 256 * j"
  shows "handles_ok cs' hs' (r\<lparr>handles := (handles r)[j := None]\<rparr>)"
  unfolding handles_ok_def
proof (intro conjI allI impI)
  fix i k assume i: "i < memory_size (r\<lparr>handles := (handles r)[j := None]\<rparr>) div 256"
  then have l: "i < length (handles r)" and old: "\<And>k. handles r ! i = Some k \<longleftrightarrow> k \<in> set hs \<and> chunk_ptr (cs ! k) = region_ptr r + 256 * i"
    using assms(1) by (auto simp: handles_ok_def)
  show "handles (r\<lparr>handles := (handles r)[j := None]\<rparr>) ! i = Some k \<longleftrightarrow>
      k \<in> set hs' \<and> chunk_ptr (cs' ! k) = region_ptr (r\<lparr>handles := (handles r)[j := None]\<rparr>) + 256 * i"
  proof (cases "i = j")
    case True
    have "chunk_ptr (cs' ! k) \<noteq> region_ptr r + 256 * j" if "k \<in> set hs'"
    proof -
      have "k \<in> set hs" "k \<noteq> h" using that unfolding assms(3) by blast+
      then show ?thesis using assms(5) by simp
    qed
    then show ?thesis using l True by auto
  next
    case False
    have mem: "k \<in> set hs' \<longleftrightarrow> k \<in> set hs \<and> k \<noteq> h" using assms(3) by auto
    have at: "handles r ! i = Some k \<longleftrightarrow> k \<in> set hs \<and> chunk_ptr (cs ! k) = region_ptr r + 256 * i" by (rule old)
    show ?thesis
    proof (cases "k = h")
      case True
      then show ?thesis using at False assms(6) mem by simp
    next
      case ne: False
      then have "k \<in> set hs \<Longrightarrow> chunk_ptr (cs' ! k) = chunk_ptr (cs ! k)" using assms(5) by blast
      then show ?thesis using at False mem ne by auto
    qed
  qed
qed (use assms(1) in \<open>simp add: handles_ok_def\<close>)

subsection \<open>The order of a bin\<close>

lemma comparator_trans: "ChunkComparator cs a b \<Longrightarrow> ChunkComparator cs b c \<Longrightarrow> ChunkComparator cs a c"
  by (auto simp: ChunkComparator_def Let_def split: if_splits)

lemma comparator_irrefl: "\<not> ChunkComparator cs a a"
  by (simp add: ChunkComparator_def)

lemma comparator_total: "chunk_ptr (cs ! a) \<noteq> chunk_ptr (cs ! b) \<Longrightarrow> ChunkComparator cs a b \<or> ChunkComparator cs b a"
  by (auto simp: ChunkComparator_def Let_def)

lemma comparator_cong:
  assumes "same_link (cs ! a) (cs' ! a)" "same_link (cs ! b) (cs' ! b)"
  shows "ChunkComparator cs' a b \<longleftrightarrow> ChunkComparator cs a b"
  using assms by (simp add: ChunkComparator_def same_link_def Let_def)

lemma bin_cong:
  assumes "\<And>h. h \<in> set xs \<Longrightarrow> same_link (cs ! h) (cs' ! h)"
  shows "sorted_wrt (ChunkComparator cs') xs \<longleftrightarrow> sorted_wrt (ChunkComparator cs) xs"
  using assms by (induction xs) (auto simp: comparator_cong [of cs _ cs'])

lemma bin_remove1: "sorted_wrt P xs \<Longrightarrow> sorted_wrt P (remove1 x xs)"
  by (induction xs) (auto dest: set_remove1_subset [THEN subsetD])

lemma bin_distinct: "sorted_wrt (ChunkComparator cs) xs \<Longrightarrow> distinct xs"
  by (induction xs) (auto simp: comparator_irrefl)

lemma set_insert_bin:
  assumes "sorted_wrt (ChunkComparator cs) xs" "\<And>x. x \<in> set xs \<Longrightarrow> chunk_ptr (cs ! x) \<noteq> chunk_ptr (cs ! h)"
  shows "set (set_insert (ChunkComparator cs) h xs) = insert h (set xs)"
    "sorted_wrt (ChunkComparator cs) (set_insert (ChunkComparator cs) h xs)"
proof -
  have "set (set_insert (ChunkComparator cs) h xs) = insert h (set xs) \<and>
    sorted_wrt (ChunkComparator cs) (set_insert (ChunkComparator cs) h xs)"
    using assms
  proof (induction xs)
    case (Cons x xs)
    then show ?case
      using comparator_total [of cs x h] comparator_trans [of cs h x] by (auto simp: comparator_irrefl)
  qed simp
  then show "set (set_insert (ChunkComparator cs) h xs) = insert h (set xs)"
    "sorted_wrt (ChunkComparator cs) (set_insert (ChunkComparator cs) h xs)" by blast+
qed

lemma set_erase_bin:
  assumes "sorted_wrt (ChunkComparator cs) xs" "\<And>x. x \<in> set xs \<Longrightarrow> x \<noteq> h \<Longrightarrow> chunk_ptr (cs ! x) \<noteq> chunk_ptr (cs ! h)"
  shows "set_erase (ChunkComparator cs) h xs = remove1 h xs"
proof -
  have "set_erase (ChunkComparator cs) h xs = filter (\<lambda>x. x \<noteq> h) xs"
    unfolding set_erase_def
    by (intro filter_cong refl) (use assms(2) comparator_total comparator_irrefl in metis)
  then show ?thesis using bin_distinct [OF assms(1)] by (simp add: distinct_remove1_removeAll removeAll_filter_not_eq) (metis)
qed

subsection \<open>The heap\<close>

text \<open>The free list of the vector.\<close>

fun flist :: "chunk list \<Rightarrow> nat option \<Rightarrow> nat list \<Rightarrow> bool" where
  "flist cs l [] \<longleftrightarrow> l = None"
| "flist cs l (h # hs) \<longleftrightarrow> l = Some h \<and> flist cs (next_chunk (cs ! h)) hs"

lemma flist_cong: "(\<And>h. h \<in> set hs \<Longrightarrow> cs' ! h = cs ! h) \<Longrightarrow> flist cs' l hs \<longleftrightarrow> flist cs l hs"
  by (induction hs arbitrary: l) simp_all

text \<open>The slots of the vector are the chunks of the regions, one list \<open>hs\<close> per region, the unused slots \<open>fs\<close> of the free list, and
  the slots \<open>ls\<close> that an operation has taken from the free list or is about to return.\<close>

definition members :: "nat list list \<Rightarrow> nat set" where "members hss = set (concat hss)"

lemma members_simps [simp]: "members [] = {}" "members (hs # hss) = set hs \<union> members hss" "members (xs @ ys) = members xs \<union> members ys"
  by (simp_all add: members_def)

lemma members_split: "k \<in> members hss \<Longrightarrow> \<exists>H1 hs H2. hss = H1 @ hs # H2 \<and> k \<in> set hs"
  by (simp add: members_def) (meson split_list)

lemma members_nth: "k \<in> members hss \<longleftrightarrow> (\<exists>i<length hss. k \<in> set (hss ! i))"
  by (simp add: members_def) (metis in_set_conv_nth)

definition slots_ok :: "nat list \<Rightarrow> bfc \<Rightarrow> nat list list \<Rightarrow> nat list \<Rightarrow> bool" where
  "slots_ok ls s hss fs \<longleftrightarrow>
    list_all2 (region_ok (chunks s)) (regions s) hss \<and> regions_sorted (regions s) \<and>
    distinct (ls @ concat hss @ fs) \<and> set ls \<union> members hss \<union> set fs = {..<length (chunks s)} \<and>
    flist (chunks s) (free_chunks_list s) fs \<and> (\<forall>h\<in>set ls \<union> set fs. \<not> in_use (chunks s ! h) \<and> bin_num (chunks s ! h) = None)"

text \<open>The bins hold the free chunks, but for those in \<open>F\<close>, which an operation is working on.\<close>

definition bins_ok :: "nat set \<Rightarrow> bfc \<Rightarrow> nat set \<Rightarrow> bool" where
  "bins_ok F s H \<longleftrightarrow>
    length (bins s) = kNumBins \<and>
    (\<forall>b<kNumBins. sorted_wrt (ChunkComparator (chunks s)) (bins s ! b) \<and> set (bins s ! b) = {h \<in> H. bin_num (chunks s ! h) = Some b}) \<and>
    (\<forall>h\<in>H. bin_num (chunks s ! h) = (if in_use (chunks s ! h) \<or> h \<in> F then None else Some (BinNumForSize (chunk_size (chunks s ! h))))) \<and>
    F \<subseteq> H \<and> (\<forall>h\<in>F. \<not> in_use (chunks s ! h))"

definition heap_ok :: "nat set \<Rightarrow> nat list \<Rightarrow> bfc \<Rightarrow> nat list list \<Rightarrow> nat list \<Rightarrow> bool" where
  "heap_ok F ls s hss fs \<longleftrightarrow> slots_ok ls s hss fs \<and> bins_ok F s (members hss)"

lemma slots_disjoint:
  assumes "slots_ok ls s hss fs"
  shows "set ls \<inter> members hss = {}" "set fs \<inter> members hss = {}" "set ls \<inter> set fs = {}" "distinct ls" "distinct (concat hss)" "distinct fs"
  using assms by (auto simp: slots_ok_def members_def)

lemma slot_less: "slots_ok ls s hss fs \<Longrightarrow> h \<in> members hss \<Longrightarrow> h < length (chunks s)"
  unfolding slots_ok_def by fastforce

lemma region_of:
  assumes "slots_ok ls s hss fs" "h \<in> members hss"
  obtains R1 r R2 H1 hs H2 where "regions s = R1 @ r # R2" "hss = H1 @ hs # H2" "length R1 = length H1" "h \<in> set hs"
    "region_ok (chunks s) r hs" "list_all2 (region_ok (chunks s)) R1 H1" "list_all2 (region_ok (chunks s)) R2 H2"
proof -
  obtain H1 hs H2 where H: "hss = H1 @ hs # H2" "h \<in> set hs" using members_split [OF assms(2)] by blast
  have "list_all2 (region_ok (chunks s)) (regions s) (H1 @ hs # H2)" using assms(1) H by (simp add: slots_ok_def)
  then obtain R1 r R2 where "regions s = R1 @ r # R2" "list_all2 (region_ok (chunks s)) R1 H1" "region_ok (chunks s) r hs"
    "list_all2 (region_ok (chunks s)) R2 H2"
    by (auto simp: list_all2_append2 list_all2_Cons2)
  with that H list_all2_lengthD show thesis by blast
qed

lemma chunk_bounds:
  assumes "slots_ok ls s hss fs" "h \<in> members hss"
  shows "0 < chunk_ptr (chunks s ! h)" "chunk_end (chunks s ! h) < 2 ^ 64" "0 < chunk_size (chunks s ! h)" "256 dvd chunk_size (chunks s ! h)"
proof -
  obtain r hs where r: "region_ok (chunks s) r hs" "h \<in> set hs" using region_of [OF assms] by metis
  then have "tiles (chunks s) None (region_ptr r) hs None (end_ptr r)" "0 < region_ptr r" "end_ptr r < 2 ^ 64" unfolding region_ok_def by blast+
  with tiles_bounds [OF this(1) r(2)] show "0 < chunk_ptr (chunks s ! h)" "chunk_end (chunks s ! h) < 2 ^ 64" "0 < chunk_size (chunks s ! h)"
    "256 dvd chunk_size (chunks s ! h)" by auto
qed

lemma chunks_disjoint:
  assumes "slots_ok ls s hss fs" "h \<in> members hss" "k \<in> members hss" "h \<noteq> k"
  shows "chunk_end (chunks s ! h) \<le> chunk_ptr (chunks s ! k) \<or> chunk_end (chunks s ! k) \<le> chunk_ptr (chunks s ! h)"
proof -
  obtain R1 r R2 H1 hs H2 where R: "regions s = R1 @ r # R2" "hss = H1 @ hs # H2" "length R1 = length H1" "h \<in> set hs"
    "region_ok (chunks s) r hs" "list_all2 (region_ok (chunks s)) R1 H1" "list_all2 (region_ok (chunks s)) R2 H2"
    using region_of [OF assms(1,2)] by metis
  have sorted: "\<And>q. q \<in> set R1 \<Longrightarrow> end_ptr q \<le> region_ptr r" "\<And>q. q \<in> set R2 \<Longrightarrow> end_ptr r \<le> region_ptr q"
    using assms(1) R(1) by (auto simp: slots_ok_def regions_sorted_def sorted_wrt_append)
  have t: "tiles (chunks s) None (region_ptr r) hs None (end_ptr r)" using R(5) by (rule region_ok_tiles)
  note b = tiles_bounds [OF t R(4)]
  have other: "\<exists>q\<in>set R. region_ptr q \<le> chunk_ptr (chunks s ! k) \<and> chunk_end (chunks s ! k) \<le> end_ptr q"
    if mem: "k \<in> members H" and all: "list_all2 (region_ok (chunks s)) R H" for R H
  proof -
    obtain i where i: "i < length H" "k \<in> set (H ! i)" using mem unfolding members_nth by blast
    then have "region_ok (chunks s) (R ! i) (H ! i)" "i < length R" using all by (auto simp: list_all2_conv_all_nth)
    then show ?thesis using tiles_bounds(1,2) [OF region_ok_tiles i(2)] by (intro bexI [of _ "R ! i"]) auto
  qed
  consider "k \<in> set hs" | "k \<in> members H1" | "k \<in> members H2" using assms(3) R(2) by auto
  then show ?thesis
  proof cases
    case 1
    then show ?thesis using tiles_disjoint [OF t R(4) 1 assms(4)] by blast
  next
    case 2
    then show ?thesis using other [OF 2 R(6)] sorted(1) b(1) by fastforce
  next
    case 3
    then show ?thesis using other [OF 3 R(7)] sorted(2) b(2) by fastforce
  qed
qed

lemma chunk_ptr_inj:
  assumes "slots_ok ls s hss fs" "h \<in> members hss" "k \<in> members hss" "h \<noteq> k"
  shows "chunk_ptr (chunks s ! h) \<noteq> chunk_ptr (chunks s ! k)"
  using chunks_disjoint [OF assms] chunk_bounds(3) [OF assms(1,2)] chunk_bounds(3) [OF assms(1,3)] by (auto simp: chunk_end_def)

subsection \<open>The bins\<close>

lemma modify_eq: "h < length (chunks s) \<Longrightarrow> modify h f s = Some (s\<lparr>chunks := (chunks s)[h := f (chunks s ! h)]\<rparr>)"
  by (simp add: modify_def)

lemma ChunkFromHandle_eq: "h < length (chunks s) \<Longrightarrow> ChunkFromHandle s h = Some (chunks s ! h)"
  by (simp add: ChunkFromHandle_def)

lemma check_simps [simp]: "check True = Some ()" "check False = None"
  by (simp_all add: check_def)

text \<open>What the client sees of a slot: address, size, requested size and identifier of an allocation.\<close>

type_synonym allocation = "nat \<times> nat \<times> nat \<times> int"

definition user :: "chunk list \<Rightarrow> nat \<Rightarrow> allocation option" where
  "user cs h = (if h < length cs \<and> in_use (cs ! h)
     then Some (chunk_ptr (cs ! h), chunk_size (cs ! h), requested_size (cs ! h), allocation_id (cs ! h)) else None)"

lemma slots_ok_relabel:
  assumes "slots_ok ls s hss fs" "h \<in> members hss" "same_link (chunks s ! h) c"
    and "chunks s' = (chunks s)[h := c]" "regions s' = regions s" "free_chunks_list s' = free_chunks_list s"
  shows "slots_ok ls s' hss fs"
proof -
  have link: "same_link (chunks s ! k) (chunks s' ! k)" for k
    using assms(3,4) slot_less [OF assms(1,2)] by (cases "k = h") auto
  have other: "chunks s' ! k = chunks s ! k" if "k \<in> set ls \<union> set fs" for k
    using slots_disjoint [OF assms(1)] assms(2) that by (cases "k = h") (auto simp: assms(4))
  have "flist (chunks s') (free_chunks_list s') fs"
    using flist_cong [of fs "chunks s'" "chunks s"] other assms(1,6) by (simp add: slots_ok_def)
  then show ?thesis
    using assms(1,4,5) other region_ok_cong [OF link]
    by (simp add: slots_ok_def list_all2_conv_all_nth ball_Un)
qed

lemma bin_removed:
  assumes "heap_ok F ls s hss fs" "h \<in> members hss" "bin_num (chunks s ! h) = Some b"
    and "s' = s\<lparr>bins := (bins s)[b := remove1 h (bins s ! b)], chunks := (chunks s)[h := (chunks s ! h)\<lparr>bin_num := None\<rparr>]\<rparr>"
  shows "heap_ok (insert h F) ls s' hss fs" "user (chunks s') = user (chunks s)" "\<not> in_use (chunks s ! h)" "h \<notin> F"
    "h \<in> set (bins s ! b)" "b < kNumBins" "h < length (chunks s)" "\<forall>x\<in>set (bins s ! b). x < length (chunks s)"
proof -
  let ?H = "members hss"
  have sl: "slots_ok ls s hss fs" and bo: "bins_ok F s ?H" using assms(1) by (simp_all add: heap_ok_def)
  have "bin_num (chunks s ! h) = (if in_use (chunks s ! h) \<or> h \<in> F then None else Some (BinNumForSize (chunk_size (chunks s ! h))))"
    using bo assms(2) by (simp add: bins_ok_def)
  then show h: "\<not> in_use (chunks s ! h)" "h \<notin> F" using assms(3) by (auto split: if_splits)
  show l: "h < length (chunks s)" using slot_less [OF sl assms(2)] .
  have "bin_num (chunks s ! h) = Some (BinNumForSize (chunk_size (chunks s ! h)))" using bo assms(2) h by (auto simp: bins_ok_def)
  then show b: "b < kNumBins" using assms(3) by auto
  then show "h \<in> set (bins s ! b)" using bo assms(2,3) by (simp add: bins_ok_def)
  show "\<forall>x\<in>set (bins s ! b). x < length (chunks s)" using bo b slot_less [OF sl] by (auto simp: bins_ok_def)
  have link: "same_link (chunks s ! k) (chunks s' ! k)" for k using l by (cases "k = h") (auto simp: assms(4) same_link_def)
  have use: "in_use (chunks s' ! k) = in_use (chunks s ! k)" "bin_num (chunks s' ! k) = (if k = h then None else bin_num (chunks s ! k))" for k
    using l by (auto simp: assms(4) in_use_def nth_list_update)
  have "slots_ok ls s' hss fs"
    by (rule slots_ok_relabel [OF sl assms(2)]) (simp_all add: assms(4) same_link_def)
  moreover have "bins_ok (insert h F) s' ?H"
    unfolding bins_ok_def
  proof (intro conjI allI impI ballI)
    show "length (bins s') = kNumBins" using bo by (simp add: assms(4) bins_ok_def)
    show "sorted_wrt (ChunkComparator (chunks s')) (bins s' ! i)" if "i < kNumBins" for i
    proof -
      have "sorted_wrt (ChunkComparator (chunks s)) (bins s ! i)" "length (bins s) = kNumBins" using bo that by (simp_all add: bins_ok_def)
      then show ?thesis using bin_remove1 that unfolding bin_cong [OF link] by (cases "i = b") (simp_all add: assms(4))
    qed
    have d: "distinct (bins s ! b)" using bo b bin_distinct by (auto simp: bins_ok_def)
    show "set (bins s' ! i) = {k \<in> ?H. bin_num (chunks s' ! k) = Some i}" if "i < kNumBins" for i
    proof -
      have "set (bins s ! i) = {k \<in> ?H. bin_num (chunks s ! k) = Some i}" "length (bins s) = kNumBins" using bo that by (auto simp: bins_ok_def)
      then show ?thesis using that d assms(3) unfolding use by (cases "i = b") (auto simp: assms(4) set_remove1_eq)
    qed
    show "bin_num (chunks s' ! k) = (if in_use (chunks s' ! k) \<or> k \<in> insert h F then None
        else Some (BinNumForSize (chunk_size (chunks s' ! k))))" if "k \<in> ?H" for k
      using bo that link [of k] unfolding use by (auto simp: bins_ok_def same_link_def)
    show "insert h F \<subseteq> ?H" using bo assms(2) by (simp add: bins_ok_def)
    show "\<not> in_use (chunks s' ! k)" if "k \<in> insert h F" for k using bo that h unfolding use by (auto simp: bins_ok_def)
  qed
  ultimately show "heap_ok (insert h F) ls s' hss fs" by (simp add: heap_ok_def)
  show "user (chunks s') = user (chunks s)"
    using h l by (auto simp: user_def fun_eq_iff assms(4) nth_list_update in_use_def)
qed

lemma remove_from_bin:
  assumes "heap_ok F ls s hss fs" "h \<in> members hss" "bin_num (chunks s ! h) = Some b"
  shows "RemoveFreeChunkFromBin h s = Some (s\<lparr>bins := (bins s)[b := remove1 h (bins s ! b)], chunks := (chunks s)[h := (chunks s ! h)\<lparr>bin_num := None\<rparr>]\<rparr>)"
    "RemoveFreeChunkIterFromBin b h s = Some (s\<lparr>bins := (bins s)[b := remove1 h (bins s ! b)], chunks := (chunks s)[h := (chunks s ! h)\<lparr>bin_num := None\<rparr>]\<rparr>)"
proof -
  note r = bin_removed [OF assms refl]
  have sl: "slots_ok ls s hss fs" and bo: "bins_ok F s (members hss)" using assms(1) by (simp_all add: heap_ok_def)
  have lb: "length (bins s) = kNumBins" and sb: "sorted_wrt (ChunkComparator (chunks s)) (bins s ! b)"
    and set: "set (bins s ! b) \<subseteq> members hss"
    using bo r(6) by (auto simp: bins_ok_def)
  then have erase: "set_erase (ChunkComparator (chunks s)) h (bins s ! b) = remove1 h (bins s ! b)"
    using chunk_ptr_inj [OF sl _ assms(2)] by (intro set_erase_bin) auto
  have shorter: "length (remove1 h (bins s ! b)) < length (bins s ! b)"
    using r(5) by (simp add: length_remove1) (metis One_nat_def diff_less length_pos_if_in_set zero_less_one)
  show "RemoveFreeChunkFromBin h s = Some (s\<lparr>bins := (bins s)[b := remove1 h (bins s ! b)], chunks := (chunks s)[h := (chunks s ! h)\<lparr>bin_num := None\<rparr>]\<rparr>)"
    using r(3,6-8) lb shorter assms(3)
    by (simp add: RemoveFreeChunkFromBin_def ChunkFromHandle_eq modify_def erase Let_def array_simps)
  show "RemoveFreeChunkIterFromBin b h s = Some (s\<lparr>bins := (bins s)[b := remove1 h (bins s ! b)], chunks := (chunks s)[h := (chunks s ! h)\<lparr>bin_num := None\<rparr>]\<rparr>)"
    using r(3,6-8) lb assms(3)
    by (simp add: RemoveFreeChunkIterFromBin_def ChunkFromHandle_eq modify_def Let_def array_simps)
qed

lemma bins_ok_frame:
  assumes "bins_ok F s H" "bins s' = bins s" "H' - F' = H - F" "F' \<subseteq> H'"
    and "\<And>k. k \<in> H - F \<Longrightarrow> chunk_ptr (chunks s' ! k) = chunk_ptr (chunks s ! k) \<and> chunk_size (chunks s' ! k) = chunk_size (chunks s ! k) \<and>
      in_use (chunks s' ! k) = in_use (chunks s ! k) \<and> bin_num (chunks s' ! k) = bin_num (chunks s ! k)"
    and "\<And>k. k \<in> F' \<Longrightarrow> \<not> in_use (chunks s' ! k) \<and> bin_num (chunks s' ! k) = None"
  shows "bins_ok F' s' H'"
  unfolding bins_ok_def
proof (intro conjI allI impI ballI)
  have in_bin: "{k \<in> H. bin_num (chunks s ! k) = Some b} \<subseteq> H - F" for b using assms(1) by (auto simp: bins_ok_def)
  have mem: "k \<in> H' \<longleftrightarrow> k \<in> H - F \<or> k \<in> F'" for k using assms(3,4) by auto
  have same: "{k \<in> H'. bin_num (chunks s' ! k) = Some b} = {k \<in> H. bin_num (chunks s ! k) = Some b}" for b
    unfolding mem using in_bin [of b] assms(5,6) by fastforce
  show "length (bins s') = kNumBins" "F' \<subseteq> H'" "\<And>k. k \<in> F' \<Longrightarrow> \<not> in_use (chunks s' ! k)"
    using assms by (simp_all add: bins_ok_def)
  show "set (bins s' ! b) = {k \<in> H'. bin_num (chunks s' ! k) = Some b}" if "b < kNumBins" for b
    unfolding same using assms(1,2) that by (simp add: bins_ok_def)
  show "sorted_wrt (ChunkComparator (chunks s')) (bins s' ! b)" if "b < kNumBins" for b
  proof -
    have "set (bins s ! b) \<subseteq> H - F" "sorted_wrt (ChunkComparator (chunks s)) (bins s ! b)"
      using in_bin [of b] assms(1) that by (simp_all add: bins_ok_def)
    moreover have "ChunkComparator (chunks s') x y \<longleftrightarrow> ChunkComparator (chunks s) x y" if "x \<in> H - F" "y \<in> H - F" for x y
      using assms(5) that by (simp add: ChunkComparator_def Let_def)
    ultimately show ?thesis unfolding assms(2) by (rule_tac sorted_wrt_mono_rel [rotated]) blast+
  qed
  show "bin_num (chunks s' ! k) = (if in_use (chunks s' ! k) \<or> k \<in> F' then None else Some (BinNumForSize (chunk_size (chunks s' ! k))))"
    if "k \<in> H'" for k
  proof (cases "k \<in> F'")
    case False
    then have k: "k \<in> H - F" using that mem by blast
    then have "bin_num (chunks s ! k) = (if in_use (chunks s ! k) then None else Some (BinNumForSize (chunk_size (chunks s ! k))))"
      using assms(1) by (simp add: bins_ok_def)
    then show ?thesis using assms(5) [OF k] False by simp
  qed (use assms(6) in simp)
qed

lemma bins_ok_same:
  assumes "bins_ok F s H" "bins s' = bins s" "\<And>k. k \<in> H \<Longrightarrow> chunks s' ! k = chunks s ! k"
  shows "bins_ok F s' H"
proof (rule bins_ok_frame [OF assms(1,2)])
  have F: "F \<subseteq> H" "\<And>k. k \<in> F \<Longrightarrow> \<not> in_use (chunks s ! k) \<and> bin_num (chunks s ! k) = None" using assms(1) by (auto simp: bins_ok_def)
  show "F \<subseteq> H" "\<And>k. k \<in> F \<Longrightarrow> \<not> in_use (chunks s' ! k) \<and> bin_num (chunks s' ! k) = None"
    using F assms(3) by (auto simp: subset_iff)
qed (use assms(3) in simp_all)

lemma insert_into_bin:
  assumes "heap_ok F ls s hss fs" "h \<in> F"
  obtains s' where "InsertFreeChunkIntoBin h s = Some s'" "heap_ok (F - {h}) ls s' hss fs" "user (chunks s') = user (chunks s)"
    "s' = s\<lparr>bins := bins s', chunks := (chunks s)[h := (chunks s ! h)\<lparr>bin_num := Some (BinNumForSize (chunk_size (chunks s ! h)))\<rparr>]\<rparr>"
proof -
  let ?H = "members hss" and ?b = "BinNumForSize (chunk_size (chunks s ! h))"
  let ?cs = "(chunks s)[h := (chunks s ! h)\<lparr>bin_num := Some ?b\<rparr>]"
  define s' where "s' = s\<lparr>bins := (bins s)[?b := set_insert (ChunkComparator ?cs) h (bins s ! ?b)], chunks := ?cs\<rparr>"
  have sl: "slots_ok ls s hss fs" and bo: "bins_ok F s ?H" using assms(1) by (simp_all add: heap_ok_def)
  have h: "h \<in> ?H" "\<not> in_use (chunks s ! h)" "bin_num (chunks s ! h) = None" using bo assms(2) by (auto simp: bins_ok_def)
  have l: "h < length (chunks s)" using slot_less [OF sl h(1)] .
  have bin: "set (bins s ! b) = {k \<in> ?H. bin_num (chunks s ! k) = Some b}" "sorted_wrt (ChunkComparator (chunks s)) (bins s ! b)"
    if "b < kNumBins" for b using bo that by (simp_all add: bins_ok_def)
  have lb: "length (bins s) = kNumBins" using bo by (simp add: bins_ok_def)
  have link: "same_link (chunks s ! k) (?cs ! k)" for k using l by (cases "k = h") (auto simp: same_link_def)
  have use: "in_use (?cs ! k) = in_use (chunks s ! k)" "bin_num (?cs ! k) = (if k = h then Some ?b else bin_num (chunks s ! k))" for k
    using l by (auto simp: in_use_def nth_list_update)
  have "slots_ok ls s' hss fs"
    by (rule slots_ok_relabel [OF sl h(1)]) (simp_all add: s'_def same_link_def)
  moreover have "bins_ok (F - {h}) s' ?H"
    unfolding bins_ok_def
  proof (intro conjI allI impI ballI)
    show "length (bins s') = kNumBins" using lb by (simp add: s'_def)
    have ins: "set (set_insert (ChunkComparator ?cs) h (bins s ! ?b)) = insert h (set (bins s ! ?b))"
      "sorted_wrt (ChunkComparator ?cs) (set_insert (ChunkComparator ?cs) h (bins s ! ?b))"
    proof -
      have ptr: "chunk_ptr (?cs ! k) = chunk_ptr (chunks s ! k)" for k using link by (simp add: same_link_def)
      have "chunk_ptr (?cs ! x) \<noteq> chunk_ptr (?cs ! h)" if "x \<in> set (bins s ! ?b)" for x
      proof -
        have "x \<in> ?H" "x \<noteq> h" using that bin(1) [of ?b] h(3) by auto
        then show ?thesis unfolding ptr using chunk_ptr_inj [OF sl _ h(1)] by blast
      qed
      moreover have "sorted_wrt (ChunkComparator ?cs) (bins s ! ?b)" unfolding bin_cong [OF link] by (simp add: bin)
      ultimately show "set (set_insert (ChunkComparator ?cs) h (bins s ! ?b)) = insert h (set (bins s ! ?b))"
        "sorted_wrt (ChunkComparator ?cs) (set_insert (ChunkComparator ?cs) h (bins s ! ?b))"
        using set_insert_bin by blast+
    qed
    have chunks': "chunks s' = ?cs" by (simp add: s'_def)
    show "sorted_wrt (ChunkComparator (chunks s')) (bins s' ! i)" if "i < kNumBins" for i
    proof (cases "i = ?b")
      case True
      then show ?thesis using ins(2) lb unfolding chunks' by (simp add: s'_def)
    next
      case False
      then have "bins s' ! i = bins s ! i" by (simp add: s'_def)
      then show ?thesis using bin(2) [OF that] unfolding chunks' bin_cong [OF link] by simp
    qed
    show "set (bins s' ! i) = {k \<in> ?H. bin_num (chunks s' ! k) = Some i}" if "i < kNumBins" for i
    proof (cases "i = ?b")
      case True
      then have "set (bins s' ! i) = insert h (set (bins s ! ?b))" using ins(1) lb by (simp add: s'_def)
      then show ?thesis using True bin(1) [of ?b] h(1) unfolding chunks' use by auto
    next
      case False
      then have "bins s' ! i = bins s ! i" by (simp add: s'_def)
      then show ?thesis using False bin(1) [OF that] h(3) unfolding chunks' use by auto
    qed
    show "bin_num (chunks s' ! k) = (if in_use (chunks s' ! k) \<or> k \<in> F - {h} then None
        else Some (BinNumForSize (chunk_size (chunks s' ! k))))" if "k \<in> ?H" for k
    proof -
      have "bin_num (chunks s ! k) = (if in_use (chunks s ! k) \<or> k \<in> F then None else Some (BinNumForSize (chunk_size (chunks s ! k))))"
        using bo that by (simp add: bins_ok_def)
      then show ?thesis using link [of k] h(2) unfolding chunks' use same_link_def by auto
    qed
    show "F - {h} \<subseteq> ?H" using bo by (auto simp: bins_ok_def)
    show "\<not> in_use (chunks s' ! k)" if "k \<in> F - {h}" for k using bo that unfolding chunks' use by (simp add: bins_ok_def)
  qed
  ultimately have "heap_ok (F - {h}) ls s' hss fs" by (simp add: heap_ok_def)
  moreover have "InsertFreeChunkIntoBin h s = Some s'"
  proof -
    have "\<forall>x\<in>set (bins s ! ?b). x < length (chunks s)" using bin(1) [of ?b] slot_less [OF sl] by auto
    then show ?thesis using h l lb by (simp add: InsertFreeChunkIntoBin_def ChunkFromHandle_eq modify_eq Let_def array_simps s'_def)
  qed
  moreover have "user (chunks s') = user (chunks s)"
    using h l by (auto simp: user_def fun_eq_iff s'_def nth_list_update in_use_def)
  ultimately show thesis using that by (simp add: s'_def)
qed

subsection \<open>Slots of the vector\<close>

lemma regions_frame:
  assumes "list_all2 (region_ok cs) R H" "\<And>k. k \<in> members H \<Longrightarrow> cs' ! k = cs ! k"
  shows "list_all2 (region_ok cs') R H"
  unfolding list_all2_conv_all_nth
proof (intro conjI allI impI)
  show "length R = length H" using assms(1) by (simp add: list_all2_lengthD)
  fix i assume i: "i < length R"
  then have iH: "i < length H" using assms(1) by (simp add: list_all2_lengthD)
  have link: "same_link (cs ! k) (cs' ! k)" if "k \<in> set (H ! i)" for k
  proof -
    have "k \<in> members H" unfolding members_nth using iH that by blast
    then show ?thesis by (simp add: assms(2))
  qed
  have "region_ok cs (R ! i) (H ! i)" using assms(1) i by (simp add: list_all2_conv_all_nth)
  then show "region_ok cs' (R ! i) (H ! i)" using region_ok_cong [of "H ! i" cs cs', OF link] by simp
qed

lemma take_slot:
  assumes "heap_ok F [] s hss fs"
  obtains h fs' s' where "AllocateChunk s = Some (h, s')" "heap_ok F [h] s' hss fs'" "user (chunks s') = user (chunks s)"
    "s' = s\<lparr>chunks := chunks s', free_chunks_list := free_chunks_list s'\<rparr>" "length (chunks s) \<le> length (chunks s')"
    "\<And>k. k \<in> members hss \<Longrightarrow> chunks s' ! k = chunks s ! k"
proof -
  have sl: "slots_ok [] s hss fs" and bo: "bins_ok F s (members hss)" using assms by (simp_all add: heap_ok_def)
  have cover: "members hss \<union> set fs = {..<length (chunks s)}" and d: "distinct (concat hss @ fs)"
    and fl: "flist (chunks s) (free_chunks_list s) fs" and idle: "\<And>k. k \<in> set fs \<Longrightarrow> \<not> in_use (chunks s ! k) \<and> bin_num (chunks s ! k) = None"
    using sl by (auto simp: slots_ok_def)
  show thesis
  proof (cases fs)
    case (Cons h fs')
    let ?s = "s\<lparr>free_chunks_list := next_chunk (chunks s ! h)\<rparr>"
    have h: "free_chunks_list s = Some h" "h < length (chunks s)" using fl cover Cons by auto
    then have "AllocateChunk s = Some (h, ?s)" by (simp add: AllocateChunk_def ChunkFromHandle_eq)
    moreover have "slots_ok [h] ?s hss fs'"
      using sl fl Cons by (auto simp: slots_ok_def members_def)
    moreover have "bins_ok F ?s (members hss)" using bo by (simp add: bins_ok_def)
    ultimately show thesis using that [of h ?s fs'] by (simp add: heap_ok_def)
  next
    case Nil
    let ?h = "length (chunks s)" and ?s = "s\<lparr>chunks := chunks s @ [new_Chunk]\<rparr>"
    have new: "\<not> in_use (chunks ?s ! ?h) \<and> bin_num (chunks ?s ! ?h) = None" by (simp add: new_Chunk_def in_use_def)
    have cover': "members hss = {..<?h}" using cover Nil by simp
    then have same: "chunks ?s ! k = chunks s ! k" if "k \<in> members hss" for k using that by (simp add: nth_append)
    have "AllocateChunk s = Some (?h, ?s)" using fl Nil by (simp add: AllocateChunk_def)
    moreover have "slots_ok [?h] ?s hss []"
    proof -
      have "list_all2 (region_ok (chunks ?s)) (regions s) hss"
        by (rule regions_frame [of "chunks s"]) (use sl same in \<open>simp_all add: slots_ok_def\<close>)
      moreover have "\<forall>k\<in>set (concat hss). k \<noteq> ?h" using cover' unfolding members_def by auto
      ultimately show ?thesis using sl d new Nil cover' by (auto simp: slots_ok_def)
    qed
    moreover have "bins_ok F ?s (members hss)"
      by (rule bins_ok_same [OF bo]) (use same in simp_all)
    moreover have "user (chunks ?s) = user (chunks s)"
      by (auto simp: user_def fun_eq_iff nth_append new_Chunk_def in_use_def less_Suc_eq)
    ultimately show thesis using that [of ?h ?s "[]"] same by (simp add: heap_ok_def)
  qed
qed

lemma return_slot:
  assumes "heap_ok F [h] s hss fs"
  obtains s' where "DeallocateChunk h s = Some s'" "heap_ok F [] s' hss (h # fs)" "user (chunks s') = user (chunks s)"
    "s' = s\<lparr>chunks := chunks s', free_chunks_list := Some h\<rparr>" "length (chunks s') = length (chunks s)"
    "\<And>k. k \<noteq> h \<Longrightarrow> chunks s' ! k = chunks s ! k"
proof -
  let ?cs = "(chunks s)[h := (chunks s ! h)\<lparr>next_chunk := free_chunks_list s\<rparr>]"
  let ?s = "s\<lparr>chunks := ?cs, free_chunks_list := Some h\<rparr>"
  have sl: "slots_ok [h] s hss fs" and bo: "bins_ok F s (members hss)" using assms by (simp_all add: heap_ok_def)
  have h: "h < length (chunks s)" "h \<notin> members hss" "h \<notin> set fs" "\<not> in_use (chunks s ! h)" "bin_num (chunks s ! h) = None"
    using sl slots_disjoint [OF sl] by (auto simp: slots_ok_def)
  have same: "?cs ! k = chunks s ! k" if "k \<noteq> h" for k using that by simp
  have mem: "?cs ! k = chunks s ! k" if "k \<in> members hss" for k using that h(2) by (intro same) blast
  have free: "?cs ! k = chunks s ! k" if "k \<in> set fs" for k using that h(3) by (intro same) blast
  have "DeallocateChunk h s = Some ?s" using h(1) by (simp add: DeallocateChunk_def modify_eq)
  moreover have "slots_ok [] ?s hss (h # fs)"
  proof -
    have "list_all2 (region_ok (chunks ?s)) (regions s) hss"
      by (rule regions_frame [of "chunks s"]) (use sl mem in \<open>simp_all add: slots_ok_def\<close>)
    moreover have "flist ?cs (free_chunks_list s) fs"
      using flist_cong [OF free] sl by (simp add: slots_ok_def)
    ultimately show ?thesis using sl h by (auto simp: slots_ok_def in_use_def nth_list_update)
  qed
  moreover have "bins_ok F ?s (members hss)"
    by (rule bins_ok_same [OF bo]) (use mem in simp_all)
  moreover have "user (chunks ?s) = user (chunks s)"
    using h by (auto simp: user_def fun_eq_iff nth_list_update in_use_def)
  ultimately show thesis using that [of ?s] by (simp add: heap_ok_def)
qed

subsection \<open>Replacing the chunks of a region\<close>

lemma replace_region:
  assumes "slots_ok ls s (H1 @ hs # H2) fs" "regions s = R1 @ r # R2" "length R1 = length H1"
    and "regions s' = R1 @ r' # R2" "region_ptr r' = region_ptr r" "end_ptr r' = end_ptr r" "region_ok (chunks s') r' hs'"
    and "length (chunks s') = length (chunks s)" "free_chunks_list s' = free_chunks_list s"
    and "\<And>k. k \<notin> set hs \<union> set ls \<Longrightarrow> chunks s' ! k = chunks s ! k"
    and "set ls' \<union> set hs' = set ls \<union> set hs" "distinct (ls' @ hs')"
    and "\<And>k. k \<in> set ls' \<Longrightarrow> \<not> in_use (chunks s' ! k) \<and> bin_num (chunks s' ! k) = None"
  shows "slots_ok ls' s' (H1 @ hs' # H2) fs"
proof -
  note d = slots_disjoint [OF assms(1)]
  have dc: "set hs \<inter> members H1 = {}" "set hs \<inter> members H2 = {}" "distinct (concat H1)" "distinct (concat H2)"
    "members H1 \<inter> members H2 = {}" using d(5) by (auto simp: members_def)
  have same: "chunks s' ! k = chunks s ! k" if "k \<in> members H1 \<union> members H2 \<union> set fs" for k
    by (rule assms(10)) (use that d(1-3) dc(1,2) in \<open>auto simp: disjoint_iff\<close>)
  have "list_all2 (region_ok (chunks s)) (R1 @ r # R2) (H1 @ hs # H2)" using assms(1,2) by (simp add: slots_ok_def)
  then have R: "list_all2 (region_ok (chunks s)) R1 H1" "list_all2 (region_ok (chunks s)) R2 H2"
    using assms(3) by (simp_all add: list_all2_append)
  have "list_all2 (region_ok (chunks s')) (regions s') (H1 @ hs' # H2)"
    unfolding assms(4) using regions_frame [OF R(1), of "chunks s'"] regions_frame [OF R(2), of "chunks s'"] same assms(3,7)
    by (simp add: list_all2_append)
  moreover have "regions_sorted (regions s')"
    using assms(1,2,4-6) by (simp add: slots_ok_def regions_sorted_def sorted_wrt_append)
  moreover have "distinct (ls' @ concat (H1 @ hs' # H2) @ fs)"
  proof -
    have "set ls' \<inter> (members H1 \<union> members H2 \<union> set fs) = {}" "set hs' \<inter> (members H1 \<union> members H2 \<union> set fs) = {}"
      using d(1-3) dc(1,2) assms(11) by auto
    then show ?thesis using assms(12) d(5,6) dc d(2) by (auto simp: members_def)
  qed
  moreover have "set ls' \<union> members (H1 @ hs' # H2) \<union> set fs = {..<length (chunks s')}"
    using assms(1,8,11) by (auto simp: slots_ok_def)
  moreover have "flist (chunks s') (free_chunks_list s') fs"
    using flist_cong [of fs "chunks s'" "chunks s"] same assms(1,9) by (simp add: slots_ok_def)
  moreover have "\<not> in_use (chunks s' ! k) \<and> bin_num (chunks s' ! k) = None" if "k \<in> set ls' \<union> set fs" for k
    using that assms(1,13) same by (auto simp: slots_ok_def)
  ultimately show ?thesis unfolding slots_ok_def by blast
qed

lemma region_split:
  assumes "slots_ok ls s (H1 @ hs # H2) fs"
  obtains R1 r R2 where "regions s = R1 @ r # R2" "length R1 = length H1" "region_ok (chunks s) r hs"
proof -
  have "list_all2 (region_ok (chunks s)) (regions s) (H1 @ hs # H2)" using assms by (simp add: slots_ok_def)
  then obtain R1 r R2 where "regions s = R1 @ r # R2" "list_all2 (region_ok (chunks s)) R1 H1" "region_ok (chunks s) r hs"
    by (auto simp: list_all2_append2 list_all2_Cons2)
  with that list_all2_lengthD show thesis by blast
qed

definition extents :: "region list \<Rightarrow> (nat \<times> nat) list" where
  "extents rs = map (\<lambda>r. (region_ptr r, memory_size r)) rs"

text \<open>The fields that the steps on the heap leave alone.\<close>

definition others :: "bfc \<Rightarrow> nat \<times> nat \<times> nat \<times> bool \<times> nat list \<times> (nat \<times> nat \<times> nat) list \<times> int \<times> stats" where
  "others s = (memory_limit s, curr_region_allocation_bytes s, total_region_allocated_bytes s, started_backpedal s, region_visitors s,
     visits s, next_allocation_id s, stats s)"

subsection \<open>Splitting\<close>

definition split_chunks :: "nat \<Rightarrow> nat \<Rightarrow> nat \<Rightarrow> nat \<Rightarrow> chunk \<Rightarrow> chunk list \<Rightarrow> chunk list" where
  "split_chunks h hn p n c cs =
    (let cs = cs[hn := (cs ! hn)\<lparr>chunk_ptr := p\<rparr>];
         cs = cs[hn := (cs ! hn)\<lparr>chunk_size := chunk_size c - n\<rparr>];
         cs = cs[h := (cs ! h)\<lparr>chunk_size := n\<rparr>];
         cs = cs[hn := (cs ! hn)\<lparr>allocation_id := -1\<rparr>];
         cs = cs[hn := (cs ! hn)\<lparr>prev_chunk := Some h, next_chunk := next_chunk c\<rparr>];
         cs = cs[h := (cs ! h)\<lparr>next_chunk := Some hn\<rparr>]
     in case next_chunk c of None \<Rightarrow> cs | Some k \<Rightarrow> cs[k := (cs ! k)\<lparr>prev_chunk := Some hn\<rparr>])"

lemma length_split_chunks [simp]: "length (split_chunks h hn p n c cs) = length cs"
  by (simp add: split_chunks_def Let_def split: option.split)

lemma split_chunks_nth:
  assumes "hn < length cs" "h < length cs" "hn \<noteq> h" "next_chunk c \<noteq> Some hn" "next_chunk c \<noteq> Some h"
  shows "split_chunks h hn p n c cs ! hn =
      (cs ! hn)\<lparr>chunk_ptr := p, chunk_size := chunk_size c - n, allocation_id := -1, prev_chunk := Some h, next_chunk := next_chunk c\<rparr>"
    "split_chunks h hn p n c cs ! h = (cs ! h)\<lparr>chunk_size := n, next_chunk := Some hn\<rparr>"
    "next_chunk c = Some k \<Longrightarrow> k < length cs \<Longrightarrow> split_chunks h hn p n c cs ! k = (cs ! k)\<lparr>prev_chunk := Some hn\<rparr>"
    "k \<noteq> hn \<Longrightarrow> k \<noteq> h \<Longrightarrow> next_chunk c \<noteq> Some k \<Longrightarrow> split_chunks h hn p n c cs ! k = cs ! k"
  using assms by (auto simp: split_chunks_def Let_def nth_list_update split: option.split)

lemma SplitChunk_eq:
  assumes "AllocateChunk s = Some (hn, s1)" "hn < length (chunks s1)" "h < length (chunks s1)" "hn \<noteq> h"
    and "c = chunks s1 ! h" "\<not> in_use c" "bin_num c = None" "p = chunk_ptr c + n" "p < 2 ^ 64" "n \<le> chunk_size c" "chunk_size c < 2 ^ 64"
    and "set_handle p (Some hn) (regions s1) = Some rs" "\<And>k. next_chunk c = Some k \<Longrightarrow> k < length (chunks s1)"
  shows "SplitChunk h n s = InsertFreeChunkIntoBin hn (s1\<lparr>regions := rs, chunks := split_chunks h hn p n c (chunks s1)\<rparr>)"
proof -
  have w: "wrap64 (chunk_ptr c + n) = p" using assms(8,9) by simp
  show ?thesis
  proof (cases "next_chunk c")
    case None
    then show ?thesis
      using assms(1-7,10-12) w unfolding split_chunks_def Let_def
      by (simp add: SplitChunk_def ChunkFromHandle_eq modify_eq Let_def)
  next
    case (Some k)
    then show ?thesis
      using assms(1-7,10-12) assms(13) [OF Some] w unfolding split_chunks_def Let_def
      by (simp add: SplitChunk_def ChunkFromHandle_eq modify_eq Let_def)
  qed
qed

lemma tiles_prev:
  assumes "tiles cs (Some h) a ys nx e" "distinct ys"
    and "\<And>y. y \<in> set ys \<Longrightarrow> hdo ys None \<noteq> Some y \<Longrightarrow> cs' ! y = cs ! y"
    and "\<And>y. hdo ys None = Some y \<Longrightarrow> cs' ! y = (cs ! y)\<lparr>prev_chunk := Some h'\<rparr>"
  shows "tiles cs' (Some h') a ys nx e"
proof (cases ys)
  case (Cons y zs)
  have "same_link (cs ! z) (cs' ! z)" if "z \<in> set zs" for z
    using assms(2) assms(3) [of z] that Cons by (cases "z = y") auto
  then show ?thesis using assms(1) assms(4) [of y] Cons by (auto simp: tiles_cong [of zs cs cs'] chunk_end_def)
qed (use assms(1) in simp)

lemma split_region_ok:
  assumes r: "region_ok cs r (xs @ h # ys)" and d: "distinct (xs @ h # ys)" "hn \<notin> set (xs @ h # ys)"
    and len: "h < length cs" "hn < length cs" "\<And>y. y \<in> set ys \<Longrightarrow> y < length cs"
    and n: "256 dvd n" "0 < n" "n < chunk_size (cs ! h)"
    and p: "p = chunk_ptr (cs ! h) + n"
  shows "region_ok (split_chunks h hn p n (cs ! h) cs) (r\<lparr>handles := (handles r)[(p - region_ptr r) div 256 := Some hn]\<rparr>) (xs @ h # hn # ys)"
proof -
  let ?cs = "split_chunks h hn p n (cs ! h) cs"
  have t: "tiles cs None (region_ptr r) (xs @ h # ys) None (end_ptr r)" using r by (rule region_ok_tiles)
  then obtain m where m: "tiles cs None (region_ptr r) xs (Some h) m" "tiles cs (lasto xs None) m (h # ys) None (end_ptr r)"
    unfolding tiles_append by auto
  have c: "chunk_ptr (cs ! h) = m" "prev_chunk (cs ! h) = lasto xs None" "next_chunk (cs ! h) = hdo ys None" "256 dvd chunk_size (cs ! h)"
    "tiles cs (Some h) (m + chunk_size (cs ! h)) ys None (end_ptr r)" using m(2) by (auto simp: chunk_end_def)
  have nb: "k \<in> set ys" if "next_chunk (cs ! h) = Some k" for k using that c(3) by (cases ys) auto
  then have "hn \<noteq> h" "next_chunk (cs ! h) \<noteq> Some hn" "next_chunk (cs ! h) \<noteq> Some h" using d by auto
  note nth = split_chunks_nth [OF len(2,1) this, where p = p and n = n]
  have new: "?cs ! hn = (cs ! hn)\<lparr>chunk_ptr := m + n, chunk_size := chunk_size (cs ! h) - n, allocation_id := -1, prev_chunk := Some h,
      next_chunk := hdo ys None\<rparr>"
    "?cs ! h = (cs ! h)\<lparr>chunk_size := n, next_chunk := Some hn\<rparr>" using nth(1,2) c p by simp_all
  have other: "?cs ! k = cs ! k" if "k \<in> set xs \<or> k \<in> set ys \<and> hdo ys None \<noteq> Some k" for k
    using that d nb c(3) by (intro nth(4)) auto
  have first: "?cs ! k = (cs ! k)\<lparr>prev_chunk := Some hn\<rparr>" if "hdo ys None = Some k" for k
    using nth(3) [of k] that c(3) nb len(3) by simp
  have "tiles ?cs None (region_ptr r) xs (Some h) m"
    using m(1) other tiles_cong [of xs cs ?cs] by simp
  moreover have "tiles ?cs (Some hn) (m + chunk_size (cs ! h)) ys None (end_ptr r)"
    by (rule tiles_prev [OF c(5)]) (use d other first in auto)
  moreover have "256 dvd chunk_size (cs ! h) - n" using c(4) n(1) by (simp add: dvd_diff_nat)
  ultimately have tiles': "tiles ?cs None (region_ptr r) (xs @ h # hn # ys) None (end_ptr r)"
    using c n by (simp add: tiles_append new chunk_end_def)
  have b: "region_ptr r \<le> m" "256 dvd m - region_ptr r" "m + chunk_size (cs ! h) \<le> end_ptr r"
    using tiles_bounds [OF t, of h] c(1) by (simp_all add: chunk_end_def)
  have ends: "end_ptr r = region_ptr r + memory_size r" "256 dvd memory_size r"
    using r tiles_end [OF t] by (auto simp: region_ok_def)
  define j where "j = (p - region_ptr r) div 256"
  have "p - region_ptr r = (m - region_ptr r) + n" using b(1) c(1) p by simp
  then have "256 dvd p - region_ptr r" using b(2) n(1) by (simp only: dvd_add)
  then have j: "p = region_ptr r + 256 * j" using b(1) c(1) p by (simp add: j_def)
  then have "256 * j < memory_size r" using b(3) c(1) p n(3) ends(1) by simp
  then have jlt: "j < memory_size r div 256" using ends(2) by (auto elim!: dvdE)
  have handles': "handles_ok ?cs (xs @ h # hn # ys) (r\<lparr>handles := (handles r)[j := Some hn]\<rparr>)"
  proof (rule handles_ok_add [OF _ jlt])
    show "handles_ok cs (xs @ h # ys) r" using r by (simp add: region_ok_def)
    show "chunk_ptr (?cs ! hn) = region_ptr r + 256 * j" using new j c(1) p by simp
    fix k assume k: "k \<in> set (xs @ h # ys)"
    have "chunk_ptr (?cs ! k) = chunk_ptr (cs ! k)"
      using k new(2) other [of k] first [of k] by (cases "k = h"; cases "hdo ys None = Some k") auto
    moreover have "chunk_ptr (cs ! k) \<noteq> p"
    proof (cases "k = h")
      case False
      then have "chunk_end (cs ! h) \<le> chunk_ptr (cs ! k) \<or> chunk_end (cs ! k) \<le> chunk_ptr (cs ! h)"
        using tiles_disjoint [OF t, of h k] k by auto
      then show ?thesis using tiles_bounds(4) [OF t k] n(2,3) p by (auto simp: chunk_end_def)
    qed (use n p in simp)
    ultimately show "chunk_ptr (?cs ! k) = chunk_ptr (cs ! k) \<and> chunk_ptr (cs ! k) \<noteq> region_ptr r + 256 * j" using j by simp
  qed (use d in auto)
  show ?thesis using r tiles' handles' unfolding region_ok_def j_def by simp
qed

lemma split_chunk:
  assumes heap: "heap_ok F [] s (H1 @ (xs @ h # ys) # H2) fs" and hF: "h \<in> F" and mem: "h \<in> members (H1 @ (xs @ h # ys) # H2)"
    and n: "256 dvd n" "0 < n" "n < chunk_size (chunks s ! h)"
  obtains s' hn fs' where "SplitChunk h n s = Some s'" "heap_ok F [] s' (H1 @ (xs @ h # hn # ys) # H2) fs'" "user (chunks s') = user (chunks s)"
    "chunk_size (chunks s' ! h) = n" "chunk_ptr (chunks s' ! h) = chunk_ptr (chunks s ! h)" "\<not> in_use (chunks s' ! hn)"
    "others s' = others s"
    "extents (regions s') = extents (regions s)"
    "\<And>k. k \<in> members (H1 @ (xs @ h # ys) # H2) \<Longrightarrow> in_use (chunks s' ! k) = in_use (chunks s ! k)"
proof -
  let ?hss = "H1 @ (xs @ h # ys) # H2"
  obtain hn fs1 s1 where s1: "AllocateChunk s = Some (hn, s1)" "heap_ok F [hn] s1 ?hss fs1" "user (chunks s1) = user (chunks s)"
    "s1 = s\<lparr>chunks := chunks s1, free_chunks_list := free_chunks_list s1\<rparr>" "\<And>k. k \<in> members ?hss \<Longrightarrow> chunks s1 ! k = chunks s ! k"
    using take_slot [OF heap] by metis
  let ?c = "chunks s1 ! h"
  have sl: "slots_ok [hn] s1 ?hss fs1" and bo: "bins_ok F s1 (members ?hss)" using s1(2) by (simp_all add: heap_ok_def)
  obtain R1 r R2 where R: "regions s1 = R1 @ r # R2" "length R1 = length H1" "region_ok (chunks s1) r (xs @ h # ys)"
    using region_split [OF sl] by metis
  define p where "p = chunk_ptr ?c + n"
  have c: "?c = chunks s ! h" using s1(5) mem by blast
  have d: "distinct (xs @ h # ys)" "hn \<notin> set (xs @ h # ys)" "hn \<notin> members ?hss"
    using slots_disjoint [OF sl] by (auto simp: members_def)
  have len: "hn < length (chunks s1)" "\<And>k. k \<in> members ?hss \<Longrightarrow> k < length (chunks s1)"
    using sl by (auto simp: slots_ok_def)
  have t: "tiles (chunks s1) None (region_ptr r) (xs @ h # ys) None (end_ptr r)" using R(3) by (rule region_ok_tiles)
  have "end_ptr r < 2 ^ 64" using R(3) unfolding region_ok_def by blast
  then have p: "region_ptr r \<le> p" "p < end_ptr r" "p < 2 ^ 64" "chunk_size ?c < 2 ^ 64" "n \<le> chunk_size ?c"
    using tiles_bounds [OF t, of h] n(3) c by (auto simp: p_def chunk_end_def)
  have nx: "next_chunk ?c = hdo ys None" using t by (auto simp: tiles_append)
  have nb: "k \<in> set ys" if "next_chunk ?c = Some k" for k using nx that by (cases ys) auto
  have free: "\<not> in_use ?c" "bin_num ?c = None" using bo hF mem by (auto simp: bins_ok_def)
  let ?r = "r\<lparr>handles := (handles r)[(p - region_ptr r) div 256 := Some hn]\<rparr>" and ?cs = "split_chunks h hn p n ?c (chunks s1)"
  have sh: "set_handle p (Some hn) (regions s1) = Some (R1 @ ?r # R2)"
    using set_handle_at [of R1 r R2, OF _ R(3) p(1,2)] sl by (simp add: R(1) slots_ok_def)
  define s2 where "s2 = s1\<lparr>regions := R1 @ ?r # R2, chunks := ?cs\<rparr>"
  have split: "SplitChunk h n s = InsertFreeChunkIntoBin hn s2"
    unfolding s2_def using d len mem nb p free by (intro SplitChunk_eq [OF s1(1)]) (auto simp: p_def sh [unfolded p_def])
  have ne: "hn \<noteq> h" "next_chunk ?c \<noteq> Some hn" "next_chunk ?c \<noteq> Some h" using d nb by auto
  note nth = split_chunks_nth [OF len(1) len(2) [OF mem] ne, where p = p and n = n]
  have cs: "?cs ! hn = (chunks s1 ! hn)\<lparr>chunk_ptr := p, chunk_size := chunk_size ?c - n, allocation_id := -1, prev_chunk := Some h,
      next_chunk := next_chunk ?c\<rparr>" "?cs ! h = ?c\<lparr>chunk_size := n, next_chunk := Some hn\<rparr>"
    using nth(1,2) by auto
  have rest: "?cs ! k = chunks s1 ! k \<or> ?cs ! k = (chunks s1 ! k)\<lparr>prev_chunk := Some hn\<rparr>" if "k \<noteq> h" "k \<noteq> hn" for k
    using nth(3,4) [of k] that nb len(2) by (cases "next_chunk ?c = Some k") auto
  have slots: "slots_ok [] s2 (H1 @ (xs @ h # hn # ys) # H2) fs1"
  proof (rule replace_region [OF sl R(1,2)])
    show "region_ok (chunks s2) ?r (xs @ h # hn # ys)"
      unfolding s2_def using split_region_ok [OF R(3) d(1,2) len(2) [OF mem] len(1) _ n(1,2)] n(3) c len(2) by (simp add: p_def)
    show "chunks s2 ! k = chunks s1 ! k" if "k \<notin> set (xs @ h # ys) \<union> set [hn]" for k
      using nth(4) [of k] that nb by (auto simp: s2_def)
  qed (use d in \<open>auto simp: s2_def\<close>)
  have bins2: "bins_ok (insert hn F) s2 (members (H1 @ (xs @ h # hn # ys) # H2))"
  proof (rule bins_ok_frame [OF bo])
    show "bins s2 = bins s1" by (simp add: s2_def)
    show "members (H1 @ (xs @ h # hn # ys) # H2) - insert hn F = members ?hss - F" using d(3) by auto
    show "insert hn F \<subseteq> members (H1 @ (xs @ h # hn # ys) # H2)" using bo by (auto simp: bins_ok_def)
    show "chunk_ptr (chunks s2 ! k) = chunk_ptr (chunks s1 ! k) \<and> chunk_size (chunks s2 ! k) = chunk_size (chunks s1 ! k) \<and>
        in_use (chunks s2 ! k) = in_use (chunks s1 ! k) \<and> bin_num (chunks s2 ! k) = bin_num (chunks s1 ! k)"
      if k: "k \<in> members ?hss - F" for k
    proof -
      have "k \<noteq> h" "k \<noteq> hn" using k hF d(3) by blast+
      then show ?thesis using rest [of k] by (auto simp: s2_def in_use_def)
    qed
    show "\<not> in_use (chunks s2 ! k) \<and> bin_num (chunks s2 ! k) = None" if "k \<in> insert hn F" for k
    proof -
      have "\<not> in_use (chunks s1 ! k) \<and> bin_num (chunks s1 ! k) = None"
        using that bo sl by (auto simp: bins_ok_def slots_ok_def)
      then show ?thesis using rest [of k] cs by (cases "k = h"; cases "k = hn") (auto simp: s2_def in_use_def)
    qed
  qed
  have heap2: "heap_ok (insert hn F) [] s2 (H1 @ (xs @ h # hn # ys) # H2) fs1" using slots bins2 by (simp add: heap_ok_def)
  obtain s' where s': "InsertFreeChunkIntoBin hn s2 = Some s'" "heap_ok (insert hn F - {hn}) [] s' (H1 @ (xs @ h # hn # ys) # H2) fs1"
    "user (chunks s') = user (chunks s2)"
    "s' = s2\<lparr>bins := bins s', chunks := (chunks s2)[hn := (chunks s2 ! hn)\<lparr>bin_num := Some (BinNumForSize (chunk_size (chunks s2 ! hn)))\<rparr>]\<rparr>"
    using insert_into_bin [OF heap2] by blast
  have "hn \<notin> F" using bo d(3) by (auto simp: bins_ok_def)
  then have F: "insert hn F - {hn} = F" by auto
  have "user ?cs k = user (chunks s1) k" for k
  proof -
    have "\<not> in_use (chunks s1 ! hn)" using sl by (simp add: slots_ok_def)
    then show ?thesis using rest [of k] cs free by (cases "k = h"; cases "k = hn") (auto simp: user_def in_use_def)
  qed
  then have "user (chunks s2) = user (chunks s1)" by (simp add: s2_def fun_eq_iff)
  moreover have chunks': "chunks s' = (chunks s2)[hn := (chunks s2 ! hn)\<lparr>bin_num := Some (BinNumForSize (chunk_size (chunks s2 ! hn)))\<rparr>]"
    by (subst s'(4)) simp
  then have "chunks s' ! h = ?cs ! h" using ne(1) by (simp add: s2_def)
  moreover have use': "in_use (chunks s' ! k) = in_use (?cs ! k)" for k
    using len(1) by (cases "k = hn") (simp_all add: chunks' s2_def in_use_def)
  moreover have "in_use (?cs ! k) = in_use (chunks s1 ! k)" if "k \<in> members ?hss" for k
  proof -
    have "k \<noteq> hn" using that d(3) by blast
    then show ?thesis using rest [of k] cs by (cases "k = h") (auto simp: in_use_def)
  qed
  moreover have "others s' = others s"
  proof -
    have "others s' = others s2" "others s1 = others s" by (subst s'(4), simp add: others_def) (subst s1(4), simp add: others_def)
    then show ?thesis by (simp add: s2_def others_def)
  qed
  moreover have "extents (regions s') = extents (regions s)"
  proof -
    have e: "regions s' = regions s2" "regions s1 = regions s" by (subst s'(4), simp) (subst s1(4), simp)
    have "extents (regions s2) = extents (regions s1)" unfolding R(1) by (simp add: s2_def extents_def)
    then show ?thesis unfolding e .
  qed
  ultimately show thesis
    using that [of s' hn fs1] split s' F s1(3,5) c cs by (simp add: in_use_def)
qed

subsection \<open>Merging\<close>

definition merge_chunks :: "nat \<Rightarrow> chunk \<Rightarrow> chunk list \<Rightarrow> chunk list" where
  "merge_chunks h1 c2 cs =
    (let cs = cs[h1 := (cs ! h1)\<lparr>next_chunk := next_chunk c2\<rparr>];
         cs = (case next_chunk c2 of None \<Rightarrow> cs | Some k \<Rightarrow> cs[k := (cs ! k)\<lparr>prev_chunk := Some h1\<rparr>])
     in cs[h1 := (cs ! h1)\<lparr>chunk_size := wrap64 (chunk_size (cs ! h1) + chunk_size c2)\<rparr>])"

lemma length_merge_chunks [simp]: "length (merge_chunks h1 c2 cs) = length cs"
  by (simp add: merge_chunks_def Let_def split: option.split)

lemma merge_chunks_nth:
  assumes "h1 < length cs" "next_chunk c2 \<noteq> Some h1"
  shows "merge_chunks h1 c2 cs ! h1 = (cs ! h1)\<lparr>next_chunk := next_chunk c2, chunk_size := wrap64 (chunk_size (cs ! h1) + chunk_size c2)\<rparr>"
    "next_chunk c2 = Some k \<Longrightarrow> k < length cs \<Longrightarrow> merge_chunks h1 c2 cs ! k = (cs ! k)\<lparr>prev_chunk := Some h1\<rparr>"
    "k \<noteq> h1 \<Longrightarrow> next_chunk c2 \<noteq> Some k \<Longrightarrow> merge_chunks h1 c2 cs ! k = cs ! k"
  using assms by (auto simp: merge_chunks_def Let_def nth_list_update split: option.split)

lemma Merge_eq:
  assumes "h1 < length (chunks s)" "h2 < length (chunks s)" "h1 \<noteq> h2" "c2 = chunks s ! h2" "\<not> in_use (chunks s ! h1)" "\<not> in_use c2"
    and "prev_chunk c2 = Some h1" "\<And>k. next_chunk c2 = Some k \<Longrightarrow> k < length (chunks s) \<and> k \<noteq> h1 \<and> k \<noteq> h2"
    and "set_handle (chunk_ptr c2) None (regions s) = Some rs"
  shows "Merge h1 h2 s = DeallocateChunk h2 (s\<lparr>chunks := merge_chunks h1 c2 (chunks s), regions := rs\<rparr>)"
proof (cases "next_chunk c2")
  case None
  then show ?thesis
    using assms(1-7,9) unfolding merge_chunks_def Let_def
    by (simp add: Merge_def DeleteChunk_def ChunkFromHandle_eq modify_eq Let_def)
next
  case (Some k)
  then show ?thesis
    using assms(1-7,9) assms(8) [OF Some] unfolding merge_chunks_def Let_def
    by (simp add: Merge_def DeleteChunk_def ChunkFromHandle_eq modify_eq Let_def)
qed

lemma merge_region_ok:
  assumes r: "region_ok cs r (xs @ h1 # h2 # ys)" and d: "distinct (xs @ h1 # h2 # ys)"
    and len: "h1 < length cs" "\<And>y. y \<in> set ys \<Longrightarrow> y < length cs"
  shows "region_ok (merge_chunks h1 (cs ! h2) cs) (r\<lparr>handles := (handles r)[(chunk_ptr (cs ! h2) - region_ptr r) div 256 := None]\<rparr>) (xs @ h1 # ys)"
proof -
  let ?cs = "merge_chunks h1 (cs ! h2) cs"
  have t: "tiles cs None (region_ptr r) (xs @ h1 # h2 # ys) None (end_ptr r)" using r by (rule region_ok_tiles)
  then obtain m where m: "tiles cs None (region_ptr r) xs (Some h1) m" "tiles cs (lasto xs None) m (h1 # h2 # ys) None (end_ptr r)"
    unfolding tiles_append by auto
  have c: "chunk_ptr (cs ! h1) = m" "prev_chunk (cs ! h1) = lasto xs None" "256 dvd chunk_size (cs ! h1)" "0 < chunk_size (cs ! h1)"
    "chunk_ptr (cs ! h2) = m + chunk_size (cs ! h1)" "next_chunk (cs ! h2) = hdo ys None" "256 dvd chunk_size (cs ! h2)"
    "tiles cs (Some h2) (m + (chunk_size (cs ! h1) + chunk_size (cs ! h2))) ys None (end_ptr r)"
    using m(2) by (auto simp: chunk_end_def add.assoc)
  have nb: "k \<in> set ys" if "next_chunk (cs ! h2) = Some k" for k using that c(6) by (cases ys) auto
  have ne: "next_chunk (cs ! h2) \<noteq> Some h1" using d nb by auto
  have "m + (chunk_size (cs ! h1) + chunk_size (cs ! h2)) \<le> end_ptr r" "end_ptr r < 2 ^ 64"
    using tiles_end [OF c(8)] r by (auto simp: region_ok_def)
  then have w: "wrap64 (chunk_size (cs ! h1) + chunk_size (cs ! h2)) = chunk_size (cs ! h1) + chunk_size (cs ! h2)" by simp
  note nth = merge_chunks_nth [OF len(1) ne]
  have new: "?cs ! h1 = (cs ! h1)\<lparr>next_chunk := hdo ys None, chunk_size := chunk_size (cs ! h1) + chunk_size (cs ! h2)\<rparr>"
    using nth(1) w c(6) by simp
  have other: "?cs ! k = cs ! k" if "k \<in> set xs \<or> k \<in> set ys \<and> hdo ys None \<noteq> Some k" for k
    using that d nb c(6) by (intro nth(3)) auto
  have first: "?cs ! k = (cs ! k)\<lparr>prev_chunk := Some h1\<rparr>" if "hdo ys None = Some k" for k
    using nth(2) [of k] that c(6) nb len(2) by simp
  have "tiles ?cs None (region_ptr r) xs (Some h1) m"
    using m(1) other tiles_cong [of xs cs ?cs] by simp
  moreover have "tiles ?cs (Some h1) (m + (chunk_size (cs ! h1) + chunk_size (cs ! h2))) ys None (end_ptr r)"
    by (rule tiles_prev [OF c(8)]) (use d other first in auto)
  ultimately have tiles': "tiles ?cs None (region_ptr r) (xs @ h1 # ys) None (end_ptr r)"
    using c by (simp add: tiles_append new chunk_end_def dvd_add)
  obtain j where j: "chunk_ptr (cs ! h2) = region_ptr r + 256 * j" "(chunk_ptr (cs ! h2) - region_ptr r) div 256 = j" "j < memory_size r div 256"
    using handle_index [OF r, of h2] by (metis in_set_conv_decomp append_Cons append.assoc append.left_neutral)
  have handles': "handles_ok ?cs (xs @ h1 # ys) (r\<lparr>handles := (handles r)[j := None]\<rparr>)"
  proof (rule handles_ok_remove [OF _ j(3) _ _ _ j(1)])
    show "handles_ok cs (xs @ h1 # h2 # ys) r" using r by (simp add: region_ok_def)
    show "set (xs @ h1 # ys) = set (xs @ h1 # h2 # ys) - {h2}" "h2 \<in> set (xs @ h1 # h2 # ys)" using d by auto
    fix k assume k: "k \<in> set (xs @ h1 # h2 # ys)" "k \<noteq> h2"
    have "chunk_ptr (?cs ! k) = chunk_ptr (cs ! k)"
      using k new other [of k] first [of k] by (cases "k = h1"; cases "hdo ys None = Some k") auto
    moreover have "chunk_ptr (cs ! k) \<noteq> chunk_ptr (cs ! h2)"
      using tiles_disjoint [OF t k(1) _ k(2)] tiles_bounds(4) [OF t k(1)] tiles_bounds(4) [OF t, of h2] by (auto simp: chunk_end_def)
    ultimately show "chunk_ptr (?cs ! k) = chunk_ptr (cs ! k) \<and> chunk_ptr (cs ! k) \<noteq> region_ptr r + 256 * j" using j(1) by simp
  qed
  show ?thesis using r tiles' handles' unfolding region_ok_def j(2) by simp
qed

lemma merge_chunk:
  assumes heap: "heap_ok F [] s (H1 @ (xs @ h1 # h2 # ys) # H2) fs" and F: "h1 \<in> F" "h2 \<in> F"
  obtains s' where "Merge h1 h2 s = Some s'" "heap_ok (F - {h2}) [] s' (H1 @ (xs @ h1 # ys) # H2) (h2 # fs)" "user (chunks s') = user (chunks s)"
    "others s' = others s" "extents (regions s') = extents (regions s)" "\<And>k. in_use (chunks s' ! k) = in_use (chunks s ! k)"
proof -
  let ?hss = "H1 @ (xs @ h1 # h2 # ys) # H2"
  let ?c = "chunks s ! h2"
  have sl: "slots_ok [] s ?hss fs" and bo: "bins_ok F s (members ?hss)" using heap by (simp_all add: heap_ok_def)
  obtain R1 r R2 where R: "regions s = R1 @ r # R2" "length R1 = length H1" "region_ok (chunks s) r (xs @ h1 # h2 # ys)"
    using region_split [OF sl] by metis
  have d: "distinct (xs @ h1 # h2 # ys)" using slots_disjoint(5) [OF sl] by (auto simp: members_def)
  have len: "k < length (chunks s)" if "k \<in> members ?hss" for k using slot_less [OF sl that] .
  have t: "tiles (chunks s) None (region_ptr r) (xs @ h1 # h2 # ys) None (end_ptr r)" using R(3) by (rule region_ok_tiles)
  then have c: "prev_chunk ?c = Some h1" "next_chunk ?c = hdo ys None" by (auto simp: tiles_append)
  have nb: "k \<in> set ys" if "next_chunk ?c = Some k" for k using c(2) that by (cases ys) auto
  have free: "\<not> in_use (chunks s ! h1)" "\<not> in_use ?c" "bin_num (chunks s ! h1) = None" "bin_num ?c = None"
    using bo F by (auto simp: bins_ok_def)
  have p: "region_ptr r \<le> chunk_ptr ?c" "chunk_ptr ?c < end_ptr r"
    using tiles_bounds [OF t, of h2] by (auto simp: chunk_end_def)
  let ?r = "r\<lparr>handles := (handles r)[(chunk_ptr ?c - region_ptr r) div 256 := None]\<rparr>" and ?cs = "merge_chunks h1 ?c (chunks s)"
  have sh: "set_handle (chunk_ptr ?c) None (regions s) = Some (R1 @ ?r # R2)"
    using set_handle_at [of R1 r R2, OF _ R(3) p] sl by (simp add: R(1) slots_ok_def)
  define s2 where "s2 = s\<lparr>chunks := ?cs, regions := R1 @ ?r # R2\<rparr>"
  have merge: "Merge h1 h2 s = DeallocateChunk h2 s2"
    unfolding s2_def using d len nb free c(1) by (intro Merge_eq) (auto simp: sh)
  have ne: "next_chunk ?c \<noteq> Some h1" using d nb by auto
  have len1: "h1 < length (chunks s)" by (rule len) simp
  note nth = merge_chunks_nth [OF len1 ne]
  have rest: "?cs ! k = chunks s ! k \<or> ?cs ! k = (chunks s ! k)\<lparr>prev_chunk := Some h1\<rparr>" if "k \<noteq> h1" for k
    using nth(2,3) [of k] that nb len by (cases "next_chunk ?c = Some k") auto
  have use: "in_use (?cs ! k) = in_use (chunks s ! k)" "bin_num (?cs ! k) = bin_num (chunks s ! k)" for k
    using rest [of k] nth(1) by (cases "k = h1", auto simp: in_use_def)+
  have slots: "slots_ok [h2] s2 (H1 @ (xs @ h1 # ys) # H2) fs"
  proof (rule replace_region [OF sl R(1,2)])
    show "region_ok (chunks s2) ?r (xs @ h1 # ys)"
      unfolding s2_def using merge_region_ok [OF R(3) d len1] len by simp
    show "chunks s2 ! k = chunks s ! k" if "k \<notin> set (xs @ h1 # h2 # ys) \<union> set []" for k
      using nth(3) [of k] that nb by (auto simp: s2_def)
  qed (use d free in \<open>auto simp: s2_def use\<close>)
  have bins2: "bins_ok (F - {h2}) s2 (members (H1 @ (xs @ h1 # ys) # H2))"
  proof (rule bins_ok_frame [OF bo])
    have "h2 \<notin> members H1" "h2 \<notin> members H2" using slots_disjoint(5) [OF sl] by (auto simp: members_def)
    then have mem: "members (H1 @ (xs @ h1 # ys) # H2) = members ?hss - {h2}" using d by auto
    show "members (H1 @ (xs @ h1 # ys) # H2) - (F - {h2}) = members ?hss - F" unfolding mem using F by blast
    show "F - {h2} \<subseteq> members (H1 @ (xs @ h1 # ys) # H2)" unfolding mem using bo by (auto simp: bins_ok_def)
    show "chunk_ptr (chunks s2 ! k) = chunk_ptr (chunks s ! k) \<and> chunk_size (chunks s2 ! k) = chunk_size (chunks s ! k) \<and>
        in_use (chunks s2 ! k) = in_use (chunks s ! k) \<and> bin_num (chunks s2 ! k) = bin_num (chunks s ! k)"
      if k: "k \<in> members ?hss - F" for k
    proof -
      have "k \<noteq> h1" using k F by blast
      then show ?thesis using rest [of k] by (auto simp: s2_def in_use_def)
    qed
    show "\<not> in_use (chunks s2 ! k) \<and> bin_num (chunks s2 ! k) = None" if "k \<in> F - {h2}" for k
      using that bo by (auto simp: bins_ok_def s2_def use)
  qed (simp add: s2_def)
  have "heap_ok (F - {h2}) [h2] s2 (H1 @ (xs @ h1 # ys) # H2) fs" using slots bins2 by (simp add: heap_ok_def)
  then obtain s' where s': "DeallocateChunk h2 s2 = Some s'" "heap_ok (F - {h2}) [] s' (H1 @ (xs @ h1 # ys) # H2) (h2 # fs)"
    "user (chunks s') = user (chunks s2)" "s' = s2\<lparr>chunks := chunks s', free_chunks_list := Some h2\<rparr>" "length (chunks s') = length (chunks s2)"
    "\<And>k. k \<noteq> h2 \<Longrightarrow> chunks s' ! k = chunks s2 ! k"
    using return_slot by metis
  have "user (chunks s2) k = user (chunks s) k" for k
    using rest [of k] nth(1) free by (cases "k = h1") (auto simp: user_def s2_def in_use_def)
  then have "user (chunks s') = user (chunks s)" using s'(3) by (simp add: fun_eq_iff)
  moreover have "in_use (chunks s' ! k) = in_use (chunks s ! k)" for k
  proof (cases "k = h2")
    case True
    have "\<not> in_use (chunks s' ! h2)" using s'(2) by (simp add: heap_ok_def slots_ok_def)
    then show ?thesis using True free by simp
  qed (simp add: s'(6) s2_def use)
  moreover have "others s' = others s" by (subst s'(4)) (simp add: s2_def others_def)
  moreover have "extents (regions s') = extents (regions s)"
  proof -
    have e: "regions s' = regions s2" by (subst s'(4), simp)
    have "extents (regions s2) = extents (regions s)" unfolding R(1) by (simp add: s2_def extents_def)
    then show ?thesis unfolding e .
  qed
  ultimately show thesis using that [of s'] merge s'(1,2) by simp
qed

end
