(* ===== verification/BfcGrow.thy ===== *)
theory BfcGrow
  imports BfcHeap
begin

text \<open>
  How the best-fit allocator gets new memory: the arithmetic of the back-off loop, when the loop ends and when it does
  not, and a new region as one free chunk.
\<close>

subsection \<open>Rounding to floats\<close>

lemma ilog2_bounds: "0 < n \<Longrightarrow> 2 ^ ilog2 n \<le> n \<and> n < 2 ^ Suc (ilog2 n)"
proof (induction n rule: ilog2.induct)
  case (1 n)
  show ?case
  proof (cases "n < 2")
    case True
    with 1 have "n = 1" by simp
    then show ?thesis by (simp add: ilog2.simps)
  next
    case False
    then have "2 ^ ilog2 (n div 2) \<le> n div 2 \<and> n div 2 < 2 ^ Suc (ilog2 (n div 2))" using 1 by simp
    moreover have "ilog2 n = Suc (ilog2 (n div 2))" using False by (subst ilog2.simps) simp
    moreover have "2 * (n div 2) \<le> n" "n < 2 * (n div 2) + 2" by linarith+
    ultimately show ?thesis unfolding power_Suc by simp linarith
  qed
qed

lemma round_float_error: "2 ^ 24 * round_float n \<le> 2 ^ 24 * n + n" "2 ^ 24 * n \<le> 2 ^ 24 * round_float n + n"
proof -
  have "2 ^ 24 * round_float n \<le> 2 ^ 24 * n + n \<and> 2 ^ 24 * n \<le> 2 ^ 24 * round_float n + n"
  proof (cases "n < 2 ^ 24")
    case True
    then show ?thesis by (simp add: round_float_def)
  next
    case False
    define l where "l = ilog2 n"
    have l: "2 ^ l \<le> n" "n < 2 ^ Suc l" using ilog2_bounds [of n] False by (auto simp: l_def)
    have "(2::nat) ^ 24 < 2 ^ Suc l" using False l(2) by linarith
    then have "24 < Suc l" by (rule power_less_imp_less_exp [rotated]) simp
    then obtain k' where k': "l = k' + 24" by (metis add.commute less_Suc_eq_le le_iff_add)
    define q r half where "q = n div 2 ^ Suc k'" and "r = n mod 2 ^ Suc k'" and "half = (2::nat) ^ k'"
    have "n = q * 2 ^ Suc k' + r" unfolding q_def r_def by (rule div_mult_mod_eq [symmetric])
    define m where "m = q * (2 * half)"
    have n: "n = m + r" "r < 2 * half"
      using \<open>n = q * 2 ^ Suc k' + r\<close> by (simp_all add: r_def half_def m_def)
    have h: "2 ^ 24 * half \<le> n" using l(1) by (simp add: k' half_def power_add mult.commute)
    have v: "round_float n = (if half < r \<or> (r = half \<and> odd q) then q + 1 else q) * (2 * half)"
      using False k' unfolding round_float_def l_def [symmetric] Let_def by (simp add: q_def r_def half_def)
    show ?thesis
    proof (cases "half < r \<or> (r = half \<and> odd q)")
      case True
      then have "round_float n = m + 2 * half" "half \<le> r" using v by (auto simp: m_def)
      then show ?thesis using n h by simp
    next
      case False
      then have "round_float n = m" "r \<le> half" using v by (auto simp: m_def)
      then show ?thesis using n h by simp
    qed
  qed
  then show "2 ^ 24 * round_float n \<le> 2 ^ 24 * n + n" "2 ^ 24 * n \<le> 2 ^ 24 * round_float n + n" by blast+
qed

lemma backpedal_bounds:
  "2560 \<le> n \<Longrightarrow> backpedal n + 256 \<le> n" "backpedal n \<le> n" "256 \<le> n \<Longrightarrow> 0 < backpedal n"
  and backpedal_lower: "8 * n < 9 * backpedal n + 9"
proof -
  define f where "f = round_float n"
  define v where "v = round_float (f * 15099494)"
  have b: "backpedal n = v div 2 ^ 24" by (simp add: backpedal_def f_def v_def)
  note f = round_float_error [of n, folded f_def] and v = round_float_error [of "f * 15099494", folded v_def]
  have up: "2 ^ 24 * backpedal n \<le> v" and low: "v < 2 ^ 24 * backpedal n + 2 ^ 24"
    unfolding b by simp_all
  have up': "2 ^ 72 * backpedal n \<le> (2 ^ 24 + 1) ^ 2 * 15099494 * n" using up f(1) v(1) by simp
  show "backpedal n + 256 \<le> n" if "2560 \<le> n" using up' that by simp
  show "backpedal n \<le> n" using up' by simp
  show "0 < backpedal n" if "256 \<le> n" using low f(2) v(2) that by simp
  show "8 * n < 9 * backpedal n + 9" using low f(2) v(2) by simp
qed

lemma RoundedBytes_backpedal:
  assumes "256 dvd n" "0 < n" "n < 2 ^ 63"
  shows "256 dvd RoundedBytes (backpedal n)" "0 < RoundedBytes (backpedal n)" "RoundedBytes (backpedal n) \<le> n"
    "2560 \<le> n \<Longrightarrow> RoundedBytes (backpedal n) < n"
proof -
  have n: "256 \<le> n" using assms(1,2) by (auto elim!: dvdE)
  note b = backpedal_bounds [of n]
  have "backpedal n + 255 < 2 ^ 64" using b(2) assms(3) by simp
  note r = RoundedBytes_eq [OF this]
  show "256 dvd RoundedBytes (backpedal n)" by (rule r(4))
  show "0 < RoundedBytes (backpedal n)" using r(2) b(3) n by simp
  have "(backpedal n + 255) div 256 < n div 256 + 1" using b(2) assms(1) by (auto elim!: dvdE)
  then have "256 * ((backpedal n + 255) div 256) \<le> 256 * (n div 256)" by simp
  then show "RoundedBytes (backpedal n) \<le> n" using r(1) assms(1) by simp
  show "RoundedBytes (backpedal n) < n" if "2560 \<le> n" using r(3) b(1) [OF that] by simp
qed

subsection \<open>The loops of \<open>Extend\<close>\<close>

lemma grow_loop_spec:
  assumes "0 < cur" "cur \<le> 2 ^ 63" "n \<le> 2 ^ 61"
  shows "\<exists>c inc'. grow_loop n cur inc = Some (c, inc') \<and> n \<le> c \<and> cur \<le> c \<and> (c = cur \<and> inc' = inc \<or> c < 2 ^ 62 \<and> inc') \<and>
    (\<forall>d. d dvd cur \<longrightarrow> d dvd c)"
  using assms
proof (induction "n - cur" arbitrary: cur inc rule: less_induct)
  case less
  show ?case
  proof (cases "cur < n")
    case True
    then have "cur * 2 < 2 ^ 62" using less.prems by simp
    then have w: "wrap64 (cur * 2) = cur * 2" by simp
    have "n - cur * 2 < n - cur" using True less.prems(1) by simp
    then obtain c inc' where "grow_loop n (cur * 2) True = Some (c, inc')" "n \<le> c" "cur * 2 \<le> c" "c = cur * 2 \<and> inc' \<or> c < 2 ^ 62 \<and> inc'"
      "\<forall>d. d dvd cur * 2 \<longrightarrow> d dvd c"
      using less.hyps [of "cur * 2" True] less.prems \<open>cur * 2 < 2 ^ 62\<close> by auto
    moreover have "grow_loop n cur inc = grow_loop n (cur * 2) True" using True w by (subst grow_loop.simps) simp
    moreover have "d dvd c" if "d dvd cur" for d
      using \<open>\<forall>d. d dvd cur * 2 \<longrightarrow> d dvd c\<close> dvd_mult2 [OF that, of 2] by blast
    moreover have "cur \<le> c" using \<open>cur * 2 \<le> c\<close> by linarith
    moreover have "c < 2 ^ 62 \<and> inc'" using \<open>c = cur * 2 \<and> inc' \<or> c < 2 ^ 62 \<and> inc'\<close> \<open>cur * 2 < 2 ^ 62\<close> by metis
    ultimately show ?thesis by metis
  next
    case False
    then show ?thesis by (subst grow_loop.simps) auto
  qed
qed

text \<open>What the loop returns: the number of bytes is at most what was asked for.\<close>

lemma backpedal_loop_spec:
  assumes "backpedal_loop Alloc n i mem bytes = Some (mem', bytes')" "256 dvd bytes" "0 < bytes" "bytes < 2 ^ 63"
  shows "256 dvd bytes' \<and> 0 < bytes' \<and> bytes' \<le> bytes \<and> (mem' = mem \<or> (\<exists>j b. mem' = Alloc j b \<and> bytes' \<le> b))"
proof -
  let ?P = "\<lambda>Alloc n i mem bytes r. 256 dvd bytes \<longrightarrow> 0 < bytes \<longrightarrow> bytes < 2 ^ 63 \<longrightarrow>
    256 dvd snd r \<and> 0 < snd r \<and> snd r \<le> bytes \<and> (fst r = mem \<or> (\<exists>j b. fst r = Alloc j b \<and> snd r \<le> b))"
  have "?P Alloc n i mem bytes (mem', bytes')"
  proof (rule backpedal_loop.raw_induct [where P = ?P, OF _ assms(1)])
    fix loop Alloc n i mem bytes and r :: "nat \<times> nat"
    assume IH: "\<And>Alloc n i mem bytes r. loop Alloc n i mem bytes = Some r \<Longrightarrow> ?P Alloc n i mem bytes r"
      and step: "(if mem = 0 \<and> n < bytes then loop Alloc n (i + 1) (Alloc i bytes) (RoundedBytes (backpedal bytes)) else Some (mem, bytes)) = Some r"
    show "?P Alloc n i mem bytes r"
    proof (intro impI)
      assume b: "256 dvd bytes" "0 < bytes" "bytes < 2 ^ 63"
      note rb = RoundedBytes_backpedal [OF b]
      show "256 dvd snd r \<and> 0 < snd r \<and> snd r \<le> bytes \<and> (fst r = mem \<or> (\<exists>j b. fst r = Alloc j b \<and> snd r \<le> b))"
      proof (cases "mem = 0 \<and> n < bytes")
        case True
        then have "loop Alloc n (i + 1) (Alloc i bytes) (RoundedBytes (backpedal bytes)) = Some r" using step by simp
        from IH [OF this] have "256 dvd snd r \<and> 0 < snd r \<and> snd r \<le> RoundedBytes (backpedal bytes) \<and>
            (fst r = Alloc i bytes \<or> (\<exists>j b. fst r = Alloc j b \<and> snd r \<le> b))"
          using rb b(3) by simp
        then show ?thesis using rb(3) by (meson le_trans)
      next
        case False
        then have "r = (mem, bytes)" using step by (simp split: if_splits)
        then show ?thesis using b by simp
      qed
    qed
  qed
  then show ?thesis using assms(2-4) by simp
qed

lemma backpedal_loop_ends:
  assumes "2304 \<le> n" "256 dvd bytes" "0 < bytes" "bytes < 2 ^ 63"
  shows "backpedal_loop Alloc n i mem bytes \<noteq> None"
  using assms
proof (induction bytes arbitrary: i mem rule: less_induct)
  case (less bytes)
  show ?case
  proof (cases "mem = 0 \<and> n < bytes")
    case True
    then have "2560 \<le> bytes" using less.prems by (auto elim!: dvdE)
    note rb = RoundedBytes_backpedal [OF less.prems(2-4)]
    have "backpedal_loop Alloc n (i + 1) (Alloc i bytes) (RoundedBytes (backpedal bytes)) \<noteq> None"
      using less.IH [OF rb(4) less.prems(1) rb(1,2)] rb(3) less.prems(4) \<open>2560 \<le> bytes\<close> by simp
    then show ?thesis using True by (subst backpedal_loop.simps) simp
  next
    case False
    then show ?thesis by (subst backpedal_loop.simps) auto
  qed
qed

text \<open>From 2304 bytes downwards a tenth is less than the rounding, and the number of bytes no longer changes.\<close>

lemma backpedal_stuck:
  assumes "256 dvd bytes" "bytes \<le> 2304"
  shows "RoundedBytes (backpedal bytes) = bytes"
proof -
  obtain k where k: "bytes = 256 * k" using assms(1) by (elim dvdE)
  with assms(2) have "k = 0 \<or> k = 1 \<or> k = 2 \<or> k = 3 \<or> k = 4 \<or> k = 5 \<or> k = 6 \<or> k = 7 \<or> k = 8 \<or> k = 9" by presburger
  then show ?thesis
    unfolding k by (elim disjE) (simp_all add: backpedal_def round_float_def ilog2.simps RoundedBytes_def wrap64_def kMinAllocationSize_def)
qed

lemma backpedal_loop_stuck:
  assumes "\<And>j b. Alloc j b = 0" "256 dvd bytes" "bytes \<le> 2304" "n < bytes"
  shows "backpedal_loop Alloc n i 0 bytes = None"
proof (rule ccontr)
  assume "backpedal_loop Alloc n i 0 bytes \<noteq> None"
  then obtain r where r: "backpedal_loop Alloc n i 0 bytes = Some r" by blast
  let ?P = "\<lambda>Alloc n i mem bytes (r :: nat \<times> nat). \<not> (mem = (0 :: nat) \<and> (\<forall>j b. Alloc j b = (0 :: nat)) \<and> 256 dvd bytes \<and> bytes \<le> 2304 \<and> n < bytes)"
  have "?P Alloc n i 0 bytes r"
  proof (rule backpedal_loop.raw_induct [where P = ?P, OF _ r])
    fix loop Alloc n i mem bytes and r :: "nat \<times> nat"
    assume IH: "\<And>Alloc n i mem bytes r. loop Alloc n i mem bytes = Some r \<Longrightarrow> ?P Alloc n i mem bytes r"
      and step: "(if mem = 0 \<and> n < bytes then loop Alloc n (i + 1) (Alloc i bytes) (RoundedBytes (backpedal bytes)) else Some (mem, bytes)) = Some r"
    show "?P Alloc n i mem bytes r"
    proof
      assume a: "mem = 0 \<and> (\<forall>j b. Alloc j b = 0) \<and> 256 dvd bytes \<and> bytes \<le> 2304 \<and> n < bytes"
      then have "loop Alloc n (i + 1) (Alloc i bytes) (RoundedBytes (backpedal bytes)) = Some r" using step by simp
      from IH [OF this] show False using a backpedal_stuck [of bytes] by simp
    qed
  qed
  then show False using assms by blast
qed

subsection \<open>A new region\<close>

lemma AddAllocationRegion_split:
  assumes "regions_sorted rs" "\<forall>r\<in>set rs. mem + bytes \<le> region_ptr r \<or> end_ptr r \<le> mem" "mem + bytes < 2 ^ 64" "\<forall>r\<in>set rs. region_ptr r \<le> end_ptr r"
  shows "\<exists>R1 R2. rs = R1 @ R2 \<and> AddAllocationRegion mem bytes rs = R1 @ AllocationRegion mem bytes # R2 \<and>
    (\<forall>r\<in>set R1. end_ptr r \<le> mem) \<and> regions_sorted (R1 @ AllocationRegion mem bytes # R2)"
  using assms(1,2,4)
proof (induction rs)
  case Nil
  then show ?case by (simp add: regions_sorted_def)
next
  case (Cons r rs)
  show ?case
  proof (cases "mem < end_ptr r")
    case True
    have ends: "end_ptr (AllocationRegion mem bytes) = mem + bytes" "region_ptr (AllocationRegion mem bytes) = mem"
      using assms(3) by (simp_all add: AllocationRegion_def)
    have "mem + bytes \<le> region_ptr r" using Cons.prems(2) True by auto
    moreover have "mem + bytes \<le> region_ptr q" if "q \<in> set rs" for q
    proof -
      have "end_ptr r \<le> region_ptr q" "mem + bytes \<le> region_ptr q \<or> end_ptr q \<le> mem" using Cons.prems that by (auto simp: regions_sorted_def)
      moreover have "region_ptr q \<le> end_ptr q" using Cons.prems(3) that by simp
      ultimately show ?thesis using True by linarith
    qed
    ultimately have "regions_sorted (AllocationRegion mem bytes # r # rs)" using Cons.prems(1) ends by (auto simp: regions_sorted_def)
    then show ?thesis using True by (intro exI [of _ "[]"] exI [of _ "r # rs"]) simp
  next
    case False
    have sorted: "regions_sorted rs" using Cons.prems(1) by (simp add: regions_sorted_def)
    obtain R1 R2 where R: "rs = R1 @ R2" "AddAllocationRegion mem bytes rs = R1 @ AllocationRegion mem bytes # R2"
      "\<forall>r\<in>set R1. end_ptr r \<le> mem" "regions_sorted (R1 @ AllocationRegion mem bytes # R2)"
      using Cons.IH [OF sorted] Cons.prems(2,3) by auto
    have "regions_sorted (r # R1 @ AllocationRegion mem bytes # R2)"
      using R(1,4) False Cons.prems(1) by (auto simp: regions_sorted_def AllocationRegion_def)
    then show ?thesis using R False by (intro exI [of _ "r # R1"] exI [of _ R2]) simp
  qed
qed

lemma set_handle_first:
  assumes "\<forall>q\<in>set R1. end_ptr q \<le> region_ptr r" "region_ptr r < end_ptr r" "handles r \<noteq> []" "region_ptr r < 2 ^ 64"
  shows "set_handle (region_ptr r) v (R1 @ r # R2) = Some (R1 @ r\<lparr>handles := (handles r)[0 := v]\<rparr> # R2)"
  using assms by (induction R1) (auto simp: IndexFor_def to_int32_def array_simps wr_def)

definition region_chunk :: "nat \<Rightarrow> nat \<Rightarrow> chunk \<Rightarrow> chunk" where
  "region_chunk mem bytes c = c\<lparr>chunk_ptr := mem, chunk_size := bytes, allocation_id := -1, prev_chunk := None, next_chunk := None\<rparr>"

lemma new_region_ok:
  assumes "0 < mem" "256 dvd bytes" "0 < bytes" "bytes < 2 ^ 39" "mem + bytes < 2 ^ 64" "cs ! h = region_chunk mem bytes c"
  shows "region_ok cs ((AllocationRegion mem bytes)\<lparr>handles := (handles (AllocationRegion mem bytes))[0 := Some h]\<rparr>) [h]"
proof -
  have n: "wrap64 (bytes + kMinAllocationSize - 1) div kMinAllocationSize = bytes div 256"
    using assms(2,4) by (auto simp: kMinAllocationSize_def elim!: dvdE)
  have pos: "0 < bytes div 256" using assms(2,3) by (auto elim!: dvdE)
  have at: "(replicate (bytes div 256) None)[0 := Some h] ! j = (if j = 0 then Some h else None)" if "j < bytes div 256" for j
    using that by (cases j) simp_all
  show ?thesis
    using assms pos n by (auto simp: region_ok_def handles_ok_def AllocationRegion_def region_chunk_def chunk_end_def at)
qed

lemma AllocateChunk_frame:
  assumes "AllocateChunk s = Some (h, s')" "chunks t = chunks s" "free_chunks_list t = free_chunks_list s"
  shows "AllocateChunk t = Some (h, t\<lparr>chunks := chunks s', free_chunks_list := free_chunks_list s'\<rparr>)"
  using assms by (auto simp: AllocateChunk_def ChunkFromHandle_def split: option.splits bind_splits if_splits)

lemma new_region:
  assumes heap: "heap_ok {} [] s hss fs"
    and new: "0 < mem" "256 dvd bytes" "0 < bytes" "bytes < 2 ^ 39" "mem + bytes < 2 ^ 64"
    and apart: "\<forall>r\<in>set (regions s). mem + bytes \<le> region_ptr r \<or> end_ptr r \<le> mem"
    and t: "chunks t = chunks s" "free_chunks_list t = free_chunks_list s" "bins t = bins s"
      "regions t = AddAllocationRegion mem bytes (regions s)"
  obtains h H1 H2 s' fs' where "do { (h, s) \<leftarrow> AllocateChunk t;
      s \<leftarrow> modify h (region_chunk mem bytes) s;
      rs \<leftarrow> set_handle mem (Some h) (regions s);
      InsertFreeChunkIntoBin h (s\<lparr>regions := rs\<rparr>) } = Some s'"
    "hss = H1 @ H2" "heap_ok {} [] s' (H1 @ [h] # H2) fs'" "user (chunks s') = user (chunks s)" "others s' = others t"
    "extents (regions s') = extents (regions t)" "\<And>k. k \<in> members hss \<Longrightarrow> in_use (chunks s' ! k) = in_use (chunks s ! k)"
proof -
  have sl0: "slots_ok [] s hss fs" using heap by (simp add: heap_ok_def)
  obtain h fs1 s1 where s1: "AllocateChunk s = Some (h, s1)" "heap_ok {} [h] s1 hss fs1" "user (chunks s1) = user (chunks s)"
    "s1 = s\<lparr>chunks := chunks s1, free_chunks_list := free_chunks_list s1\<rparr>" "\<And>k. k \<in> members hss \<Longrightarrow> chunks s1 ! k = chunks s ! k"
    using take_slot [OF heap] by metis
  have sl: "slots_ok [h] s1 hss fs1" and bo: "bins_ok {} s1 (members hss)" using s1(2) by (simp_all add: heap_ok_def)
  have reg1: "regions s1 = regions s" "bins s1 = bins s" by (subst s1(4), simp)+
  have h: "h < length (chunks s1)" "h \<notin> members hss" "h \<notin> set fs1" "\<not> in_use (chunks s1 ! h)" "bin_num (chunks s1 ! h) = None"
    using sl slots_disjoint [OF sl] by (auto simp: slots_ok_def)
  define r where "r = AllocationRegion mem bytes"
  have ordered: "\<forall>r\<in>set (regions s). region_ptr r \<le> end_ptr r"
    using sl0 by (auto simp: slots_ok_def list_all2_conv_all_nth in_set_conv_nth region_ok_def)
  obtain R1 R2 where R: "regions s = R1 @ R2" "AddAllocationRegion mem bytes (regions s) = R1 @ r # R2"
    "\<forall>r\<in>set R1. end_ptr r \<le> mem" "regions_sorted (R1 @ r # R2)"
    using AddAllocationRegion_split [OF _ apart new(5) ordered] sl0 unfolding r_def slots_ok_def by blast
  have "list_all2 (region_ok (chunks s1)) (R1 @ R2) hss" using sl reg1 R(1) by (simp add: slots_ok_def)
  then obtain H1 H2 where H: "hss = H1 @ H2" "list_all2 (region_ok (chunks s1)) R1 H1" "list_all2 (region_ok (chunks s1)) R2 H2"
    by (auto simp: list_all2_append1)
  let ?c = "region_chunk mem bytes (chunks s1 ! h)"
  let ?cs = "(chunks s1)[h := ?c]" and ?r = "r\<lparr>handles := (handles r)[0 := Some h]\<rparr>"
  define s2 where "s2 = t\<lparr>free_chunks_list := free_chunks_list s1, chunks := ?cs, regions := R1 @ ?r # R2\<rparr>"
  have rp: "region_ptr r = mem" "end_ptr r = mem + bytes" "handles r \<noteq> []" "memory_size r = bytes"
  proof -
    have "256 \<le> wrap64 (bytes + kMinAllocationSize - 1)" using new(2-4) by (auto simp: kMinAllocationSize_def elim!: dvdE)
    then show "region_ptr r = mem" "end_ptr r = mem + bytes" "handles r \<noteq> []" "memory_size r = bytes"
      using new(5) by (auto simp: r_def AllocationRegion_def kMinAllocationSize_def div_eq_0_iff)
  qed
  have sh: "set_handle mem (Some h) (R1 @ r # R2) = Some (R1 @ ?r # R2)"
    using set_handle_first [of R1 r] R(3) rp new(3,5) by simp
  have code: "do { (h, s) \<leftarrow> AllocateChunk t; s \<leftarrow> modify h (region_chunk mem bytes) s; rs \<leftarrow> set_handle mem (Some h) (regions s);
      InsertFreeChunkIntoBin h (s\<lparr>regions := rs\<rparr>) } = InsertFreeChunkIntoBin h s2"
    using AllocateChunk_frame [OF s1(1) t(1,2)] h(1) t(4) R(2) sh by (simp add: modify_eq s2_def)
  have mem_same: "?cs ! k = chunks s1 ! k" if "k \<noteq> h" for k using that by simp
  have mem_members: "?cs ! k = chunks s1 ! k" if "k \<in> members hss \<union> set fs1" for k
    using that h(2,3) by (intro mem_same) blast
  have slots: "slots_ok [] s2 (H1 @ [h] # H2) fs1"
    unfolding slots_ok_def
  proof (intro conjI)
    have "region_ok ?cs ?r [h]" unfolding r_def by (rule new_region_ok [OF new]) (simp add: h(1))
    moreover have "list_all2 (region_ok ?cs) R1 H1" "list_all2 (region_ok ?cs) R2 H2"
      using H mem_members by (auto intro!: regions_frame [OF H(2)] regions_frame [OF H(3)])
    ultimately show "list_all2 (region_ok (chunks s2)) (regions s2) (H1 @ [h] # H2)"
      using list_all2_lengthD [OF H(2)] by (simp add: s2_def list_all2_append)
    show "regions_sorted (regions s2)" using R(4) by (simp add: s2_def regions_sorted_def sorted_wrt_append)
    show "distinct ([] @ concat (H1 @ [h] # H2) @ fs1)"
      using slots_disjoint [OF sl] h(2,3) H(1) by (auto simp: members_def)
    show "set [] \<union> members (H1 @ [h] # H2) \<union> set fs1 = {..<length (chunks s2)}"
      using sl H(1) by (auto simp: slots_ok_def s2_def)
    have "flist ?cs (free_chunks_list s1) fs1 \<longleftrightarrow> flist (chunks s1) (free_chunks_list s1) fs1"
      by (rule flist_cong) (use mem_members in blast)
    then show "flist (chunks s2) (free_chunks_list s2) fs1" using sl by (simp add: s2_def slots_ok_def)
    show "\<forall>k\<in>set [] \<union> set fs1. \<not> in_use (chunks s2 ! k) \<and> bin_num (chunks s2 ! k) = None"
      using sl mem_members by (auto simp: s2_def slots_ok_def)
  qed
  have bins2: "bins_ok {h} s2 (members (H1 @ [h] # H2))"
    by (rule bins_ok_frame [OF bo]) (use h H(1) mem_members t(3) reg1 in \<open>auto simp: s2_def region_chunk_def in_use_def\<close>)
  have "heap_ok {h} [] s2 (H1 @ [h] # H2) fs1" using slots bins2 by (simp add: heap_ok_def)
  then obtain s' where s': "InsertFreeChunkIntoBin h s2 = Some s'" "heap_ok ({h} - {h}) [] s' (H1 @ [h] # H2) fs1"
    "user (chunks s') = user (chunks s2)"
    "s' = s2\<lparr>bins := bins s', chunks := (chunks s2)[h := (chunks s2 ! h)\<lparr>bin_num := Some (BinNumForSize (chunk_size (chunks s2 ! h)))\<rparr>]\<rparr>"
    using insert_into_bin [of "{h}" "[]" s2 "H1 @ [h] # H2" fs1 h] by blast
  have "user (chunks s2) k = user (chunks s1) k" for k
    using h(1,4) by (cases "k = h") (simp_all add: user_def s2_def region_chunk_def in_use_def)
  then have "user (chunks s') = user (chunks s)" using s'(3) s1(3) by (simp add: fun_eq_iff)
  moreover have "others s' = others t" by (subst s'(4)) (simp add: s2_def others_def)
  moreover have "extents (regions s') = extents (regions t)"
    using t(4) R(2) by (subst s'(4)) (simp add: s2_def extents_def)
  moreover have chunks': "chunks s' = (chunks s2)[h := (chunks s2 ! h)\<lparr>bin_num := Some (BinNumForSize (chunk_size (chunks s2 ! h)))\<rparr>]"
    by (subst s'(4)) simp
  then have "in_use (chunks s' ! k) = in_use (chunks s ! k)" if "k \<in> members hss" for k
  proof -
    have "k \<noteq> h" using that h(2) by blast
    then show ?thesis using s1(5) [OF that] chunks' by (simp add: s2_def)
  qed
  ultimately show thesis using that [of s' H1 H2 h fs1] code s'(1,2) H(1) by simp
qed

end
