(* ===== verification/BfcSafety.thy ===== *)
theory BfcSafety
  imports BfcGrow "HOL-Library.Multiset"
begin

text \<open>
  Safety of the best-fit allocator: every operation keeps the heap well formed, never fails a check, hands out the
  best fitting free chunk, and gives memory back to it. The memory below the allocator is a parameter.
\<close>

subsection \<open>Searching the bins\<close>

lemma scan_bin_spec:
  assumes "\<forall>x\<in>set hs. x < length (chunks s)"
  shows "scan_bin s n hs = Some (find (\<lambda>h. n \<le> chunk_size (chunks s ! h)) hs)"
  using assms by (induction hs) (auto simp: ChunkFromHandle_eq)

lemma scan_bins_spec:
  assumes "\<forall>b\<in>set bs. b < length (bins s) \<and> (\<forall>x\<in>set (bins s ! b). x < length (chunks s))" "sorted_wrt (<) bs"
  shows "case scan_bins s n bs of
      None \<Rightarrow> False
    | Some None \<Rightarrow> \<forall>b\<in>set bs. \<forall>x\<in>set (bins s ! b). chunk_size (chunks s ! x) < n
    | Some (Some (b, h)) \<Rightarrow> b \<in> set bs \<and> h \<in> set (bins s ! b) \<and> n \<le> chunk_size (chunks s ! h) \<and>
        find (\<lambda>h. n \<le> chunk_size (chunks s ! h)) (bins s ! b) = Some h \<and>
        (\<forall>b'\<in>set bs. b' < b \<longrightarrow> (\<forall>x\<in>set (bins s ! b'). chunk_size (chunks s ! x) < n))"
  using assms
proof (induction bs)
  case (Cons b bs)
  let ?f = "find (\<lambda>h. n \<le> chunk_size (chunks s ! h)) (bins s ! b)"
  have b: "rd (bins s) (int b) = Some (bins s ! b)" "scan_bin s n (bins s ! b) = Some ?f"
    using Cons.prems by (simp_all add: array_simps scan_bin_spec)
  show ?case
  proof (cases ?f)
    case None
    then have small: "\<forall>x\<in>set (bins s ! b). chunk_size (chunks s ! x) < n" by (auto simp: find_None_iff not_le)
    have "scan_bins s n (b # bs) = scan_bins s n bs" using b None by simp
    then show ?thesis using Cons.IH Cons.prems small by (auto split: option.splits)
  next
    case (Some h)
    then have "h \<in> set (bins s ! b)" "n \<le> chunk_size (chunks s ! h)" by (auto simp: find_Some_iff)
    moreover have "scan_bins s n (b # bs) = Some (Some (b, h))" using b Some by simp
    ultimately show ?thesis using Cons.prems Some by auto
  qed
qed simp

lemma find_sorted:
  assumes "sorted_wrt (ChunkComparator cs) hs" "find P hs = Some h" "k \<in> set hs" "P k" "k \<noteq> h"
  shows "ChunkComparator cs h k"
  using assms by (induction hs) (auto split: if_splits)

text \<open>The best fit: the smallest free chunk that is large enough, the first of several.\<close>

definition best_fit :: "bfc \<Rightarrow> nat set \<Rightarrow> nat \<Rightarrow> nat \<Rightarrow> bool" where
  "best_fit s H n h \<longleftrightarrow> h \<in> H \<and> \<not> in_use (chunks s ! h) \<and> n \<le> chunk_size (chunks s ! h) \<and>
    (\<forall>k\<in>H. \<not> in_use (chunks s ! k) \<and> n \<le> chunk_size (chunks s ! k) \<and> k \<noteq> h \<longrightarrow> ChunkComparator (chunks s) h k)"

lemma chunk_size_bounds:
  assumes "slots_ok ls s hss fs" "h \<in> members hss"
  shows "256 \<le> chunk_size (chunks s ! h)" "chunk_size (chunks s ! h) < 2 ^ 64"
  using chunk_bounds [OF assms] by (auto simp: chunk_end_def elim!: dvdE)

lemma scan_bins_best_fit:
  assumes heap: "heap_ok {} [] s hss fs" and n: "256 \<le> n" "n < 2 ^ 64"
  shows "case scan_bins s n [BinNumForSize n..<kNumBins] of
      None \<Rightarrow> False
    | Some None \<Rightarrow> \<forall>k\<in>members hss. \<not> in_use (chunks s ! k) \<longrightarrow> chunk_size (chunks s ! k) < n
    | Some (Some (b, h)) \<Rightarrow> best_fit s (members hss) n h \<and> bin_num (chunks s ! h) = Some b"
proof -
  have sl: "slots_ok [] s hss fs" and bo: "bins_ok {} s (members hss)" using heap by (simp_all add: heap_ok_def)
  let ?bs = "[BinNumForSize n..<kNumBins]"
  have bin: "set (bins s ! b) = {h \<in> members hss. bin_num (chunks s ! h) = Some b}" "sorted_wrt (ChunkComparator (chunks s)) (bins s ! b)"
    if "b < kNumBins" for b using bo that by (simp_all add: bins_ok_def)
  have num: "bin_num (chunks s ! k) = (if in_use (chunks s ! k) then None else Some (BinNumForSize (chunk_size (chunks s ! k))))"
    if "k \<in> members hss" for k using bo that by (simp add: bins_ok_def)
  have "\<forall>b\<in>set ?bs. b < length (bins s) \<and> (\<forall>x\<in>set (bins s ! b). x < length (chunks s))"
    using bo bin slot_less [OF sl] by (auto simp: bins_ok_def)
  note spec = scan_bins_spec [OF this, of n]
  have large: "BinNumForSize n \<le> BinNumForSize (chunk_size (chunks s ! k))" if "k \<in> members hss" "n \<le> chunk_size (chunks s ! k)" for k
    using BinNumForSize_mono [OF n(1) that(2)] chunk_size_bounds [OF sl that(1)] by simp
  show ?thesis
  proof (cases "scan_bins s n ?bs")
    case None
    then show ?thesis using spec by simp
  next
    case (Some found)
    show ?thesis
    proof (cases found)
      case None
      then have small: "\<forall>b\<in>set ?bs. \<forall>x\<in>set (bins s ! b). chunk_size (chunks s ! x) < n" using spec Some by simp
      have "chunk_size (chunks s ! k) < n" if k: "k \<in> members hss" "\<not> in_use (chunks s ! k)" for k
      proof (rule ccontr)
        assume big: "\<not> chunk_size (chunks s ! k) < n"
        then have "BinNumForSize (chunk_size (chunks s ! k)) \<in> set ?bs" using large [OF k(1)] by simp
        moreover have "k \<in> set (bins s ! BinNumForSize (chunk_size (chunks s ! k)))" using bin num k by simp
        ultimately show False using small big by blast
      qed
      then show ?thesis using Some None by simp
    next
      case (Some bh)
      obtain b h where bh: "bh = (b, h)" by (cases bh)
      have f: "b \<in> set ?bs" "h \<in> set (bins s ! b)" "n \<le> chunk_size (chunks s ! h)"
        "find (\<lambda>h. n \<le> chunk_size (chunks s ! h)) (bins s ! b) = Some h"
        "\<forall>b'\<in>set ?bs. b' < b \<longrightarrow> (\<forall>x\<in>set (bins s ! b'). chunk_size (chunks s ! x) < n)"
        using spec \<open>scan_bins s n ?bs = Some found\<close> Some bh by simp_all
      have b: "b < kNumBins" using f(1) by simp
      have h: "h \<in> members hss" "bin_num (chunks s ! h) = Some b" using f(2) bin(1) [OF b] by auto
      then have hfree: "\<not> in_use (chunks s ! h)" "b = BinNumForSize (chunk_size (chunks s ! h))" using num [OF h(1)] by (auto split: if_splits)
      have "ChunkComparator (chunks s) h k"
        if k: "k \<in> members hss" "\<not> in_use (chunks s ! k)" "n \<le> chunk_size (chunks s ! k)" "k \<noteq> h" for k
      proof -
        let ?c = "BinNumForSize (chunk_size (chunks s ! k))"
        have kb: "k \<in> set (bins s ! ?c)" "?c \<in> set ?bs" using bin num k large [OF k(1,3)] by simp_all
        then have "\<not> ?c < b" using f(5) k(3) by fastforce
        then consider "?c = b" | "b < ?c" by linarith
        then show ?thesis
        proof cases
          case 1
          then show ?thesis using find_sorted [OF bin(2) [OF b] f(4), of k] kb(1) k by simp
        next
          case 2
          then have "chunk_size (chunks s ! h) < chunk_size (chunks s ! k)"
            using BinNumForSize_less_size chunk_size_bounds [OF sl] h(1) k(1) unfolding hfree(2) by blast
          then show ?thesis by (simp add: ChunkComparator_def Let_def)
        qed
      qed
      then have "best_fit s (members hss) n h" using h hfree f(3) by (simp add: best_fit_def)
      then show ?thesis using \<open>scan_bins s n ?bs = Some found\<close> Some bh h by simp
    qed
  qed
qed

subsection \<open>Handing out a chunk\<close>

text \<open>No two neighbours are free.\<close>

definition coalesced :: "(nat \<Rightarrow> bool) \<Rightarrow> nat list list \<Rightarrow> bool" where
  "coalesced used hss \<longleftrightarrow> (\<forall>hs\<in>set hss. successively (\<lambda>a b. used a \<or> used b) hs)"

lemma coalesced_cong: "(\<And>k. k \<in> members hss \<Longrightarrow> u k = v k) \<Longrightarrow> coalesced u hss \<longleftrightarrow> coalesced v hss"
  unfolding coalesced_def members_def
  by (intro ball_cong refl successively_cong) auto

lemma slots_ok_others:
  "slots_ok ls s hss fs \<Longrightarrow> chunks s' = chunks s \<Longrightarrow> regions s' = regions s \<Longrightarrow> free_chunks_list s' = free_chunks_list s \<Longrightarrow> slots_ok ls s' hss fs"
  by (simp add: slots_ok_def)

text \<open>A chunk that is in no bin is put into use.\<close>

lemma use_chunk:
  assumes "heap_ok F [] s hss fs" "h \<in> F" "i \<noteq> -1" "chunks s' = (chunks s)[h := (chunks s ! h)\<lparr>requested_size := q, allocation_id := i\<rparr>]"
    and "regions s' = regions s" "free_chunks_list s' = free_chunks_list s" "bins s' = bins s"
  shows "heap_ok (F - {h}) [] s' hss fs"
    "user (chunks s') = (user (chunks s))(h \<mapsto> (chunk_ptr (chunks s ! h), chunk_size (chunks s ! h), q, i))"
    "in_use (chunks s' ! k) \<longleftrightarrow> k = h \<or> in_use (chunks s ! k)"
proof -
  have sl: "slots_ok [] s hss fs" and bo: "bins_ok F s (members hss)" using assms(1) by (simp_all add: heap_ok_def)
  have h: "h \<in> members hss" "bin_num (chunks s ! h) = None" "\<not> in_use (chunks s ! h)" using bo assms(2) by (auto simp: bins_ok_def)
  have l: "h < length (chunks s)" using slot_less [OF sl h(1)] .
  have F: "F \<subseteq> members hss" using bo by (simp add: bins_ok_def)
  have "slots_ok [] s' hss fs"
    by (rule slots_ok_relabel [OF sl h(1) _ assms(4-6)]) (simp add: same_link_def)
  moreover have "bins_ok (F - {h}) s' (members hss)"
    unfolding bins_ok_def
  proof (intro conjI allI impI ballI)
    have link: "same_link (chunks s ! k) (chunks s' ! k)" "bin_num (chunks s' ! k) = bin_num (chunks s ! k)" for k
      using l by (cases "k = h"; simp add: assms(4) same_link_def)+
    show "length (bins s') = kNumBins" "F - {h} \<subseteq> members hss" using bo assms(7) F by (auto simp: bins_ok_def)
    show "sorted_wrt (ChunkComparator (chunks s')) (bins s' ! b)" if "b < kNumBins" for b
      unfolding bin_cong [OF link(1)] assms(7) using bo that by (simp add: bins_ok_def)
    show "set (bins s' ! b) = {k \<in> members hss. bin_num (chunks s' ! k) = Some b}" if "b < kNumBins" for b
      unfolding link(2) assms(7) using bo that by (simp add: bins_ok_def)
    show "bin_num (chunks s' ! k) = (if in_use (chunks s' ! k) \<or> k \<in> F - {h} then None else Some (BinNumForSize (chunk_size (chunks s' ! k))))"
      if "k \<in> members hss" for k
    proof (cases "k = h")
      case True
      then show ?thesis using l h assms(3) by (simp add: assms(4) in_use_def)
    next
      case False
      then show ?thesis using bo that by (simp add: assms(4) bins_ok_def)
    qed
    show "\<not> in_use (chunks s' ! k)" if "k \<in> F - {h}" for k using bo that by (simp add: assms(4) bins_ok_def)
  qed
  ultimately show "heap_ok (F - {h}) [] s' hss fs" by (simp add: heap_ok_def)
  show "user (chunks s') = (user (chunks s))(h \<mapsto> (chunk_ptr (chunks s ! h), chunk_size (chunks s ! h), q, i))"
    using l assms(3) by (auto simp: user_def fun_eq_iff assms(4) in_use_def nth_list_update)
  show "in_use (chunks s' ! k) \<longleftrightarrow> k = h \<or> in_use (chunks s ! k)"
    using l assms(3) by (cases "k = h") (simp_all add: assms(4) in_use_def)
qed

definition heap_inv :: "bfc \<Rightarrow> bool" where
  "heap_inv s \<longleftrightarrow> (\<exists>hss fs. heap_ok {} [] s hss fs \<and> coalesced (\<lambda>k. in_use (chunks s ! k)) hss)"

definition is_free :: "bfc \<Rightarrow> nat \<Rightarrow> bool" where
  "is_free s h \<longleftrightarrow> h < length (chunks s) \<and> bin_num (chunks s ! h) \<noteq> None"

definition count_alloc :: "nat \<Rightarrow> stats \<Rightarrow> stats" where
  "count_alloc n st = st\<lparr>num_allocs := num_allocs st + 1, bytes_in_use := bytes_in_use st + int n,
     max_bytes_in_use := max (max_bytes_in_use st) (bytes_in_use st + int n), max_alloc_size := max (max_alloc_size st) (int n)\<rparr>"

lemma free_iff:
  assumes "heap_ok {} [] s hss fs"
  shows "is_free s k \<longleftrightarrow> k \<in> members hss \<and> \<not> in_use (chunks s ! k)"
proof -
  have sl: "slots_ok [] s hss fs" and bo: "bins_ok {} s (members hss)" using assms by (simp_all add: heap_ok_def)
  have "members hss \<union> set fs = {..<length (chunks s)}" using sl by (simp add: slots_ok_def)
  then have "k < length (chunks s) \<longleftrightarrow> k \<in> members hss \<or> k \<in> set fs" by auto
  moreover have "bin_num (chunks s ! k) = None" if "k \<in> set fs" using sl that by (simp add: slots_ok_def)
  moreover have "bin_num (chunks s ! k) \<noteq> None \<longleftrightarrow> \<not> in_use (chunks s ! k)" if "k \<in> members hss"
    using bo that by (auto simp: bins_ok_def)
  ultimately show ?thesis unfolding is_free_def by (cases "k \<in> members hss") auto
qed

lemma coalesced_append:
  "coalesced u (H1 @ hs # H2) \<longleftrightarrow> coalesced u H1 \<and> successively (\<lambda>a b. u a \<or> u b) hs \<and> coalesced u H2"
  by (auto simp: coalesced_def)

lemma successively_use:
  assumes "successively (\<lambda>a b. u a \<or> u b) hs" "\<And>k. k \<in> set hs \<Longrightarrow> u k \<Longrightarrow> v k"
  shows "successively (\<lambda>a b. v a \<or> v b) hs"
  using assms by (auto intro: successively_mono)

lemma coalesced_mono:
  assumes "coalesced u hss" "\<And>k. k \<in> members hss \<Longrightarrow> u k \<Longrightarrow> v k"
  shows "coalesced v hss"
  unfolding coalesced_def
proof
  fix hs assume hs: "hs \<in> set hss"
  then have "successively (\<lambda>a b. u a \<or> u b) hs" using assms(1) by (simp add: coalesced_def)
  then show "successively (\<lambda>a b. v a \<or> v b) hs"
    by (rule successively_use) (use assms(2) hs in \<open>auto simp: members_def\<close>)
qed

lemma successively_split:
  assumes "successively (\<lambda>a b. u a \<or> u b) (xs @ h # ys)" "\<not> u h" "v h" "\<And>k. k \<in> set xs \<union> set ys \<Longrightarrow> u k \<Longrightarrow> v k"
  shows "successively (\<lambda>a b. v a \<or> v b) (xs @ h # hn # ys)"
proof -
  have "successively (\<lambda>a b. v a \<or> v b) xs" "successively (\<lambda>a b. v a \<or> v b) ys"
    using assms(1,4) by (auto simp: successively_append_iff successively_Cons intro: successively_use)
  moreover have "v (hd ys)" if "ys \<noteq> []" using assms that by (auto simp: successively_append_iff successively_Cons)
  ultimately show ?thesis using assms(3) by (auto simp: successively_append_iff successively_Cons)
qed

lemma FindChunkPtr_spec:
  assumes inv: "heap_inv s" and n: "256 dvd n" "256 \<le> n" "n < 2 ^ 63" and id: "next_allocation_id s \<noteq> -1"
  shows "(\<forall>k. is_free s k \<longrightarrow> chunk_size (chunks s ! k) < n) \<and> FindChunkPtr (BinNumForSize n) n q s = Some (0, s) \<or>
    (\<exists>h sz s'. is_free s h \<and> n \<le> chunk_size (chunks s ! h) \<and>
      (\<forall>k. is_free s k \<and> n \<le> chunk_size (chunks s ! k) \<and> k \<noteq> h \<longrightarrow> ChunkComparator (chunks s) h k) \<and>
      sz = (if 2 * n \<le> chunk_size (chunks s ! h) then n else chunk_size (chunks s ! h)) \<and>
      FindChunkPtr (BinNumForSize n) n q s = Some (chunk_ptr (chunks s ! h), s') \<and> heap_inv s' \<and>
      user (chunks s') = (user (chunks s))(h \<mapsto> (chunk_ptr (chunks s ! h), sz, q, next_allocation_id s)) \<and>
      others s' = others (s\<lparr>next_allocation_id := next_allocation_id s + 1, stats := count_alloc sz (stats s)\<rparr>) \<and>
      extents (regions s') = extents (regions s))"
proof -
  obtain hss fs where heap: "heap_ok {} [] s hss fs" and co: "coalesced (\<lambda>k. in_use (chunks s ! k)) hss"
    using inv by (auto simp: heap_inv_def)
  have sl: "slots_ok [] s hss fs" and bo: "bins_ok {} s (members hss)" using heap by (simp_all add: heap_ok_def)
  have scan: "case scan_bins s n [BinNumForSize n..<kNumBins] of
      None \<Rightarrow> False
    | Some None \<Rightarrow> \<forall>k\<in>members hss. \<not> in_use (chunks s ! k) \<longrightarrow> chunk_size (chunks s ! k) < n
    | Some (Some (b, h)) \<Rightarrow> best_fit s (members hss) n h \<and> bin_num (chunks s ! h) = Some b"
    using scan_bins_best_fit [OF heap] n by simp
  then obtain found where found: "scan_bins s n [BinNumForSize n..<kNumBins] = Some found" by (auto split: option.splits)
  show ?thesis
  proof (cases found)
    case None
    then show ?thesis using scan found free_iff [OF heap] by (simp add: FindChunkPtr_def)
  next
    case (Some bh)
    obtain b h where bh: "bh = (b, h)" by (cases bh)
    have best: "best_fit s (members hss) n h" and num: "bin_num (chunks s ! h) = Some b" using scan found Some bh by simp_all
    have h: "h \<in> members hss" "\<not> in_use (chunks s ! h)" "n \<le> chunk_size (chunks s ! h)" using best by (simp_all add: best_fit_def)
    define s1 where "s1 = s\<lparr>bins := (bins s)[b := remove1 h (bins s ! b)], chunks := (chunks s)[h := (chunks s ! h)\<lparr>bin_num := None\<rparr>]\<rparr>"
    note rm = bin_removed [OF heap h(1) num s1_def]
    have l: "h < length (chunks s)" using rm(7) .
    have c1: "chunks s1 ! h = (chunks s ! h)\<lparr>bin_num := None\<rparr>" using l by (simp add: s1_def)
    have use1: "in_use (chunks s1 ! k) = in_use (chunks s ! k)" for k
      using l by (cases "k = h") (simp_all add: s1_def in_use_def)
    obtain H1 xs ys H2 where hss: "hss = H1 @ (xs @ h # ys) # H2" using members_split [OF h(1)] by (metis split_list)
    have hs: "successively (\<lambda>a b. in_use (chunks s ! a) \<or> in_use (chunks s ! b)) (xs @ h # ys)" and
      co': "coalesced (\<lambda>k. in_use (chunks s ! k)) H1" "coalesced (\<lambda>k. in_use (chunks s ! k)) H2"
      using co unfolding hss coalesced_append by blast+
    let ?sz = "if 2 * n \<le> chunk_size (chunks s ! h) then n else chunk_size (chunks s ! h)"
    have "\<exists>s2 hss2 fs2. (if wrap64 (n * 2) \<le> chunk_size (chunks s1 ! h) then SplitChunk h n s1 else Some s1) = Some s2 \<and>
      heap_ok {h} [] s2 hss2 fs2 \<and> user (chunks s2) = user (chunks s) \<and> chunk_size (chunks s2 ! h) = ?sz \<and>
      chunk_ptr (chunks s2 ! h) = chunk_ptr (chunks s ! h) \<and> others s2 = others s \<and> extents (regions s2) = extents (regions s) \<and>
      coalesced (\<lambda>k. k = h \<or> in_use (chunks s2 ! k)) hss2"
    proof (cases "2 * n \<le> chunk_size (chunks s ! h)")
      case True
      have heap1: "heap_ok {h} [] s1 (H1 @ (xs @ h # ys) # H2) fs" using rm(1) hss by simp
      have lt: "n < chunk_size (chunks s1 ! h)" using True n(2) c1 by simp
      have mem: "h \<in> members (H1 @ (xs @ h # ys) # H2)" by simp
      obtain s2 hn fs2 where s2: "SplitChunk h n s1 = Some s2" "heap_ok {h} [] s2 (H1 @ (xs @ h # hn # ys) # H2) fs2"
        "user (chunks s2) = user (chunks s1)" "chunk_size (chunks s2 ! h) = n" "chunk_ptr (chunks s2 ! h) = chunk_ptr (chunks s1 ! h)"
        "others s2 = others s1" "extents (regions s2) = extents (regions s1)"
        "\<And>k. k \<in> members (H1 @ (xs @ h # ys) # H2) \<Longrightarrow> in_use (chunks s2 ! k) = in_use (chunks s1 ! k)"
        using split_chunk [OF heap1 _ mem n(1) _ lt] n(2) by (metis insertI1 less_le_trans zero_less_numeral)
      have same: "in_use (chunks s2 ! k) = in_use (chunks s ! k)" if "k \<in> members (H1 @ (xs @ h # ys) # H2)" for k
        using s2(8) [OF that] use1 by simp
      have "coalesced (\<lambda>k. k = h \<or> in_use (chunks s2 ! k)) (H1 @ (xs @ h # hn # ys) # H2)"
        unfolding coalesced_append
      proof (intro conjI)
        show "successively (\<lambda>a b. (a = h \<or> in_use (chunks s2 ! a)) \<or> (b = h \<or> in_use (chunks s2 ! b))) (xs @ h # hn # ys)"
          by (rule successively_split [OF hs]) (use h same in auto)
        show "coalesced (\<lambda>k. k = h \<or> in_use (chunks s2 ! k)) H1" "coalesced (\<lambda>k. k = h \<or> in_use (chunks s2 ! k)) H2"
          by (rule coalesced_mono [OF co'(1)], use same in simp) (rule coalesced_mono [OF co'(2)], use same in simp)
      qed
      moreover have "others s1 = others s" "regions s1 = regions s" by (simp_all add: s1_def others_def)
      moreover have "wrap64 (n * 2) \<le> chunk_size (chunks s1 ! h)" using True n(3) c1 by (simp add: mult.commute)
      ultimately show ?thesis using s2(1-7) rm(2) c1 True by (intro exI conjI) (simp_all only: if_True, auto)
    next
      case False
      have "coalesced (\<lambda>k. k = h \<or> in_use (chunks s1 ! k)) hss"
        by (rule coalesced_mono [OF co]) (simp add: use1)
      moreover have "\<not> wrap64 (n * 2) \<le> chunk_size (chunks s1 ! h)" using False n(3) c1 by (simp add: mult.commute)
      ultimately show ?thesis using False rm(1,2) c1 by (intro exI [of _ s1] exI [of _ hss] exI [of _ fs]) (simp add: s1_def others_def)
    qed
    then obtain s2 hss2 fs2 where s2: "(if wrap64 (n * 2) \<le> chunk_size (chunks s1 ! h) then SplitChunk h n s1 else Some s1) = Some s2"
      "heap_ok {h} [] s2 hss2 fs2" "user (chunks s2) = user (chunks s)" "chunk_size (chunks s2 ! h) = ?sz"
      "chunk_ptr (chunks s2 ! h) = chunk_ptr (chunks s ! h)" "others s2 = others s" "extents (regions s2) = extents (regions s)"
      "coalesced (\<lambda>k. k = h \<or> in_use (chunks s2 ! k)) hss2" by blast
    have id2: "next_allocation_id s2 = next_allocation_id s" "stats s2 = stats s" using s2(6) by (simp_all add: others_def)
    define s3 where "s3 = s2\<lparr>chunks := (chunks s2)[h := (chunks s2 ! h)\<lparr>requested_size := q, allocation_id := next_allocation_id s\<rparr>],
      next_allocation_id := next_allocation_id s + 1, stats := count_alloc ?sz (stats s)\<rparr>"
    note used = use_chunk [OF s2(2) _ id, of h s3 q]
    have hF: "h \<in> {h}" by simp
    have s3: "heap_ok {} [] s3 hss2 fs2"
      "user (chunks s3) = (user (chunks s2))(h \<mapsto> (chunk_ptr (chunks s2 ! h), chunk_size (chunks s2 ! h), q, next_allocation_id s))"
      "\<And>k. in_use (chunks s3 ! k) \<longleftrightarrow> k = h \<or> in_use (chunks s2 ! k)"
      using used [OF hF] by (simp_all add: s3_def)
    have inv3: "heap_inv s3" using s3(1,3) s2(8) by (auto simp: heap_inv_def)
    have "slots_ok [] s2 hss2 fs2" "h \<in> members hss2" using s2(2) by (simp_all add: heap_ok_def bins_ok_def)
    then have l2: "h < length (chunks s2)" by (rule slot_less)
    have l1: "h < length (chunks s1)" using l by (simp add: s1_def)
    have "FindChunkPtr (BinNumForSize n) n q s = Some (chunk_ptr (chunks s ! h), s3)"
      using found Some bh remove_from_bin(2) [OF heap h(1) num, folded s1_def] s2(1,4,5) l1 l2 id2
      by (simp add: FindChunkPtr_def ChunkFromHandle_def modify_def Let_def s3_def count_alloc_def)
    moreover have "others s3 = others (s\<lparr>next_allocation_id := next_allocation_id s + 1, stats := count_alloc ?sz (stats s)\<rparr>)"
      using s2(6) by (simp add: s3_def others_def)
    moreover have "extents (regions s3) = extents (regions s)" using s2(7) by (simp add: s3_def)
    moreover have "is_free s k \<longleftrightarrow> k \<in> members hss \<and> \<not> in_use (chunks s ! k)" for k by (rule free_iff [OF heap])
    ultimately show ?thesis using best s3(2) s2(3-5) inv3 unfolding best_fit_def by auto
  qed
qed

subsection \<open>Extending\<close>

definition limits_ok :: "bfc \<Rightarrow> bool" where
  "limits_ok s \<longleftrightarrow> 0 < curr_region_allocation_bytes s \<and> 256 dvd curr_region_allocation_bytes s \<and>
    curr_region_allocation_bytes s \<le> (if started_backpedal s then 2 ^ 63 else 2 ^ 62)"

text \<open>What the allocator below promises: memory that exists and that nobody has yet. The bound of 2^39 bytes on one piece is not documented for it:
  it is what \<open>AllocationRegion\<close> relies on, which counts the handles of a region, one for 256 bytes, in an \<open>int\<close>.\<close>

definition sub_alloc_ok :: "sub_alloc \<Rightarrow> bfc \<Rightarrow> bool" where
  "sub_alloc_ok Alloc s \<longleftrightarrow> (\<forall>i b. Alloc i b \<noteq> 0 \<longrightarrow> b < 2 ^ 39 \<and> Alloc i b + b < 2 ^ 64 \<and>
    (\<forall>r\<in>set (regions s). Alloc i b + b \<le> region_ptr r \<or> end_ptr r \<le> Alloc i b))"

lemma heap_ok_others:
  "heap_ok F ls s hss fs \<Longrightarrow> chunks s' = chunks s \<Longrightarrow> regions s' = regions s \<Longrightarrow> free_chunks_list s' = free_chunks_list s \<Longrightarrow>
    bins s' = bins s \<Longrightarrow> heap_ok F ls s' hss fs"
  by (simp add: heap_ok_def slots_ok_def bins_ok_def)

lemma heap_inv_others:
  "heap_inv s \<Longrightarrow> chunks s' = chunks s \<Longrightarrow> regions s' = regions s \<Longrightarrow> free_chunks_list s' = free_chunks_list s \<Longrightarrow> bins s' = bins s \<Longrightarrow> heap_inv s'"
  unfolding heap_inv_def using heap_ok_others by metis

text \<open>The second half of \<open>Extend\<close>, once there is memory.\<close>

definition add_memory :: "nat \<Rightarrow> nat \<Rightarrow> bool \<Rightarrow> bfc \<Rightarrow> (bool \<times> bfc) option" where
  "add_memory mem_addr bytes increased_allocation s =
    (let s = (if increased_allocation then s
              else s\<lparr>curr_region_allocation_bytes := wrap64 (curr_region_allocation_bytes s * 2)\<rparr>);
         s = s\<lparr>total_region_allocated_bytes := wrap64 (total_region_allocated_bytes s + bytes),
               regions := AddAllocationRegion mem_addr bytes (regions s)\<rparr>
     in do {
       s \<leftarrow> do { (h, s) \<leftarrow> AllocateChunk s;
         s \<leftarrow> modify h (region_chunk mem_addr bytes) s;
         rs \<leftarrow> set_handle mem_addr (Some h) (regions s);
         InsertFreeChunkIntoBin h (s\<lparr>regions := rs\<rparr>) };
       Some (True, s\<lparr>visits := visits s @ map (\<lambda>v. (v, mem_addr, bytes)) (region_visitors s)\<rparr>) })"

lemma add_memory_eq:
  "(let s = (if inc then s else s\<lparr>curr_region_allocation_bytes := wrap64 (curr_region_allocation_bytes s * 2)\<rparr>);
        s = s\<lparr>total_region_allocated_bytes := wrap64 (total_region_allocated_bytes s + bytes),
              regions := AddAllocationRegion mem bytes (regions s)\<rparr>
    in do {
      (h, s) \<leftarrow> AllocateChunk s;
      s \<leftarrow> modify h (\<lambda>c. c\<lparr>chunk_ptr := mem, chunk_size := bytes, allocation_id := -1, prev_chunk := None, next_chunk := None\<rparr>) s;
      rs \<leftarrow> set_handle mem (Some h) (regions s);
      s \<leftarrow> InsertFreeChunkIntoBin h (s\<lparr>regions := rs\<rparr>);
      Some (True, s\<lparr>visits := visits s @ map (\<lambda>v. (v, mem, bytes)) (region_visitors s)\<rparr>) }) = add_memory mem bytes inc s"
proof -
  have f: "region_chunk mem bytes = (\<lambda>c. c\<lparr>chunk_ptr := mem, chunk_size := bytes, allocation_id := -1, prev_chunk := None, next_chunk := None\<rparr>)"
    by (simp add: fun_eq_iff region_chunk_def)
  show ?thesis unfolding add_memory_def f Let_def by (simp add: case_prod_unfold)
qed

lemma Extend_cases:
  assumes "Extend Alloc n s = r" "\<not> memory_limit s < wrap64 (total_region_allocated_bytes s + n)"
    and "grow_loop n (curr_region_allocation_bytes s) False = Some (c, inc)"
  shows "Alloc 0 c \<noteq> 0 \<Longrightarrow> r = add_memory (Alloc 0 c) c inc (s\<lparr>curr_region_allocation_bytes := c\<rparr>)"
    "Alloc 0 c = 0 \<Longrightarrow> started_backpedal s \<Longrightarrow> r = Some (False, s\<lparr>curr_region_allocation_bytes := c\<rparr>)"
    "Alloc 0 c = 0 \<Longrightarrow> \<not> started_backpedal s \<Longrightarrow> backpedal_loop Alloc n 1 0 (RoundedBytes (backpedal c)) = None \<Longrightarrow> r = None"
    "Alloc 0 c = 0 \<Longrightarrow> \<not> started_backpedal s \<Longrightarrow> backpedal_loop Alloc n 1 0 (RoundedBytes (backpedal c)) = Some (mem, bytes) \<Longrightarrow>
      r = (if mem = 0 then Some (False, s\<lparr>curr_region_allocation_bytes := c, started_backpedal := True\<rparr>)
           else add_memory mem bytes inc (s\<lparr>curr_region_allocation_bytes := c, started_backpedal := True\<rparr>))"
  using assms(2,3) unfolding assms(1) [symmetric] Extend_def add_memory_eq by simp_all

lemma coalesced_insert:
  assumes "coalesced u (H1 @ H2)" "\<And>k. k \<in> members (H1 @ H2) \<Longrightarrow> u k \<Longrightarrow> v k"
  shows "coalesced v (H1 @ [h] # H2)"
proof -
  have "coalesced u H1" "coalesced u H2" using assms(1) by (auto simp: coalesced_def)
  then have "coalesced v H1" "coalesced v H2" using assms(2) by (auto intro: coalesced_mono)
  then show ?thesis by (auto simp: coalesced_def)
qed

lemma mset_AddAllocationRegion:
  "mset (extents (AddAllocationRegion p b rs)) = add_mset (p, b) (mset (extents rs))"
  by (induction rs) (simp_all add: extents_def AllocationRegion_def)

lemma add_memory_spec:
  assumes inv: "heap_inv s" and new: "0 < mem" "256 dvd bytes" "0 < bytes" "bytes < 2 ^ 39" "mem + bytes < 2 ^ 64"
    and apart: "\<forall>r\<in>set (regions s). mem + bytes \<le> region_ptr r \<or> end_ptr r \<le> mem"
  obtains s' where "add_memory mem bytes inc s = Some (True, s')" "heap_inv s'" "user (chunks s') = user (chunks s)"
    "others s' = others (s\<lparr>curr_region_allocation_bytes := (if inc then curr_region_allocation_bytes s else wrap64 (curr_region_allocation_bytes s * 2)),
      total_region_allocated_bytes := wrap64 (total_region_allocated_bytes s + bytes),
      visits := visits s @ map (\<lambda>v. (v, mem, bytes)) (region_visitors s)\<rparr>)"
    "mset (extents (regions s')) = add_mset (mem, bytes) (mset (extents (regions s)))"
proof -
  obtain hss fs where heap: "heap_ok {} [] s hss fs" and co: "coalesced (\<lambda>k. in_use (chunks s ! k)) hss"
    using inv by (auto simp: heap_inv_def)
  define s0 where "s0 = s\<lparr>curr_region_allocation_bytes := (if inc then curr_region_allocation_bytes s else wrap64 (curr_region_allocation_bytes s * 2)),
    total_region_allocated_bytes := wrap64 (total_region_allocated_bytes s + bytes), regions := AddAllocationRegion mem bytes (regions s)\<rparr>"
  have t: "chunks s0 = chunks s" "free_chunks_list s0 = free_chunks_list s" "bins s0 = bins s" "regions s0 = AddAllocationRegion mem bytes (regions s)"
    by (simp_all add: s0_def)
  obtain s' H1 H2 h fs' where s': "do { (h, s) \<leftarrow> AllocateChunk s0; s \<leftarrow> modify h (region_chunk mem bytes) s;
      rs \<leftarrow> set_handle mem (Some h) (regions s); InsertFreeChunkIntoBin h (s\<lparr>regions := rs\<rparr>) } = Some s'"
    "hss = H1 @ H2" "heap_ok {} [] s' (H1 @ [h] # H2) fs'" "user (chunks s') = user (chunks s)" "others s' = others s0"
    "extents (regions s') = extents (regions s0)" "\<And>k. k \<in> members hss \<Longrightarrow> in_use (chunks s' ! k) = in_use (chunks s ! k)"
    by (rule new_region [OF heap new apart t]) (rule that)
  define s2 where "s2 = s'\<lparr>visits := visits s' @ map (\<lambda>v. (v, mem, bytes)) (region_visitors s')\<rparr>"
  have "coalesced (\<lambda>k. in_use (chunks s' ! k)) (H1 @ [h] # H2)"
    by (rule coalesced_insert) (use co s'(2,7) in auto)
  then have "heap_inv s'" using s'(3) by (auto simp: heap_inv_def)
  then have "heap_inv s2" by (rule heap_inv_others) (simp_all add: s2_def)
  moreover have "add_memory mem bytes inc s = Some (True, s2)"
  proof -
    have "(let s = (if inc then s else s\<lparr>curr_region_allocation_bytes := wrap64 (curr_region_allocation_bytes s * 2)\<rparr>)
      in s\<lparr>total_region_allocated_bytes := wrap64 (total_region_allocated_bytes s + bytes), regions := AddAllocationRegion mem bytes (regions s)\<rparr>) = s0"
      by (cases inc) (simp_all add: s0_def)
    then show ?thesis using s'(1) unfolding add_memory_def Let_def s2_def by simp
  qed
  moreover have "others s2 = others (s\<lparr>curr_region_allocation_bytes := (if inc then curr_region_allocation_bytes s else wrap64 (curr_region_allocation_bytes s * 2)),
      total_region_allocated_bytes := wrap64 (total_region_allocated_bytes s + bytes),
      visits := visits s @ map (\<lambda>v. (v, mem, bytes)) (region_visitors s)\<rparr>)"
    using s'(5) by (simp add: s2_def s0_def others_def)
  moreover have "mset (extents (regions s2)) = add_mset (mem, bytes) (mset (extents (regions s)))"
    using s'(6) t(4) by (simp add: s2_def mset_AddAllocationRegion)
  ultimately show thesis using that [of s2] s'(4) by (simp add: s2_def)
qed

lemma Extend_spec:
  assumes inv: "heap_inv s" "limits_ok s" and law: "sub_alloc_ok Alloc s" and n: "n \<le> 2 ^ 61"
    and ext: "Extend Alloc n s = Some (b, s')"
  shows "heap_inv s'" "limits_ok s'" "user (chunks s') = user (chunks s)" "stats s' = stats s" "next_allocation_id s' = next_allocation_id s"
    "region_visitors s' = region_visitors s" "memory_limit s' = memory_limit s"
    "(visits s' = visits s \<and> extents (regions s') = extents (regions s)) \<or>
     (\<exists>p k. visits s' = visits s @ map (\<lambda>v. (v, p, k)) (region_visitors s) \<and> mset (extents (regions s')) = add_mset (p, k) (mset (extents (regions s))))"
proof -
  let ?goal = "\<lambda>s'. heap_inv s' \<and> limits_ok s' \<and> user (chunks s') = user (chunks s) \<and> stats s' = stats s \<and> next_allocation_id s' = next_allocation_id s \<and>
    region_visitors s' = region_visitors s \<and> memory_limit s' = memory_limit s \<and>
    ((visits s' = visits s \<and> extents (regions s') = extents (regions s)) \<or>
     (\<exists>p k. visits s' = visits s @ map (\<lambda>v. (v, p, k)) (region_visitors s) \<and> mset (extents (regions s')) = add_mset (p, k) (mset (extents (regions s)))))"
  have "?goal s'"
  proof (cases "memory_limit s < wrap64 (total_region_allocated_bytes s + n)")
    case True
    then have "s' = s" using ext by (simp add: Extend_def)
    then show ?thesis using inv by simp
  next
    case False
    have lim: "0 < curr_region_allocation_bytes s" "256 dvd curr_region_allocation_bytes s" "curr_region_allocation_bytes s \<le> 2 ^ 63"
      "\<not> started_backpedal s \<Longrightarrow> curr_region_allocation_bytes s \<le> 2 ^ 62"
      using inv(2) by (auto simp: limits_ok_def split: if_splits)
    obtain c inc where g: "grow_loop n (curr_region_allocation_bytes s) False = Some (c, inc)" and
      c: "n \<le> c" "curr_region_allocation_bytes s \<le> c" "c = curr_region_allocation_bytes s \<and> \<not> inc \<or> c < 2 ^ 62 \<and> inc" "256 dvd c"
      using grow_loop_spec [OF lim(1,3) n, of False] lim(2) by auto
    have c': "0 < c" "c \<le> 2 ^ 63" "\<not> started_backpedal s \<Longrightarrow> c \<le> 2 ^ 62" using c(2,3) lim by auto
    note cases = Extend_cases [OF ext False g]
    let ?s1 = "s\<lparr>curr_region_allocation_bytes := c\<rparr>" and ?s2 = "s\<lparr>curr_region_allocation_bytes := c, started_backpedal := True\<rparr>"
    have inv1: "heap_inv ?s1" "heap_inv ?s2" using heap_inv_others [OF inv(1)] by simp_all
    show ?thesis
    proof (cases "Alloc 0 c = 0")
      case ne: False
      have law0: "c < 2 ^ 39" "Alloc 0 c + c < 2 ^ 64" "\<forall>r\<in>set (regions ?s1). Alloc 0 c + c \<le> region_ptr r \<or> end_ptr r \<le> Alloc 0 c"
        using law ne by (simp_all add: sub_alloc_ok_def)
      obtain s2 where s2: "add_memory (Alloc 0 c) c inc ?s1 = Some (True, s2)" "heap_inv s2" "user (chunks s2) = user (chunks ?s1)"
        "others s2 = others (?s1\<lparr>curr_region_allocation_bytes := (if inc then curr_region_allocation_bytes ?s1 else wrap64 (curr_region_allocation_bytes ?s1 * 2)),
          total_region_allocated_bytes := wrap64 (total_region_allocated_bytes ?s1 + c),
          visits := visits ?s1 @ map (\<lambda>v. (v, Alloc 0 c, c)) (region_visitors ?s1)\<rparr>)"
        "mset (extents (regions s2)) = add_mset (Alloc 0 c, c) (mset (extents (regions ?s1)))"
        by (rule add_memory_spec [OF inv1(1) _ c(4) c'(1) law0, of inc]) (use ne in auto)
      have "s' = s2" using cases(1) [OF ne] s2(1) by simp
      moreover have "wrap64 (c * 2) = c * 2" using law0(1) by simp
      then have "limits_ok s2" using s2(4) c' c(4) law0(1) by (auto simp: others_def limits_ok_def dvd_mult2)
      ultimately show ?thesis using s2 by (auto simp: others_def)
    next
      case zero: True
      show ?thesis
      proof (cases "started_backpedal s")
        case True
        then have "s' = ?s1" using cases(2) [OF zero] by simp
        then show ?thesis using inv1 True c c' by (simp add: limits_ok_def)
      next
        case False
        have b0: "256 dvd RoundedBytes (backpedal c)" "0 < RoundedBytes (backpedal c)" "RoundedBytes (backpedal c) \<le> c"
          using RoundedBytes_backpedal [OF c(4) c'(1)] c'(3) [OF False] by simp_all
        obtain mem bytes where loop: "backpedal_loop Alloc n 1 0 (RoundedBytes (backpedal c)) = Some (mem, bytes)"
          using cases(3) [OF zero False] by fastforce
        have bs: "256 dvd bytes" "0 < bytes" "bytes \<le> c" "mem = 0 \<or> (\<exists>j b. mem = Alloc j b \<and> bytes \<le> b)"
          using backpedal_loop_spec [OF loop b0(1,2)] b0(3) c'(3) [OF False] by auto
        have r: "Some (b, s') = (if mem = 0 then Some (False, ?s2) else add_memory mem bytes inc ?s2)"
          by (rule cases(4) [OF zero False loop])
        show ?thesis
        proof (cases "mem = 0")
          case True
          then show ?thesis using r inv1 c(4) c' by (simp add: limits_ok_def)
        next
          case ne: False
          then obtain j bb where j: "mem = Alloc j bb" "bytes \<le> bb" using bs(4) by blast
          then have law1: "bb < 2 ^ 39" "mem + bb < 2 ^ 64" "\<forall>r\<in>set (regions s). mem + bb \<le> region_ptr r \<or> end_ptr r \<le> mem"
            using law ne by (simp_all add: sub_alloc_ok_def)
          then have law2: "bytes < 2 ^ 39" "mem + bytes < 2 ^ 64" "\<forall>r\<in>set (regions ?s2). mem + bytes \<le> region_ptr r \<or> end_ptr r \<le> mem"
            using j(2) by fastforce+
          obtain s2 where s2: "add_memory mem bytes inc ?s2 = Some (True, s2)" "heap_inv s2" "user (chunks s2) = user (chunks ?s2)"
            "others s2 = others (?s2\<lparr>curr_region_allocation_bytes := (if inc then curr_region_allocation_bytes ?s2 else wrap64 (curr_region_allocation_bytes ?s2 * 2)),
              total_region_allocated_bytes := wrap64 (total_region_allocated_bytes ?s2 + bytes),
              visits := visits ?s2 @ map (\<lambda>v. (v, mem, bytes)) (region_visitors ?s2)\<rparr>)"
            "mset (extents (regions s2)) = add_mset (mem, bytes) (mset (extents (regions ?s2)))"
            by (rule add_memory_spec [OF inv1(2) _ bs(1,2) law2, of inc]) (use ne in auto)
          have "s' = s2" using r ne s2(1) by simp
          moreover have "wrap64 (c * 2) = c * 2" using c'(3) [OF False] by simp
          then have "limits_ok s2" using s2(4) c' c(4) False by (auto simp: others_def limits_ok_def dvd_mult2)
          ultimately show ?thesis using s2 by (auto simp: others_def)
        qed
      qed
    qed
  qed
  then show "heap_inv s'" "limits_ok s'" "user (chunks s') = user (chunks s)" "stats s' = stats s" "next_allocation_id s' = next_allocation_id s"
    "region_visitors s' = region_visitors s" "memory_limit s' = memory_limit s"
    "(visits s' = visits s \<and> extents (regions s') = extents (regions s)) \<or>
     (\<exists>p k. visits s' = visits s @ map (\<lambda>v. (v, p, k)) (region_visitors s) \<and> mset (extents (regions s')) = add_mset (p, k) (mset (extents (regions s))))"
    by blast+
qed

lemma Extend_returns:
  assumes inv: "heap_inv s" "limits_ok s" and law: "sub_alloc_ok Alloc s" and n: "n \<le> 2 ^ 61" and "started_backpedal s \<or> 2304 \<le> n"
  shows "Extend Alloc n s \<noteq> None"
proof (cases "memory_limit s < wrap64 (total_region_allocated_bytes s + n)")
  case True
  then show ?thesis by (simp add: Extend_def)
next
  case False
  have lim: "0 < curr_region_allocation_bytes s" "256 dvd curr_region_allocation_bytes s" "curr_region_allocation_bytes s \<le> 2 ^ 63"
    "\<not> started_backpedal s \<Longrightarrow> curr_region_allocation_bytes s \<le> 2 ^ 62"
    using inv(2) by (auto simp: limits_ok_def split: if_splits)
  obtain c inc where g: "grow_loop n (curr_region_allocation_bytes s) False = Some (c, inc)" and
    c: "curr_region_allocation_bytes s \<le> c" "c = curr_region_allocation_bytes s \<and> \<not> inc \<or> c < 2 ^ 62 \<and> inc" "256 dvd c"
    using grow_loop_spec [OF lim(1,3) n, of False] lim(2) by auto
  have c': "0 < c" "c \<le> 2 ^ 63" "\<not> started_backpedal s \<Longrightarrow> c \<le> 2 ^ 62" using c(1,2) lim by auto
  note cases = Extend_cases [where Alloc = Alloc, OF refl False g]
  let ?s1 = "s\<lparr>curr_region_allocation_bytes := c\<rparr>" and ?s2 = "s\<lparr>curr_region_allocation_bytes := c, started_backpedal := True\<rparr>"
  have inv1: "heap_inv ?s1" "heap_inv ?s2" using heap_inv_others [OF inv(1)] by simp_all
  consider "Alloc 0 c \<noteq> 0" | "Alloc 0 c = 0" "started_backpedal s" | "Alloc 0 c = 0" "\<not> started_backpedal s" by blast
  then show ?thesis
  proof cases
    case 1
    have law0: "c < 2 ^ 39" "Alloc 0 c + c < 2 ^ 64" "\<forall>r\<in>set (regions ?s1). Alloc 0 c + c \<le> region_ptr r \<or> end_ptr r \<le> Alloc 0 c"
      using law 1 by (simp_all add: sub_alloc_ok_def)
    have "0 < Alloc 0 c" using 1 by simp
    from add_memory_spec [OF inv1(1) this c(3) c'(1) law0, of inc] show ?thesis using cases(1) [OF 1] by (metis option.simps(3))
  next
    case 2
    then show ?thesis using cases(2) by simp
  next
    case 3
    have b0: "256 dvd RoundedBytes (backpedal c)" "0 < RoundedBytes (backpedal c)" "RoundedBytes (backpedal c) \<le> c"
      using RoundedBytes_backpedal [OF c(3) c'(1)] c'(3) [OF 3(2)] by simp_all
    have "2304 \<le> n" using assms(5) 3(2) by blast
    then have "backpedal_loop Alloc n 1 0 (RoundedBytes (backpedal c)) \<noteq> None"
      using backpedal_loop_ends [OF _ b0(1,2)] b0(3) c'(3) [OF 3(2)] by simp
    then obtain mem bytes where loop: "backpedal_loop Alloc n 1 0 (RoundedBytes (backpedal c)) = Some (mem, bytes)" by auto
    have bs: "256 dvd bytes" "0 < bytes" "mem = 0 \<or> (\<exists>j b. mem = Alloc j b \<and> bytes \<le> b)"
      using backpedal_loop_spec [OF loop b0(1,2)] b0(3) c'(3) [OF 3(2)] by auto
    show ?thesis
    proof (cases "mem = 0")
      case True
      then show ?thesis using cases(4) [OF 3 loop] by simp
    next
      case ne: False
      then obtain j bb where j: "mem = Alloc j bb" "bytes \<le> bb" using bs(3) by blast
      then have "bb < 2 ^ 39" "mem + bb < 2 ^ 64" "\<forall>r\<in>set (regions s). mem + bb \<le> region_ptr r \<or> end_ptr r \<le> mem"
        using law ne by (simp_all add: sub_alloc_ok_def)
      then have law2: "bytes < 2 ^ 39" "mem + bytes < 2 ^ 64" "\<forall>r\<in>set (regions ?s2). mem + bytes \<le> region_ptr r \<or> end_ptr r \<le> mem"
        using j(2) by fastforce+
      have "0 < mem" using ne by simp
      from add_memory_spec [OF inv1(2) this bs(1,2) law2, of inc] show ?thesis using cases(4) [OF 3 loop] ne by (metis option.simps(3))
    qed
  qed
qed

subsection \<open>Giving a chunk back\<close>

lemma free_chunk:
  assumes "heap_ok {} [] s hss fs" "h \<in> members hss" "in_use (chunks s ! h)" "chunks s' = (chunks s)[h := (chunks s ! h)\<lparr>allocation_id := -1\<rparr>]"
    and "regions s' = regions s" "free_chunks_list s' = free_chunks_list s" "bins s' = bins s"
  shows "heap_ok {h} [] s' hss fs" "user (chunks s') = (user (chunks s))(h := None)" "in_use (chunks s' ! k) \<longleftrightarrow> k \<noteq> h \<and> in_use (chunks s ! k)"
proof -
  have sl: "slots_ok [] s hss fs" and bo: "bins_ok {} s (members hss)" using assms(1) by (simp_all add: heap_ok_def)
  have l: "h < length (chunks s)" using slot_less [OF sl assms(2)] .
  have num: "bin_num (chunks s ! k) = (if in_use (chunks s ! k) then None else Some (BinNumForSize (chunk_size (chunks s ! k))))"
    if "k \<in> members hss" for k using bo that by (simp add: bins_ok_def)
  have "slots_ok [] s' hss fs"
    by (rule slots_ok_relabel [OF sl assms(2) _ assms(4-6)]) (simp add: same_link_def)
  moreover have "bins_ok {h} s' (members hss)"
    unfolding bins_ok_def
  proof (intro conjI allI impI ballI)
    have link: "same_link (chunks s ! k) (chunks s' ! k)" "bin_num (chunks s' ! k) = bin_num (chunks s ! k)" for k
      using l by (cases "k = h"; simp add: assms(4) same_link_def)+
    show "length (bins s') = kNumBins" "{h} \<subseteq> members hss" using bo assms(2,7) by (auto simp: bins_ok_def)
    show "sorted_wrt (ChunkComparator (chunks s')) (bins s' ! b)" if "b < kNumBins" for b
      unfolding bin_cong [OF link(1)] assms(7) using bo that by (simp add: bins_ok_def)
    show "set (bins s' ! b) = {k \<in> members hss. bin_num (chunks s' ! k) = Some b}" if "b < kNumBins" for b
      unfolding link(2) assms(7) using bo that by (simp add: bins_ok_def)
    show "bin_num (chunks s' ! k) = (if in_use (chunks s' ! k) \<or> k \<in> {h} then None else Some (BinNumForSize (chunk_size (chunks s' ! k))))"
      if "k \<in> members hss" for k
      using num [OF that] assms(3) link(2) l by (cases "k = h") (simp_all add: assms(4))
    show "\<not> in_use (chunks s' ! k)" if "k \<in> {h}" for k using that l by (simp add: assms(4) in_use_def)
  qed
  ultimately show "heap_ok {h} [] s' hss fs" by (simp add: heap_ok_def)
  show "user (chunks s') = (user (chunks s))(h := None)"
    using l by (auto simp: user_def fun_eq_iff assms(4) in_use_def nth_list_update)
  show "in_use (chunks s' ! k) \<longleftrightarrow> k \<noteq> h \<and> in_use (chunks s ! k)"
    using l by (cases "k = h") (simp_all add: assms(4) in_use_def)
qed

lemma neighbours:
  assumes "slots_ok ls s (H1 @ (xs @ h # ys) # H2) fs"
  shows "next_chunk (chunks s ! h) = hdo ys None" "prev_chunk (chunks s ! h) = lasto xs None"
proof -
  obtain R1 r R2 where "region_ok (chunks s) r (xs @ h # ys)" using region_split [OF assms] by metis
  then have "tiles (chunks s) None (region_ptr r) (xs @ h # ys) None (end_ptr r)" by (rule region_ok_tiles)
  then show "next_chunk (chunks s ! h) = hdo ys None" "prev_chunk (chunks s ! h) = lasto xs None" by (auto simp: tiles_append)
qed

text \<open>What the two coalescing steps have in common: the result of merging or not merging with a neighbour.\<close>

definition merged :: "bfc \<Rightarrow> bfc \<Rightarrow> bool" where
  "merged s s' \<longleftrightarrow> user (chunks s') = user (chunks s) \<and> others s' = others s \<and> extents (regions s') = extents (regions s) \<and>
    (\<forall>k. in_use (chunks s' ! k) = in_use (chunks s ! k))"

lemma merge_neighbours:
  assumes heap: "heap_ok {h} [] s (H1 @ (xs @ a # b # ys) # H2) fs" and "{a, b} = {h, k}" "a \<noteq> b" "\<not> in_use (chunks s ! k)"
  obtains s1 s2 where "RemoveFreeChunkFromBin k s = Some s1" "Merge a b s1 = Some s2" "heap_ok {a} [] s2 (H1 @ (xs @ a # ys) # H2) (b # fs)" "merged s s2"
    "\<And>j. prev_chunk (chunks s1 ! j) = prev_chunk (chunks s ! j)" "\<And>j. next_chunk (chunks s1 ! j) = next_chunk (chunks s ! j)"
proof -
  let ?hss = "H1 @ (xs @ a # b # ys) # H2"
  have bo: "bins_ok {h} s (members ?hss)" using heap by (simp add: heap_ok_def)
  have k: "k \<in> members ?hss" "k \<noteq> h" using assms(2,3) by auto
  then obtain n where n: "bin_num (chunks s ! k) = Some n" using bo assms(4) by (auto simp: bins_ok_def)
  define s1 where "s1 = s\<lparr>bins := (bins s)[n := remove1 k (bins s ! n)], chunks := (chunks s)[k := (chunks s ! k)\<lparr>bin_num := None\<rparr>]\<rparr>"
  note rm = bin_removed [OF heap k(1) n s1_def]
  have F: "a \<in> insert k {h}" "b \<in> insert k {h}" "insert k {h} - {b} = {a}" using assms(2,3) by (auto simp: doubleton_eq_iff)
  obtain s2 where s2: "Merge a b s1 = Some s2" "heap_ok (insert k {h} - {b}) [] s2 (H1 @ (xs @ a # ys) # H2) (b # fs)" "user (chunks s2) = user (chunks s1)"
    "others s2 = others s1" "extents (regions s2) = extents (regions s1)" "\<And>j. in_use (chunks s2 ! j) = in_use (chunks s1 ! j)"
    by (rule merge_chunk [OF rm(1) F(1,2)]) (rule that)
  have "RemoveFreeChunkFromBin k s = Some s1" using remove_from_bin(1) [OF heap k(1) n] by (simp add: s1_def)
  moreover have "merged s s2"
    using s2(3-6) rm(2,7) by (auto simp: merged_def s1_def others_def nth_list_update in_use_def)
  moreover have "prev_chunk (chunks s1 ! j) = prev_chunk (chunks s ! j)" "next_chunk (chunks s1 ! j) = next_chunk (chunks s ! j)" for j
    using rm(7) by (cases "j = k"; simp add: s1_def)+
  ultimately show thesis using that s2(1,2) F(3) by simp
qed

lemma coalesce_next:
  assumes heap: "heap_ok {h} [] s (H1 @ (xs @ h # ys) # H2) fs" and ys: "successively (\<lambda>a b. in_use (chunks s ! a) \<or> in_use (chunks s ! b)) ys"
  shows "\<exists>s' ys' fs'. (case next_chunk (chunks s ! h) of None \<Rightarrow> Some s
       | Some n \<Rightarrow> do { cnext \<leftarrow> ChunkFromHandle s n;
           if in_use cnext then Some s else do { s \<leftarrow> RemoveFreeChunkFromBin n s; Merge h n s } }) = Some s' \<and>
    heap_ok {h} [] s' (H1 @ (xs @ h # ys') # H2) fs' \<and> merged s s' \<and> set ys' \<subseteq> set ys \<and>
    successively (\<lambda>a b. in_use (chunks s ! a) \<or> in_use (chunks s ! b)) ys' \<and> (ys' = [] \<or> in_use (chunks s ! hd ys'))"
proof -
  have sl: "slots_ok [] s (H1 @ (xs @ h # ys) # H2) fs" using heap by (simp add: heap_ok_def)
  note nb = neighbours [OF sl]
  show ?thesis
  proof (cases ys)
    case Nil
    then show ?thesis using nb(1) heap by (intro exI [of _ s] exI [of _ "[]"] exI [of _ fs]) (simp add: merged_def)
  next
    case (Cons n zs)
    have n: "n < length (chunks s)" using slot_less [OF sl] Cons by simp
    show ?thesis
    proof (cases "in_use (chunks s ! n)")
      case True
      then show ?thesis using nb(1) heap ys Cons n by (intro exI [of _ s] exI [of _ ys] exI [of _ fs]) (simp add: merged_def ChunkFromHandle_eq)
    next
      case False
      have ne: "h \<noteq> n" using slots_disjoint(5) [OF sl] Cons by auto
      have heap': "heap_ok {h} [] s (H1 @ (xs @ h # n # zs) # H2) fs" using heap Cons by simp
      obtain s1 s2 where s2: "RemoveFreeChunkFromBin n s = Some s1" "Merge h n s1 = Some s2" "heap_ok {h} [] s2 (H1 @ (xs @ h # zs) # H2) (n # fs)" "merged s s2"
        using merge_neighbours [OF heap' refl ne False] by metis
      have "zs = [] \<or> in_use (chunks s ! hd zs)" "successively (\<lambda>a b. in_use (chunks s ! a) \<or> in_use (chunks s ! b)) zs"
        using ys Cons False by (auto simp: successively_Cons)
      then show ?thesis using nb(1) Cons n False s2 by (intro exI [of _ s2] exI [of _ zs] exI [of _ "n # fs"]) (auto simp: ChunkFromHandle_eq)
    qed
  qed
qed

lemma coalesce_prev:
  assumes heap: "heap_ok {h} [] s (H1 @ (xs @ h # ys) # H2) fs" and xs: "successively (\<lambda>a b. in_use (chunks s ! a) \<or> in_use (chunks s ! b)) xs"
  shows "\<exists>s' g xs' fs'. (case prev_chunk (chunks s ! h) of None \<Rightarrow> Some (h, s)
       | Some p \<Rightarrow> do { cprev \<leftarrow> ChunkFromHandle s p;
           if in_use cprev then Some (h, s) else do { s \<leftarrow> RemoveFreeChunkFromBin p s; s \<leftarrow> Merge p h s; Some (p, s) } }) = Some (g, s') \<and>
    heap_ok {g} [] s' (H1 @ (xs' @ g # ys) # H2) fs' \<and> merged s s' \<and> set xs' \<subseteq> set xs \<and>
    successively (\<lambda>a b. in_use (chunks s ! a) \<or> in_use (chunks s ! b)) xs' \<and> (xs' = [] \<or> in_use (chunks s ! last xs'))"
proof -
  have sl: "slots_ok [] s (H1 @ (xs @ h # ys) # H2) fs" using heap by (simp add: heap_ok_def)
  note nb = neighbours [OF sl]
  show ?thesis
  proof (cases xs rule: rev_cases)
    case Nil
    then show ?thesis using nb(2) heap by (intro exI [of _ s] exI [of _ h] exI [of _ "[]"] exI [of _ fs]) (simp add: merged_def)
  next
    case (snoc zs p)
    have p: "p < length (chunks s)" using slot_less [OF sl] snoc by simp
    show ?thesis
    proof (cases "in_use (chunks s ! p)")
      case True
      then show ?thesis using nb(2) heap xs snoc p by (intro exI [of _ s] exI [of _ h] exI [of _ xs] exI [of _ fs]) (simp add: merged_def ChunkFromHandle_eq)
    next
      case False
      have ne: "p \<noteq> h" using slots_disjoint(5) [OF sl] snoc by auto
      have heap': "heap_ok {h} [] s (H1 @ (zs @ p # h # ys) # H2) fs" using heap snoc by simp
      have two: "{p, h} = {h, p}" by blast
      obtain s1 s2 where s2: "RemoveFreeChunkFromBin p s = Some s1" "Merge p h s1 = Some s2" "heap_ok {p} [] s2 (H1 @ (zs @ p # ys) # H2) (h # fs)" "merged s s2"
        using merge_neighbours [OF heap' two ne False] by metis
      have "zs = [] \<or> in_use (chunks s ! last zs)" "successively (\<lambda>a b. in_use (chunks s ! a) \<or> in_use (chunks s ! b)) zs"
        using xs snoc False by (auto simp: successively_append_iff)
      then show ?thesis using nb(2) snoc p False s2 by (intro exI [of _ s2] exI [of _ p] exI [of _ zs] exI [of _ "h # fs"]) (auto simp: ChunkFromHandle_eq)
    qed
  qed
qed

lemma FreeAndMaybeCoalesce_spec:
  assumes inv: "heap_inv s" and h: "user (chunks s) h = Some (p, sz, q, i)"
  obtains s' where "FreeAndMaybeCoalesce h s = Some s'" "heap_inv s'" "user (chunks s') = (user (chunks s))(h := None)"
    "others s' = others (s\<lparr>stats := (stats s)\<lparr>bytes_in_use := bytes_in_use (stats s) - int sz\<rparr>\<rparr>)" "extents (regions s') = extents (regions s)"
proof -
  obtain hss fs where heap: "heap_ok {} [] s hss fs" and co: "coalesced (\<lambda>k. in_use (chunks s ! k)) hss"
    using inv by (auto simp: heap_inv_def)
  have sl: "slots_ok [] s hss fs" and bo: "bins_ok {} s (members hss)" using heap by (simp_all add: heap_ok_def)
  have u: "h < length (chunks s)" "in_use (chunks s ! h)" "chunk_size (chunks s ! h) = sz" using h by (auto simp: user_def split: if_splits)
  have "h \<notin> set fs" "h \<in> members hss \<union> set fs" using sl u by (auto simp: slots_ok_def)
  then have mem: "h \<in> members hss" by blast
  then have num: "bin_num (chunks s ! h) = None" using bo u(2) by (simp add: bins_ok_def)
  obtain H1 xs ys H2 where hss: "hss = H1 @ (xs @ h # ys) # H2" using members_split [OF mem] by (metis split_list)
  define s1 where "s1 = s\<lparr>chunks := (chunks s)[h := (chunks s ! h)\<lparr>allocation_id := -1\<rparr>],
    stats := (stats s)\<lparr>bytes_in_use := bytes_in_use (stats s) - int sz\<rparr>\<rparr>"
  have fr: "heap_ok {h} [] s1 hss fs" "user (chunks s1) = (user (chunks s))(h := None)" "\<And>k. in_use (chunks s1 ! k) \<longleftrightarrow> k \<noteq> h \<and> in_use (chunks s ! k)"
    using free_chunk [OF heap mem u(2), of s1] by (simp_all add: s1_def)
  have d: "h \<notin> set xs" "h \<notin> set ys" "h \<notin> members H1" "h \<notin> members H2" using slots_disjoint(5) [OF sl] hss by (auto simp: members_def)
  have co': "coalesced (\<lambda>k. in_use (chunks s ! k)) H1" "coalesced (\<lambda>k. in_use (chunks s ! k)) H2"
    "successively (\<lambda>a b. in_use (chunks s ! a) \<or> in_use (chunks s ! b)) (xs @ h # ys)"
    using co unfolding hss coalesced_append by blast+
  have succ0: "successively (\<lambda>a b. in_use (chunks s ! a) \<or> in_use (chunks s ! b)) xs" "successively (\<lambda>a b. in_use (chunks s ! a) \<or> in_use (chunks s ! b)) ys"
    using co'(3) by (auto simp: successively_append_iff successively_Cons)
  have keep: "in_use (chunks s1 ! k)" if "k \<in> set xs \<union> set ys" "in_use (chunks s ! k)" for k
    using fr(3) [of k] that d(1,2) by blast
  have succ: "successively (\<lambda>a b. in_use (chunks s1 ! a) \<or> in_use (chunks s1 ! b)) xs" "successively (\<lambda>a b. in_use (chunks s1 ! a) \<or> in_use (chunks s1 ! b)) ys"
    by (rule successively_use [OF succ0(1)], simp add: keep) (rule successively_use [OF succ0(2)], simp add: keep)
  obtain s2 ys2 fs2 where s2: "(case next_chunk (chunks s1 ! h) of None \<Rightarrow> Some s1
       | Some n \<Rightarrow> do { cnext \<leftarrow> ChunkFromHandle s1 n;
           if in_use cnext then Some s1 else do { s \<leftarrow> RemoveFreeChunkFromBin n s1; Merge h n s } }) = Some s2"
    "heap_ok {h} [] s2 (H1 @ (xs @ h # ys2) # H2) fs2" "merged s1 s2" "set ys2 \<subseteq> set ys"
    "successively (\<lambda>a b. in_use (chunks s1 ! a) \<or> in_use (chunks s1 ! b)) ys2" "ys2 = [] \<or> in_use (chunks s1 ! hd ys2)"
    using coalesce_next [OF fr(1) [unfolded hss] succ(2)] by blast
  have use2: "in_use (chunks s2 ! k) = in_use (chunks s1 ! k)" for k using s2(3) by (simp add: merged_def)
  obtain s3 g xs3 fs3 where s3: "(case prev_chunk (chunks s2 ! h) of None \<Rightarrow> Some (h, s2)
       | Some p \<Rightarrow> do { cprev \<leftarrow> ChunkFromHandle s2 p;
           if in_use cprev then Some (h, s2) else do { s \<leftarrow> RemoveFreeChunkFromBin p s2; s \<leftarrow> Merge p h s; Some (p, s) } }) = Some (g, s3)"
    "heap_ok {g} [] s3 (H1 @ (xs3 @ g # ys2) # H2) fs3" "merged s2 s3" "set xs3 \<subseteq> set xs"
    "successively (\<lambda>a b. in_use (chunks s2 ! a) \<or> in_use (chunks s2 ! b)) xs3" "xs3 = [] \<or> in_use (chunks s2 ! last xs3)"
    using coalesce_prev [OF s2(2)] succ(1) use2 by (simp only: use2) blast
  have use3: "in_use (chunks s3 ! k) = in_use (chunks s1 ! k)" for k using s3(3) use2 by (simp add: merged_def)
  have gF: "g \<in> {g}" by simp
  obtain s4 where s4: "InsertFreeChunkIntoBin g s3 = Some s4" "heap_ok ({g} - {g}) [] s4 (H1 @ (xs3 @ g # ys2) # H2) fs3" "user (chunks s4) = user (chunks s3)"
    "s4 = s3\<lparr>bins := bins s4, chunks := (chunks s3)[g := (chunks s3 ! g)\<lparr>bin_num := Some (BinNumForSize (chunk_size (chunks s3 ! g)))\<rparr>]\<rparr>"
    by (rule insert_into_bin [OF s3(2) gF]) (rule that)
  have ch4: "chunks s4 = (chunks s3)[g := (chunks s3 ! g)\<lparr>bin_num := Some (BinNumForSize (chunk_size (chunks s3 ! g)))\<rparr>]" by (subst s4(4)) simp
  have use4: "in_use (chunks s4 ! k) = in_use (chunks s1 ! k)" for k
    unfolding use3 [symmetric] ch4 by (cases "g < length (chunks s3)"; cases "k = g") (simp_all add: in_use_def nth_list_update list_update_beyond)
  have "heap_inv s4"
    unfolding heap_inv_def
  proof (intro exI conjI)
    show "heap_ok {} [] s4 (H1 @ (xs3 @ g # ys2) # H2) fs3" using s4(2) by simp
    have "coalesced (\<lambda>k. in_use (chunks s1 ! k)) H1" "coalesced (\<lambda>k. in_use (chunks s1 ! k)) H2"
      using d(3,4) by (auto intro!: coalesced_mono [OF co'(1)] coalesced_mono [OF co'(2)] simp: fr(3))
    moreover have "successively (\<lambda>a b. in_use (chunks s1 ! a) \<or> in_use (chunks s1 ! b)) (xs3 @ g # ys2)"
      using s2(5,6) s3(5,6) by (auto simp: successively_append_iff successively_Cons use2)
    ultimately show "coalesced (\<lambda>k. in_use (chunks s4 ! k)) (H1 @ (xs3 @ g # ys2) # H2)" by (simp add: use4 coalesced_append)
  qed
  moreover have "user (chunks s4) = (user (chunks s))(h := None)" using s4(3) s3(3) s2(3) fr(2) by (simp add: merged_def)
  moreover have "others s4 = others (s\<lparr>stats := (stats s)\<lparr>bytes_in_use := bytes_in_use (stats s) - int sz\<rparr>\<rparr>)"
  proof -
    have "others s4 = others s3" by (subst s4(4)) (simp add: others_def)
    also have "\<dots> = others s1" using s3(3) s2(3) by (simp add: merged_def)
    finally show ?thesis by (simp add: s1_def others_def)
  qed
  moreover have "extents (regions s4) = extents (regions s)"
  proof -
    have "regions s4 = regions s3" by (subst s4(4)) simp
    then show ?thesis using s3(3) s2(3) by (simp add: merged_def s1_def)
  qed
  moreover have "FreeAndMaybeCoalesce h s = Some s4"
  proof -
    have "slots_ok [] s2 (H1 @ (xs @ h # ys2) # H2) fs2" using s2(2) by (simp add: heap_ok_def)
    then have l2: "h < length (chunks s2)" using slot_less by fastforce
    have nx: "next_chunk (chunks s ! h) = next_chunk (chunks s1 ! h)" using u(1) by (simp add: s1_def)
    define s0 where "s0 = s\<lparr>chunks := (chunks s)[h := (chunks s ! h)\<lparr>allocation_id := -1\<rparr>]\<rparr>"
    have m: "modify h (\<lambda>c. c\<lparr>allocation_id := -1\<rparr>) s = Some s0" using u(1) by (simp add: modify_eq s0_def)
    have e: "s0\<lparr>stats := (stats s0)\<lparr>bytes_in_use := bytes_in_use (stats s0) - int (chunk_size (chunks s ! h))\<rparr>\<rparr> = s1"
      using u(3) by (simp add: s0_def s1_def)
    show ?thesis
      using u(1,2) num l2
      by (simp add: FreeAndMaybeCoalesce_def ChunkFromHandle_eq m Let_def s2(1) [folded nx, folded e] s3(1) s4(1))
  qed
  ultimately show thesis using that by blast
qed

end
