(* ===== verification/BfcRuns.thy ===== *)
theory BfcRuns
  imports BfcSafety
begin

text \<open>
  Executions of the best-fit allocator and what holds in all of them: the client's blocks, the identifiers, the
  statistics and the visitors.
\<close>

subsection \<open>The client's view\<close>

definition allocations :: "bfc \<Rightarrow> allocation set" where
  "allocations s = set (map (\<lambda>c. (chunk_ptr c, chunk_size c, requested_size c, allocation_id c)) (filter in_use (chunks s)))"

lemma allocations_user: "a \<in> allocations s \<longleftrightarrow> (\<exists>h. user (chunks s) h = Some a)"
  unfolding allocations_def user_def by (auto simp: in_set_conv_nth image_iff)

lemma dom_user: "dom (user (chunks s)) \<subseteq> {..<length (chunks s)}"
  by (auto simp: user_def split: if_splits)

lemma finite_dom_user: "finite (dom (user (chunks s)))"
  using dom_user by (rule finite_subset) simp

definition used_bytes :: "(nat \<Rightarrow> allocation option) \<Rightarrow> int" where
  "used_bytes u = (\<Sum>h\<in>dom u. case u h of None \<Rightarrow> 0 | Some (p, sz, q, i) \<Rightarrow> int sz)"

lemma used_bytes_upd: "finite (dom u) \<Longrightarrow> u h = None \<Longrightarrow> used_bytes (u(h \<mapsto> (p, sz, q, i))) = used_bytes u + int sz"
proof -
  assume a: "finite (dom u)" "u h = None"
  have "(\<Sum>k\<in>dom u. case (u(h \<mapsto> (p, sz, q, i))) k of None \<Rightarrow> 0 | Some (p, sz, q, i) \<Rightarrow> int sz) = used_bytes u"
    unfolding used_bytes_def by (rule sum.cong) (use a in auto)
  then show ?thesis using a by (simp add: used_bytes_def domIff)
qed

lemma used_bytes_del: "finite (dom u) \<Longrightarrow> u h = Some (p, sz, q, i) \<Longrightarrow> used_bytes (u(h := None)) = used_bytes u - int sz"
  using used_bytes_upd [of "u(h := None)" h p sz q i] by (simp add: fun_upd_idem)

definition use_ok :: "bfc \<Rightarrow> bool" where
  "use_ok s \<longleftrightarrow> 1 \<le> next_allocation_id s \<and>
    (\<forall>h p sz q i. user (chunks s) h = Some (p, sz, q, i) \<longrightarrow> 0 < q \<and> q \<le> sz \<and> 1 \<le> i \<and> i < next_allocation_id s) \<and>
    (\<forall>h k p sz q p' sz' q' i. user (chunks s) h = Some (p, sz, q, i) \<and> user (chunks s) k = Some (p', sz', q', i) \<longrightarrow> h = k) \<and>
    bytes_in_use (stats s) = used_bytes (user (chunks s)) \<and> bytes_in_use (stats s) \<le> max_bytes_in_use (stats s)"

text \<open>Each visitor has been called exactly once for each region.\<close>

definition visits_ok :: "bfc \<Rightarrow> bool" where
  "visits_ok s \<longleftrightarrow> (\<forall>v p b. count (mset (visits s)) (v, p, b) = count (mset (region_visitors s)) v * count (mset (extents (regions s))) (p, b))"

definition bfc_inv :: "bfc \<Rightarrow> bool" where
  "bfc_inv s \<longleftrightarrow> heap_inv s \<and> limits_ok s \<and> use_ok s \<and> visits_ok s"

lemma count_map_pair: "count (mset (map (\<lambda>v. (v, p, b)) vs)) (w, p', b') = (if p' = p \<and> b' = b then count (mset vs) w else 0)"
  by (induction vs) auto

lemma count_map_extents: "count (mset (map (\<lambda>r. (v, region_ptr r, memory_size r)) rs)) (w, p, b) = (if w = v then count (mset (extents rs)) (p, b) else 0)"
  by (induction rs) (auto simp: extents_def)

lemma visits_ok_extend:
  assumes "visits_ok s" "visits s' = visits s @ map (\<lambda>v. (v, p, k)) (region_visitors s)" "region_visitors s' = region_visitors s"
    and "mset (extents (regions s')) = add_mset (p, k) (mset (extents (regions s)))"
  shows "visits_ok s'"
  using assms(1) unfolding visits_ok_def assms(2-4) mset_append count_union count_map_pair by auto

lemma visits_ok_visitor: "visits_ok s \<Longrightarrow> visits_ok (AddAllocVisitor v s)"
  unfolding visits_ok_def AddAllocVisitor_def by (auto simp: count_map_extents simp del: mset_map)

subsection \<open>Allocation and deallocation\<close>

lemma use_ok_alloc:
  assumes "use_ok s" "user (chunks s) h = None" "user (chunks s') = (user (chunks s))(h \<mapsto> (p, sz, q, next_allocation_id s))"
    and "0 < q" "q \<le> sz" "next_allocation_id s' = next_allocation_id s + 1" "stats s' = count_alloc sz (stats s)"
  shows "use_ok s'"
proof -
  have id: "\<And>k p sz q i. user (chunks s) k = Some (p, sz, q, i) \<Longrightarrow> i < next_allocation_id s" "1 \<le> next_allocation_id s"
    using assms(1) by (auto simp: use_ok_def)
  have "used_bytes (user (chunks s')) = used_bytes (user (chunks s)) + int sz"
    unfolding assms(3) by (rule used_bytes_upd [OF finite_dom_user assms(2)])
  moreover have "user (chunks s') a = Some (x, y, z, i) \<and> user (chunks s') b = Some (x', y', z', i) \<longrightarrow> a = b" for a b x y z x' y' z' i
  proof (cases "a = h"; cases "b = h")
    assume "a \<noteq> h" "b \<noteq> h"
    then show ?thesis using assms(1) by (simp add: assms(3) use_ok_def)
  qed (use id(1) in \<open>fastforce simp: assms(3)\<close>)+
  moreover have "0 < z \<and> z \<le> y \<and> 1 \<le> i \<and> i < next_allocation_id s'" if "user (chunks s') a = Some (x, y, z, i)" for a x y z i
  proof (cases "a = h")
    case True
    then show ?thesis using that assms(4-6) id(2) by (simp add: assms(3))
  next
    case False
    then have "0 < z \<and> z \<le> y \<and> 1 \<le> i \<and> i < next_allocation_id s" using that assms(1) by (simp add: assms(3) use_ok_def)
    then show ?thesis using assms(6) by simp
  qed
  ultimately show ?thesis using assms(1,6,7) unfolding use_ok_def by (simp add: count_alloc_def)
qed

lemma use_ok_free:
  assumes "use_ok s" "user (chunks s) h = Some (p, sz, q, i)" "user (chunks s') = (user (chunks s))(h := None)"
    and "next_allocation_id s' = next_allocation_id s" "stats s' = (stats s)\<lparr>bytes_in_use := bytes_in_use (stats s) - int sz\<rparr>"
  shows "use_ok s'"
proof -
  have "used_bytes (user (chunks s')) = used_bytes (user (chunks s)) - int sz"
    unfolding assms(3) by (rule used_bytes_del [OF finite_dom_user assms(2)])
  moreover have sub: "user (chunks s) a = Some x" if "user (chunks s') a = Some x" for a x
    using that by (simp add: assms(3) split: if_splits)
  ultimately show ?thesis using assms(1,4,5) unfolding use_ok_def by (auto dest!: sub)
qed

lemma RoundedBytes_range:
  assumes "0 < n" "n \<le> 2 ^ 60"
  shows "256 dvd RoundedBytes n" "256 \<le> RoundedBytes n" "n \<le> RoundedBytes n" "RoundedBytes n \<le> 2 ^ 61"
proof -
  have "n + 255 < 2 ^ 64" using assms(2) by simp
  note r = RoundedBytes_eq [OF this]
  show "256 dvd RoundedBytes n" "n \<le> RoundedBytes n" using r(4,2) .
  have "0 < RoundedBytes n" using r(2) assms(1) by simp
  then show "256 \<le> RoundedBytes n" using r(4) by (auto elim!: dvdE)
  show "RoundedBytes n \<le> 2 ^ 61" using r(3) assms(2) by simp
qed

lemma FindChunkPtr_inv:
  assumes inv: "bfc_inv s" and n: "0 < n" "n \<le> 2 ^ 60"
  obtains p s' where "FindChunkPtr (BinNumForSize (RoundedBytes n)) (RoundedBytes n) n s = Some (p, s')" "bfc_inv s'"
    "extents (regions s') = extents (regions s)"
    "p = 0 \<and> s' = s \<and> (\<forall>k. is_free s k \<longrightarrow> chunk_size (chunks s ! k) < RoundedBytes n) \<or>
     p \<noteq> 0 \<and> (\<exists>h sz. user (chunks s) h = None \<and> n \<le> sz \<and> user (chunks s') = (user (chunks s))(h \<mapsto> (p, sz, n, next_allocation_id s)))"
proof -
  note r = RoundedBytes_range [OF n]
  have heap: "heap_inv s" and lim: "limits_ok s" and use: "use_ok s" and vis: "visits_ok s" using inv by (simp_all add: bfc_inv_def)
  have id: "next_allocation_id s \<noteq> -1" using use by (simp add: use_ok_def)
  have r63: "RoundedBytes n < 2 ^ 63" using r(4) by simp
  from FindChunkPtr_spec [OF heap r(1,2) r63 id, of n] show thesis
  proof (elim disjE exE conjE)
    assume "\<forall>k. is_free s k \<longrightarrow> chunk_size (chunks s ! k) < RoundedBytes n"
      "FindChunkPtr (BinNumForSize (RoundedBytes n)) (RoundedBytes n) n s = Some (0, s)"
    then show thesis using that inv by blast
  next
    fix h sz s'
    assume f: "is_free s h" "RoundedBytes n \<le> chunk_size (chunks s ! h)"
      "sz = (if 2 * RoundedBytes n \<le> chunk_size (chunks s ! h) then RoundedBytes n else chunk_size (chunks s ! h))"
      "FindChunkPtr (BinNumForSize (RoundedBytes n)) (RoundedBytes n) n s = Some (chunk_ptr (chunks s ! h), s')" "heap_inv s'"
      "user (chunks s') = (user (chunks s))(h \<mapsto> (chunk_ptr (chunks s ! h), sz, n, next_allocation_id s))"
      "others s' = others (s\<lparr>next_allocation_id := next_allocation_id s + 1, stats := count_alloc sz (stats s)\<rparr>)"
      "extents (regions s') = extents (regions s)"
    obtain hss fs where hp: "heap_ok {} [] s hss fs" using heap by (auto simp: heap_inv_def)
    then have sl: "slots_ok [] s hss fs" by (simp add: heap_ok_def)
    have h: "h \<in> members hss" "\<not> in_use (chunks s ! h)" using free_iff [OF hp] f(1) by blast+
    have pos: "chunk_ptr (chunks s ! h) \<noteq> 0" using chunk_bounds(1) [OF sl h(1)] by simp
    have none: "user (chunks s) h = None" using h(2) by (simp add: user_def)
    have sz: "n \<le> sz" using f(2,3) r(3) by simp
    have o: "limits_ok s' = limits_ok s" "next_allocation_id s' = next_allocation_id s + 1" "stats s' = count_alloc sz (stats s)"
      "visits s' = visits s" "region_visitors s' = region_visitors s"
      using f(7) by (simp_all add: others_def limits_ok_def)
    have "use_ok s'" by (rule use_ok_alloc [OF use none f(6) n(1) sz o(2,3)])
    then have "bfc_inv s'" using f(5,8) o lim vis by (simp add: bfc_inv_def visits_ok_def)
    then show thesis using that [OF f(4) _ f(8)] pos none sz f(6) by blast
  qed
qed

lemma Extend_inv:
  assumes inv: "bfc_inv s" and law: "sub_alloc_ok Alloc s" and n: "n \<le> 2 ^ 61" and ext: "Extend Alloc n s = Some (b, s')"
  shows "bfc_inv s'" "user (chunks s') = user (chunks s)" "next_allocation_id s' = next_allocation_id s"
proof -
  have i: "heap_inv s" "limits_ok s" "use_ok s" "visits_ok s" using inv by (simp_all add: bfc_inv_def)
  note e = Extend_spec [OF i(1,2) law n ext]
  show "user (chunks s') = user (chunks s)" "next_allocation_id s' = next_allocation_id s" by (fact e)+
  have "use_ok s'" using i(3) unfolding use_ok_def e(3-5) .
  moreover have "visits_ok s'"
    using e(8)
  proof (elim disjE exE conjE)
    assume "visits s' = visits s" "extents (regions s') = extents (regions s)"
    then show ?thesis using i(4) e(6) by (simp add: visits_ok_def)
  qed (use visits_ok_extend [OF i(4) _ e(6)] in blast)
  ultimately show "bfc_inv s'" using e(1,2) by (simp add: bfc_inv_def)
qed

lemma AllocateRawInternal_inv:
  assumes inv: "bfc_inv s" and law: "sub_alloc_ok Alloc s" and n: "0 < n" "n \<le> 2 ^ 60" and run: "AllocateRawInternal Alloc n s = Some (p, s')"
  shows "bfc_inv s'"
    "p = 0 \<and> user (chunks s') = user (chunks s) \<or>
     p \<noteq> 0 \<and> (\<exists>h sz. user (chunks s) h = None \<and> n \<le> sz \<and> user (chunks s') = (user (chunks s))(h \<mapsto> (p, sz, n, next_allocation_id s)))"
proof -
  have goal: "bfc_inv s' \<and> (p = 0 \<and> user (chunks s') = user (chunks s) \<or>
     p \<noteq> 0 \<and> (\<exists>h sz. user (chunks s) h = None \<and> n \<le> sz \<and> user (chunks s') = (user (chunks s))(h \<mapsto> (p, sz, n, next_allocation_id s))))"
  proof -
    note r = RoundedBytes_range [OF n]
    obtain p1 s1 where f1: "FindChunkPtr (BinNumForSize (RoundedBytes n)) (RoundedBytes n) n s = Some (p1, s1)" "bfc_inv s1"
      "p1 = 0 \<and> s1 = s \<and> (\<forall>k. is_free s k \<longrightarrow> chunk_size (chunks s ! k) < RoundedBytes n) \<or>
       p1 \<noteq> 0 \<and> (\<exists>h sz. user (chunks s) h = None \<and> n \<le> sz \<and> user (chunks s1) = (user (chunks s))(h \<mapsto> (p1, sz, n, next_allocation_id s)))"
      by (rule FindChunkPtr_inv [OF inv n])
    show ?thesis
    proof (cases "p1 = 0")
      case False
      then have "p = p1" "s' = s1" using run n(1) f1(1) by (simp_all add: AllocateRawInternal_def Let_def)
      then show ?thesis using f1(2,3) False by blast
    next
      case True
      then have "s1 = s" using f1(3) by blast
      then obtain e s2 where e: "Extend Alloc (RoundedBytes n) s = Some (e, s2)" and
        rest: "(if e then FindChunkPtr (BinNumForSize (RoundedBytes n)) (RoundedBytes n) n s2 else Some (0, s2)) = Some (p, s')"
        using run n(1) f1(1) True by (auto simp: AllocateRawInternal_def Let_def split: bind_splits)
      note x = Extend_inv [OF inv law r(4) e]
      show ?thesis
      proof (cases e)
        case False
        then show ?thesis using rest x by simp
      next
        case True
        obtain p3 s3 where f3: "FindChunkPtr (BinNumForSize (RoundedBytes n)) (RoundedBytes n) n s2 = Some (p3, s3)" "bfc_inv s3"
          "p3 = 0 \<and> s3 = s2 \<and> (\<forall>k. is_free s2 k \<longrightarrow> chunk_size (chunks s2 ! k) < RoundedBytes n) \<or>
           p3 \<noteq> 0 \<and> (\<exists>h sz. user (chunks s2) h = None \<and> n \<le> sz \<and> user (chunks s3) = (user (chunks s2))(h \<mapsto> (p3, sz, n, next_allocation_id s2)))"
          by (rule FindChunkPtr_inv [OF x(1) n])
        have "p = p3" "s' = s3" using rest True f3(1) by simp_all
        then show ?thesis using f3(2,3) x(2,3) by auto
      qed
    qed
  qed
  then show "bfc_inv s'" "p = 0 \<and> user (chunks s') = user (chunks s) \<or>
     p \<noteq> 0 \<and> (\<exists>h sz. user (chunks s) h = None \<and> n \<le> sz \<and> user (chunks s') = (user (chunks s))(h \<mapsto> (p, sz, n, next_allocation_id s)))"
    by blast+
qed

lemma AllocateRawInternal_returns:
  assumes inv: "bfc_inv s" and law: "sub_alloc_ok Alloc s" and n: "n \<le> 2 ^ 60" and "started_backpedal s \<or> 2048 < n"
  shows "AllocateRawInternal Alloc n s \<noteq> None"
proof (cases "n = 0")
  case False
  then have pos: "0 < n" by simp
  note r = RoundedBytes_range [OF pos n]
  have i: "heap_inv s" "limits_ok s" using inv by (simp_all add: bfc_inv_def)
  obtain p1 s1 where f1: "FindChunkPtr (BinNumForSize (RoundedBytes n)) (RoundedBytes n) n s = Some (p1, s1)" "p1 = 0 \<longrightarrow> s1 = s"
    by (rule FindChunkPtr_inv [OF inv pos n]) blast
  have "started_backpedal s \<or> 2304 \<le> RoundedBytes n" using assms(4) r(1,3) by (auto elim!: dvdE)
  then obtain e s2 where e: "Extend Alloc (RoundedBytes n) s = Some (e, s2)"
    using Extend_returns [OF i law r(4)] by auto
  note x = Extend_inv [OF inv law r(4) e]
  obtain p3 s3 where "FindChunkPtr (BinNumForSize (RoundedBytes n)) (RoundedBytes n) n s2 = Some (p3, s3)"
    by (rule FindChunkPtr_inv [OF x(1) pos n]) blast
  then show ?thesis using f1 e False by (auto simp: AllocateRawInternal_def Let_def)
qed (simp add: AllocateRawInternal_def)

lemma DeallocateRawInternal_inv:
  assumes inv: "bfc_inv s" and u: "user (chunks s) h = Some (p, sz, q, i)"
  obtains s' where "DeallocateRawInternal p s = Some s'" "bfc_inv s'" "user (chunks s') = (user (chunks s))(h := None)"
proof -
  have i: "heap_inv s" "limits_ok s" "use_ok s" "visits_ok s" using inv by (simp_all add: bfc_inv_def)
  obtain s' where s': "FreeAndMaybeCoalesce h s = Some s'" "heap_inv s'" "user (chunks s') = (user (chunks s))(h := None)"
    "others s' = others (s\<lparr>stats := (stats s)\<lparr>bytes_in_use := bytes_in_use (stats s) - int sz\<rparr>\<rparr>)" "extents (regions s') = extents (regions s)"
    by (rule FreeAndMaybeCoalesce_spec [OF i(1) u])
  have o: "limits_ok s' = limits_ok s" "next_allocation_id s' = next_allocation_id s"
    "stats s' = (stats s)\<lparr>bytes_in_use := bytes_in_use (stats s) - int sz\<rparr>" "visits s' = visits s" "region_visitors s' = region_visitors s"
    using s'(4) by (simp_all add: others_def limits_ok_def)
  have "use_ok s'" by (rule use_ok_free [OF i(3) u s'(3) o(2,3)])
  then have "bfc_inv s'" using s'(2,5) o i by (simp add: bfc_inv_def visits_ok_def)
  moreover have "DeallocateRawInternal p s = Some s'"
  proof -
    obtain hss fs where heap: "heap_ok {} [] s hss fs" using i(1) by (auto simp: heap_inv_def)
    then have sl: "slots_ok [] s hss fs" by (simp add: heap_ok_def)
    have l: "h < length (chunks s)" "in_use (chunks s ! h)" "chunk_ptr (chunks s ! h) = p" using u by (auto simp: user_def split: if_splits)
    then have mem: "h \<in> members hss" using sl by (auto simp: slots_ok_def)
    obtain R1 r R2 H1 hs H2 where R: "regions s = R1 @ r # R2" "hss = H1 @ hs # H2" "length R1 = length H1" "h \<in> set hs"
      "region_ok (chunks s) r hs" "list_all2 (region_ok (chunks s)) R1 H1" "list_all2 (region_ok (chunks s)) R2 H2"
      by (rule region_of [OF sl mem])
    have "regions_sorted (R1 @ r # R2)" using sl R(1) by (simp add: slots_ok_def)
    from get_handle_chunk [OF this R(5,4)] have "get_handle (regions s) p = Some (Some h)" using R(1) l(3) by simp
    moreover have "p \<noteq> 0" using chunk_bounds(1) [OF sl mem] l(3) by simp
    ultimately show ?thesis using s'(1) by (simp add: DeallocateRawInternal_def)
  qed
  ultimately show thesis using that s'(3) by blast
qed

subsection \<open>Executions\<close>

inductive bfc_reach :: "bfc \<Rightarrow> bool" where
  bfc_init: "0 < limit \<Longrightarrow> limit \<le> 2 ^ 61 \<Longrightarrow> BFCAllocator limit allow_growth = Some s \<Longrightarrow> bfc_reach s"
| bfc_alloc: "bfc_reach s \<Longrightarrow> sub_alloc_ok Alloc s \<Longrightarrow> n \<le> 2 ^ 60 \<Longrightarrow> AllocateRawInternal Alloc n s = Some (p, s') \<Longrightarrow> bfc_reach s'"
| bfc_free: "bfc_reach s \<Longrightarrow> (p, sz, q, i) \<in> allocations s \<Longrightarrow> DeallocateRawInternal p s = Some s' \<Longrightarrow> bfc_reach s'"
| bfc_visitor: "bfc_reach s \<Longrightarrow> bfc_reach (AddAllocVisitor v s)"

lemma bfc_init_inv:
  assumes "0 < limit" "limit \<le> 2 ^ 61" "BFCAllocator limit allow_growth = Some s"
  shows "bfc_inv s"
proof -
  have s: "bins s = replicate kNumBins []" "regions s = []" "chunks s = []" "free_chunks_list s = None" "next_allocation_id s = 1"
    "region_visitors s = []" "visits s = []" "bytes_in_use (stats s) = 0" "max_bytes_in_use (stats s) = 0" "started_backpedal s = False"
    "curr_region_allocation_bytes s = (if allow_growth then RoundedBytes (min limit 1048576) else RoundedBytes limit)"
    using assms(3) by (auto simp: BFCAllocator_def check_def Let_def split: if_splits)
  have r: "256 dvd RoundedBytes n \<and> 0 < RoundedBytes n \<and> RoundedBytes n \<le> 2 ^ 62" if "0 < n" "n \<le> 2 ^ 61" for n
  proof -
    have "n + 255 < 2 ^ 64" using that by simp
    from RoundedBytes_eq [OF this] that show ?thesis by simp
  qed
  have "limits_ok s" using r [of limit] r [of "min limit 1048576"] assms(1,2) s(10,11) by (auto simp: limits_ok_def)
  moreover have "heap_ok {} [] s [] []" by (simp add: heap_ok_def slots_ok_def bins_ok_def regions_sorted_def s)
  then have "heap_inv s" by (auto simp: heap_inv_def coalesced_def)
  moreover have "user (chunks s) = (\<lambda>_. None)" by (simp add: s user_def fun_eq_iff)
  then have "use_ok s" by (simp add: use_ok_def used_bytes_def s)
  moreover have "visits_ok s" by (simp add: visits_ok_def s)
  ultimately show ?thesis by (simp add: bfc_inv_def)
qed

lemma bfc_reach_inv: "bfc_reach s \<Longrightarrow> bfc_inv s"
proof (induction rule: bfc_reach.induct)
  case (bfc_init limit allow_growth s)
  then show ?case by (rule bfc_init_inv)
next
  case (bfc_alloc s Alloc n p s')
  show ?case
  proof (cases "n = 0")
    case True
    then show ?thesis using bfc_alloc by (simp add: AllocateRawInternal_def)
  next
    case False
    then show ?thesis using bfc_alloc AllocateRawInternal_inv(1) by blast
  qed
next
  case (bfc_free s p sz q i s')
  then obtain h where "user (chunks s) h = Some (p, sz, q, i)" unfolding allocations_user by blast
  then obtain t where "DeallocateRawInternal p s = Some t" "bfc_inv t"
    by (rule DeallocateRawInternal_inv [OF bfc_free.IH])
  with bfc_free.hyps(3) show ?case by simp
next
  case (bfc_visitor s v)
  then have "heap_inv (AddAllocVisitor v s)" by (rule_tac heap_inv_others [of s]) (simp_all add: bfc_inv_def AddAllocVisitor_def)
  moreover have "limits_ok (AddAllocVisitor v s) = limits_ok s" by (simp add: limits_ok_def AddAllocVisitor_def)
  moreover have "use_ok (AddAllocVisitor v s) = use_ok s" unfolding use_ok_def by (simp add: AddAllocVisitor_def)
  ultimately show ?case using bfc_visitor.IH visits_ok_visitor [of s v] unfolding bfc_inv_def by blast
qed

subsection \<open>Blocks\<close>

definition block :: "allocation \<Rightarrow> nat set" where
  "block a = (case a of (p, sz, q, i) \<Rightarrow> {p..<p + sz})"

lemma user_chunk:
  assumes "user (chunks s) h = Some (p, sz, q, i)" "slots_ok [] s hss fs"
  shows "h \<in> members hss" "chunk_ptr (chunks s ! h) = p" "chunk_size (chunks s ! h) = sz" "chunk_end (chunks s ! h) = p + sz"
    "requested_size (chunks s ! h) = q" "allocation_id (chunks s ! h) = i" "h < length (chunks s)"
proof -
  have u: "h < length (chunks s)" "in_use (chunks s ! h)" "chunk_ptr (chunks s ! h) = p" "chunk_size (chunks s ! h) = sz"
    "requested_size (chunks s ! h) = q" "allocation_id (chunks s ! h) = i"
    using assms(1) by (auto simp: user_def split: if_splits)
  have "h \<notin> set fs" "h \<in> members hss \<union> set fs" using assms(2) u(1,2) by (auto simp: slots_ok_def)
  then show "h \<in> members hss" by blast
  show "chunk_ptr (chunks s ! h) = p" "chunk_size (chunks s ! h) = sz" "chunk_end (chunks s ! h) = p + sz"
    "requested_size (chunks s ! h) = q" "allocation_id (chunks s ! h) = i" "h < length (chunks s)"
    using u by (simp_all add: chunk_end_def)
qed

lemma blocks_disjoint:
  assumes inv: "heap_inv s" and "user (chunks s) h = Some a" "user (chunks s) k = Some b" "h \<noteq> k"
  shows "block a \<inter> block b = {}"
proof -
  obtain hss fs where "heap_ok {} [] s hss fs" using inv by (auto simp: heap_inv_def)
  then have sl: "slots_ok [] s hss fs" by (simp add: heap_ok_def)
  obtain p sz q i p' sz' q' i' where ab: "a = (p, sz, q, i)" "b = (p', sz', q', i')" by (cases a, cases b)
  note u = user_chunk [OF assms(2) [unfolded ab(1)] sl] and v = user_chunk [OF assms(3) [unfolded ab(2)] sl]
  have "p + sz \<le> p' \<or> p' + sz' \<le> p" using chunks_disjoint [OF sl u(1) v(1) assms(4)] u v by simp
  then show ?thesis by (auto simp: ab block_def)
qed

lemma block_in_region:
  assumes inv: "heap_inv s" and "user (chunks s) h = Some (p, sz, q, i)"
  shows "\<exists>r\<in>set (regions s). region_ptr r \<le> p \<and> p + sz \<le> region_ptr r + memory_size r"
proof -
  obtain hss fs where "heap_ok {} [] s hss fs" using inv by (auto simp: heap_inv_def)
  then have sl: "slots_ok [] s hss fs" by (simp add: heap_ok_def)
  note u = user_chunk [OF assms(2) sl]
  obtain R1 r R2 H1 hs H2 where R: "regions s = R1 @ r # R2" "hss = H1 @ hs # H2" "length R1 = length H1" "h \<in> set hs"
    "region_ok (chunks s) r hs" "list_all2 (region_ok (chunks s)) R1 H1" "list_all2 (region_ok (chunks s)) R2 H2"
    by (rule region_of [OF sl u(1)])
  have "end_ptr r = region_ptr r + memory_size r" using R(5) by (simp add: region_ok_def)
  then have "region_ptr r \<le> p" "p + sz \<le> region_ptr r + memory_size r"
    using tiles_bounds(1,2) [OF region_ok_tiles [OF R(5)] R(4)] u by simp_all
  then show ?thesis using R(1) by auto
qed

lemma ChunkAt_user:
  assumes inv: "heap_inv s" and u: "user (chunks s) h = Some (p, sz, q, i)"
  shows "ChunkAt p s = Some (chunks s ! h)"
proof -
  obtain hss fs where "heap_ok {} [] s hss fs" using inv by (auto simp: heap_inv_def)
  then have sl: "slots_ok [] s hss fs" by (simp add: heap_ok_def)
  note u = user_chunk [OF u sl]
  obtain R1 r R2 H1 hs H2 where R: "regions s = R1 @ r # R2" "hss = H1 @ hs # H2" "length R1 = length H1" "h \<in> set hs"
    "region_ok (chunks s) r hs" "list_all2 (region_ok (chunks s)) R1 H1" "list_all2 (region_ok (chunks s)) R2 H2"
    by (rule region_of [OF sl u(1)])
  have "regions_sorted (R1 @ r # R2)" using sl R(1) by (simp add: slots_ok_def)
  from get_handle_chunk [OF this R(5,4)] show ?thesis using R(1) u(2,7) by (simp add: ChunkAt_def ChunkFromHandle_eq)
qed

lemma allocations_ran: "allocations s = ran (user (chunks s))"
proof (rule set_eqI)
  show "a \<in> allocations s \<longleftrightarrow> a \<in> ran (user (chunks s))" for a unfolding allocations_user ran_def by blast
qed

lemma allocations_upd:
  assumes "user (chunks s') = (user (chunks s))(h \<mapsto> a)" "user (chunks s) h = None"
  shows "allocations s' = insert a (allocations s)"
  unfolding allocations_ran assms(1) using assms(2) by (rule ran_map_upd)

lemma allocations_del:
  assumes "use_ok s" "user (chunks s') = (user (chunks s))(h := None)" "user (chunks s) h = Some (p, sz, q, i)"
  shows "allocations s' = allocations s - {(p, sz, q, i)}"
proof -
  have unique: "k = h" if "user (chunks s) k = Some (p, sz, q, i)" for k
    using assms(1,3) that unfolding use_ok_def by blast
  show ?thesis
    unfolding allocations_ran assms(2)
  proof (intro set_eqI iffI)
    fix a assume "a \<in> ran ((user (chunks s))(h := None))"
    then obtain k where "k \<noteq> h" "user (chunks s) k = Some a" by (auto simp: ran_def split: if_splits)
    then show "a \<in> ran (user (chunks s)) - {(p, sz, q, i)}" using unique by (auto simp: ran_def)
  next
    fix a assume "a \<in> ran (user (chunks s)) - {(p, sz, q, i)}"
    then obtain k where "user (chunks s) k = Some a" "a \<noteq> (p, sz, q, i)" by (auto simp: ran_def)
    then have "user (chunks s) k = Some a" "k \<noteq> h" using assms(3) by auto
    then show "a \<in> ran ((user (chunks s))(h := None))" by (auto simp: ran_def)
  qed
qed

lemma neighbour_in_use:
  assumes inv: "heap_inv s" and "is_free s h" "next_chunk (chunks s ! h) = Some k"
  shows "\<not> is_free s k"
proof -
  obtain hss fs where heap: "heap_ok {} [] s hss fs" and co: "coalesced (\<lambda>k. in_use (chunks s ! k)) hss"
    using inv by (auto simp: heap_inv_def)
  then have sl: "slots_ok [] s hss fs" by (simp add: heap_ok_def)
  have h: "h \<in> members hss" "\<not> in_use (chunks s ! h)" using free_iff [OF heap] assms(2) by blast+
  obtain H1 xs ys H2 where hss: "hss = H1 @ (xs @ h # ys) # H2" using members_split [OF h(1)] by (metis split_list)
  have "next_chunk (chunks s ! h) = hdo ys None" using neighbours(1) sl hss by blast
  then obtain zs where ys: "ys = k # zs" using assms(3) by (cases ys) auto
  have "successively (\<lambda>a b. in_use (chunks s ! a) \<or> in_use (chunks s ! b)) (xs @ h # k # zs)"
    using co unfolding hss ys coalesced_append by blast
  then have "in_use (chunks s ! k)" using h(2) by (auto simp: successively_append_iff)
  then show ?thesis using free_iff [OF heap] by blast
qed

subsection \<open>Properties\<close>

text \<open>C1: Memory safety of the best-fit allocator: after any sequence of allocations of at most 2^60 bytes each, deallocations and
  registrations, with a memory limit of at most 2^61 bytes and an allocator below that hands out pieces of less than 2^39
  bytes which do not overlap, the blocks the clients hold are pairwise disjoint, each lies inside one region obtained from
  the allocator below and is at least as large as requested, their identifiers differ, the statistics count exactly
  their bytes, and every visitor registered once has been called exactly once for every region. (Requests within 255 bytes of
  2^64 break this, see \<open>bfc_huge_request\<close>.)\<close>

theorem bfc_memory_safe:
  assumes "bfc_reach s"
  shows "(\<forall>a\<in>allocations s. \<forall>b\<in>allocations s. a \<noteq> b \<longrightarrow> block a \<inter> block b = {} \<and> snd (snd (snd a)) \<noteq> snd (snd (snd b))) \<and>
    (\<forall>(p, sz, q, i)\<in>allocations s. 0 < q \<and> q \<le> sz \<and> (\<exists>r\<in>set (regions s). region_ptr r \<le> p \<and> p + sz \<le> region_ptr r + memory_size r)) \<and>
    bytes_in_use (stats s) = (\<Sum>(p, sz, q, i)\<in>allocations s. int sz) \<and>
    (\<forall>v r. v \<in> set (region_visitors s) \<and> r \<in> set (regions s) \<and> count (mset (region_visitors s)) v = 1 \<longrightarrow>
      count (mset (visits s)) (v, region_ptr r, memory_size r) = count (mset (extents (regions s))) (region_ptr r, memory_size r))"
proof -
  have inv: "heap_inv s" "use_ok s" "visits_ok s" using bfc_reach_inv [OF assms] by (simp_all add: bfc_inv_def)
  have "block a \<inter> block b = {} \<and> snd (snd (snd a)) \<noteq> snd (snd (snd b))"
    if ab: "a \<in> allocations s" "b \<in> allocations s" "a \<noteq> b" for a b
  proof -
    obtain h k where hk: "user (chunks s) h = Some a" "user (chunks s) k = Some b" using ab(1,2) by (auto simp: allocations_user)
    then have ne: "h \<noteq> k" using ab(3) by auto
    moreover obtain p sz q i p' sz' q' i' where "a = (p, sz, q, i)" "b = (p', sz', q', i')" by (cases a, cases b)
    moreover from this have "i \<noteq> i'" using inv(2) hk ne unfolding use_ok_def by blast
    ultimately show ?thesis using blocks_disjoint [OF inv(1) hk ne] by simp
  qed
  moreover have "0 < q \<and> q \<le> sz \<and> (\<exists>r\<in>set (regions s). region_ptr r \<le> p \<and> p + sz \<le> region_ptr r + memory_size r)"
    if mem: "(p, sz, q, i) \<in> allocations s" for p sz q i
  proof -
    obtain h where h: "user (chunks s) h = Some (p, sz, q, i)" using mem unfolding allocations_user by blast
    then have "0 < q \<and> q \<le> sz" using inv(2) unfolding use_ok_def by blast
    then show ?thesis using block_in_region [OF inv(1) h] by blast
  qed
  moreover have "bytes_in_use (stats s) = (\<Sum>(p, sz, q, i)\<in>allocations s. int sz)"
  proof -
    let ?u = "user (chunks s)"
    have inj: "inj_on (\<lambda>h. the (?u h)) (dom ?u)"
      using inv(2) unfolding use_ok_def inj_on_def by (metis domD option.sel prod_cases4)
    have "allocations s = (\<lambda>h. the (?u h)) ` dom ?u" unfolding allocations_ran by (force simp: ran_def)
    then have "(\<Sum>(p, sz, q, i)\<in>allocations s. int sz) = (\<Sum>h\<in>dom ?u. case the (?u h) of (p, sz, q, i) \<Rightarrow> int sz)"
      using sum.reindex [OF inj] by (simp add: split_def)
    also have "\<dots> = used_bytes ?u" unfolding used_bytes_def by (rule sum.cong) auto
    finally show ?thesis using inv(2) by (simp add: use_ok_def)
  qed
  moreover have "count (mset (visits s)) (v, region_ptr r, memory_size r) = count (mset (extents (regions s))) (region_ptr r, memory_size r)"
    if "count (mset (region_visitors s)) v = 1" for v r
    using inv(3) that by (simp add: visits_ok_def)
  ultimately show ?thesis by blast
qed

text \<open>C3: An allocation of at most 2^60 bytes either returns null and leaves every block alone, or returns the address of a new
  block of at least the requested size, disjoint from all others, which are left alone; the allocator then answers
  queries about the block.\<close>

theorem bfc_allocate:
  assumes "bfc_reach s" "sub_alloc_ok Alloc s" "0 < n" "n \<le> 2 ^ 60" "AllocateRawInternal Alloc n s = Some (p, s')"
  shows "p = 0 \<and> allocations s' = allocations s \<or>
    p \<noteq> 0 \<and> (\<exists>sz. n \<le> sz \<and> allocations s' = insert (p, sz, n, next_allocation_id s) (allocations s) \<and>
      (\<forall>b\<in>allocations s. {p..<p + sz} \<inter> block b = {}) \<and>
      AllocatedSize p s' = Some sz \<and> RequestedSize p s' = Some n \<and> AllocationId p s' = Some (next_allocation_id s))"
proof -
  note run = AllocateRawInternal_inv [OF bfc_reach_inv [OF assms(1)] assms(2-5)]
  have inv': "heap_inv s'" using run(1) by (simp add: bfc_inv_def)
  show ?thesis
    using run(2)
  proof (elim disjE conjE exE)
    assume "p = 0" "user (chunks s') = user (chunks s)"
    then show ?thesis by (simp add: allocations_ran)
  next
    fix h sz
    assume h: "p \<noteq> 0" "user (chunks s) h = None" "n \<le> sz" "user (chunks s') = (user (chunks s))(h \<mapsto> (p, sz, n, next_allocation_id s))"
    then have uh: "user (chunks s') h = Some (p, sz, n, next_allocation_id s)" by simp
    have "{p..<p + sz} \<inter> block b = {}" if mem: "b \<in> allocations s" for b
    proof -
      obtain k where k: "user (chunks s) k = Some b" using mem unfolding allocations_user by blast
      then have "k \<noteq> h" "user (chunks s') k = Some b" using h(2,4) by auto
      then have "block (p, sz, n, next_allocation_id s) \<inter> block b = {}" using blocks_disjoint [OF inv' uh] by metis
      then show ?thesis by (simp add: block_def)
    qed
    moreover have "ChunkAt p s' = Some (chunks s' ! h)" by (rule ChunkAt_user [OF inv' uh])
    moreover have "chunk_size (chunks s' ! h) = sz" "requested_size (chunks s' ! h) = n" "allocation_id (chunks s' ! h) = next_allocation_id s"
      using uh by (auto simp: user_def split: if_splits)
    ultimately show ?thesis
      using h(1,3) allocations_upd [OF h(4,2)] by (auto simp: AllocatedSize_def RequestedSize_def AllocationId_def)
  qed
qed

text \<open>C2: After a history as in the theorem on memory safety (requests of at most 2^60 bytes, a limit of at most 2^61, regions of less
  than 2^39 bytes), giving a block back that a client holds succeeds, removes exactly that block, and leaves no two
  neighbouring chunks free: memory is coalesced completely.\<close>

theorem bfc_deallocate:
  assumes "bfc_reach s" "(p, sz, q, i) \<in> allocations s"
  shows "\<exists>s'. DeallocateRawInternal p s = Some s' \<and> allocations s' = allocations s - {(p, sz, q, i)} \<and>
    (\<forall>h k. is_free s' h \<and> next_chunk (chunks s' ! h) = Some k \<longrightarrow> \<not> is_free s' k)"
proof -
  have inv: "bfc_inv s" by (rule bfc_reach_inv [OF assms(1)])
  obtain h where h: "user (chunks s) h = Some (p, sz, q, i)" using assms(2) by (auto simp: allocations_user)
  obtain s' where s': "DeallocateRawInternal p s = Some s'" "bfc_inv s'" "user (chunks s') = (user (chunks s))(h := None)"
    by (rule DeallocateRawInternal_inv [OF inv h])
  have "use_ok s" using inv by (simp add: bfc_inv_def)
  from allocations_del [OF this s'(3) h] show ?thesis
    using s'(1,2) neighbour_in_use unfolding bfc_inv_def by blast
qed

text \<open>C4: The search is a best fit: when some free chunk can hold the rounded request, the chunk handed out is the smallest such
  chunk, at the lowest address among those of its size, and it is split exactly when at least the request is left over;
  otherwise the search returns null and changes nothing.\<close>

theorem bfc_best_fit:
  assumes "bfc_reach s" "0 < n" "n \<le> 2 ^ 60" "r = RoundedBytes n"
  shows "(\<forall>k. is_free s k \<longrightarrow> chunk_size (chunks s ! k) < r) \<and> FindChunkPtr (BinNumForSize r) r n s = Some (0, s) \<or>
    (\<exists>h s'. is_free s h \<and> r \<le> chunk_size (chunks s ! h) \<and>
      (\<forall>k. is_free s k \<and> r \<le> chunk_size (chunks s ! k) \<and> k \<noteq> h \<longrightarrow> ChunkComparator (chunks s) h k) \<and>
      FindChunkPtr (BinNumForSize r) r n s = Some (chunk_ptr (chunks s ! h), s') \<and>
      allocations s' = insert (chunk_ptr (chunks s ! h), (if 2 * r \<le> chunk_size (chunks s ! h) then r else chunk_size (chunks s ! h)), n,
        next_allocation_id s) (allocations s))"
proof -
  have inv: "heap_inv s" "use_ok s" using bfc_reach_inv [OF assms(1)] by (simp_all add: bfc_inv_def)
  have id: "next_allocation_id s \<noteq> -1" using inv(2) by (simp add: use_ok_def)
  note rr = RoundedBytes_range [OF assms(2,3), folded assms(4)]
  have r63: "r < 2 ^ 63" using rr(4) by simp
  from FindChunkPtr_spec [OF inv(1) rr(1,2) r63 id, of n] show ?thesis
  proof (elim disjE exE conjE)
    fix h sz s'
    assume f: "is_free s h" "r \<le> chunk_size (chunks s ! h)"
      "\<forall>k. is_free s k \<and> r \<le> chunk_size (chunks s ! k) \<and> k \<noteq> h \<longrightarrow> ChunkComparator (chunks s) h k"
      "sz = (if 2 * r \<le> chunk_size (chunks s ! h) then r else chunk_size (chunks s ! h))"
      "FindChunkPtr (BinNumForSize r) r n s = Some (chunk_ptr (chunks s ! h), s')"
      "user (chunks s') = (user (chunks s))(h \<mapsto> (chunk_ptr (chunks s ! h), sz, n, next_allocation_id s))"
    obtain hss fs where "heap_ok {} [] s hss fs" using inv(1) by (auto simp: heap_inv_def)
    then have "\<not> in_use (chunks s ! h)" using free_iff f(1) by blast
    then have "user (chunks s) h = None" by (simp add: user_def)
    from allocations_upd [OF f(6) this] show ?thesis using f by blast
  qed blast
qed

text \<open>C5: After a history of requests of at most 2^60 bytes, with a limit of at most 2^61 and regions of less than 2^39, allocation never fails a check and always returns, with a block or with null, for every
  request of more than 2048 and at most 2^60 bytes, and for every request of at most 2^60 bytes once the back-off has been
  used. Both bounds are needed: \<open>backpedal_loop_ends_iff\<close> and \<open>Extend_hangs\<close> show requests outside them that never return.\<close>

theorem bfc_returns:
  assumes "bfc_reach s" "sub_alloc_ok Alloc s" "n \<le> 2 ^ 60" "started_backpedal s \<or> 2048 < n"
  shows "AllocateRawInternal Alloc n s \<noteq> None"
  using AllocateRawInternal_returns [OF bfc_reach_inv [OF assms(1)] assms(2-4)] .

text \<open>Why requests are bounded: a size so large that it wraps past the memory limit is doubled for until the size of a region is zero, and
  then for ever.\<close>

lemma grow_loop_zero: "0 < n \<Longrightarrow> grow_loop n 0 inc = None"
proof (rule ccontr)
  assume n: "0 < n" and "grow_loop n 0 inc \<noteq> None"
  then obtain r where r: "grow_loop n 0 inc = Some r" by blast
  let ?P = "\<lambda>n cur inc (r :: nat \<times> bool). \<not> (cur = (0 :: nat) \<and> 0 < (n :: nat))"
  have "?P n 0 inc r"
  proof (rule grow_loop.raw_induct [where P = ?P, OF _ r])
    fix loop n cur inc and r :: "nat \<times> bool"
    assume IH: "\<And>n cur inc r. loop n cur inc = Some r \<Longrightarrow> ?P n cur inc r"
      and step: "(if cur < n then loop n (wrap64 (cur * 2)) True else Some (cur, inc)) = Some r"
    show "?P n cur inc r"
    proof
      assume a: "cur = 0 \<and> 0 < n"
      then have "loop n 0 True = Some r" using step by (simp add: wrap64_def)
      from IH [OF this] a show False by simp
    qed
  qed
  with n show False by simp
qed

lemma grow_loop_hangs:
  assumes "2 ^ 63 < n" "k \<le> 63"
  shows "grow_loop n (2 ^ k) inc = None"
  using assms(2)
proof (induction "63 - k" arbitrary: k inc)
  case 0
  then have "k = 63" by simp
  then show ?case using assms(1) grow_loop_zero [of n True] by (subst grow_loop.simps) (simp add: wrap64_def)
next
  case (Suc m)
  then have k: "k < 63" "m = 63 - Suc k" by simp_all
  then have "(2 :: nat) ^ Suc k \<le> 2 ^ 63" by (intro power_increasing) simp_all
  then have "wrap64 (2 ^ k * 2) = 2 ^ Suc k" "(2 :: nat) ^ k < n" using assms(1) by (simp_all add: wrap64_def)
  then show ?case using Suc.hyps(1) [OF k(2), of True] k(1) by (subst grow_loop.simps) simp
qed

lemma Extend_hangs:
  assumes "curr_region_allocation_bytes s = 2 ^ k" "k \<le> 63" "2 ^ 63 < n" "wrap64 (total_region_allocated_bytes s + n) \<le> memory_limit s"
  shows "Extend Alloc n s = None"
  using grow_loop_hangs [OF assms(3,2), of False] assms(1,4) by (simp add: Extend_def)

lemma backpedal_reaches:
  assumes "n < 2304" "\<And>j b. Alloc j b = 0" "256 dvd bytes" "n < bytes" "bytes < 2 ^ 63"
  shows "backpedal_loop Alloc n i 0 bytes = None"
  using assms(3-5)
proof (induction bytes arbitrary: i rule: less_induct)
  case (less bytes)
  show ?case
  proof (cases "bytes \<le> 2304")
    case True
    then show ?thesis using backpedal_loop_stuck assms(2) less.prems by blast
  next
    case False
    then have big: "2560 \<le> bytes" using less.prems(1) by (auto elim!: dvdE)
    note rb = RoundedBytes_backpedal [OF less.prems(1) _ less.prems(3)]
    have "2048 < backpedal bytes" using backpedal_lower [of bytes] big by simp
    moreover have "backpedal bytes + 255 < 2 ^ 64" using backpedal_bounds(2) [of bytes] less.prems(3) by simp
    ultimately have "2048 < RoundedBytes (backpedal bytes)" using RoundedBytes_eq(2) [of "backpedal bytes"] by simp
    then have "2304 \<le> RoundedBytes (backpedal bytes)" using rb(1) big by (auto elim!: dvdE)
    then have "backpedal_loop Alloc n (i + 1) 0 (RoundedBytes (backpedal bytes)) = None"
      using less.IH rb big assms(1) less.prems(3) by simp
    then show ?thesis using less.prems(2) assms(2) by (subst backpedal_loop.simps) simp
  qed
qed

text \<open>C6: The back-off loop of \<open>Extend\<close>, started on more bytes than requested, ends for every behaviour of the allocator below
  exactly when at least 2304 bytes are requested: below that the rounding to 256 bytes undoes the reduction by a
  tenth, and when the allocator below keeps failing the loop spins for ever, holding the lock.\<close>

theorem backpedal_loop_ends_iff:
  assumes "256 dvd bytes" "n < bytes" "bytes < 2 ^ 63"
  shows "(\<forall>Alloc i mem. backpedal_loop Alloc n i mem bytes \<noteq> None) \<longleftrightarrow> 2304 \<le> n"
proof
  assume all: "\<forall>Alloc i mem. backpedal_loop Alloc n i mem bytes \<noteq> None"
  show "2304 \<le> n"
  proof (rule ccontr)
    assume "\<not> 2304 \<le> n"
    then have "backpedal_loop (\<lambda>_ _. 0) n 0 0 bytes = None" using backpedal_reaches [of n "\<lambda>_ _. 0" bytes 0] assms by simp
    with all show False by blast
  qed
next
  assume "2304 \<le> n"
  then show "\<forall>Alloc i mem. backpedal_loop Alloc n i mem bytes \<noteq> None" using backpedal_loop_ends assms by simp
qed

theorem backpedal_loop_ends_iff_witness:
  "(\<forall>Alloc i mem. backpedal_loop Alloc 256 i mem 3840 \<noteq> None) \<longleftrightarrow> 2304 \<le> (256 :: nat)"
  by (rule backpedal_loop_ends_iff) simp_all

lemma backpedal_shrinks_granted:
  assumes "Alloc i bytes = p" "p \<noteq> 0" "n < bytes"
  shows "backpedal_loop Alloc n i 0 bytes = Some (p, RoundedBytes (backpedal bytes))"
  using assms by (simp add: backpedal_loop.simps [of Alloc n i 0] backpedal_loop.simps [of Alloc n "Suc i" p])

subsection \<open>The constructor and a concrete execution\<close>

lemma BinNumForSize_eqI:
  assumes "256 * 2 ^ b \<le> n" "n < 2 ^ 64" "b = 20 \<or> b < 20 \<and> n < 512 * 2 ^ b"
  shows "BinNumForSize n = b"
proof -
  have "256 \<le> n" using assms(1) one_le_power [of "2 :: nat" b] by linarith
  then obtain l where l: "is_log2 l (n div 256)" "BinNumForSize n = min 20 (nat l)"
    using BinNumForSize_is_log2 assms(2) by blast
  have k: "2 ^ nat l \<le> n div 256" "n div 256 < 2 ^ Suc (nat l)" using l(1) by (simp_all add: is_log2_def nat_add_distrib)
  have d: "2 ^ b \<le> n div 256" using assms(1) by simp
  have "b \<le> nat l" using power_less_imp_less_exp [of "2 :: nat" b "Suc (nat l)"] d k(2) by linarith
  moreover have "nat l \<le> b" if "b < 20"
  proof -
    have "n div 256 < 2 ^ Suc b" using assms(3) that by auto
    then show ?thesis using power_less_imp_less_exp [of "2 :: nat" "nat l" "Suc b"] k(1) by linarith
  qed
  ultimately show ?thesis using l(2) assms(3) by linarith
qed

lemma BinNumForSize_numeral: "n < 256 * 2 ^ 1 \<Longrightarrow> 256 \<le> n \<Longrightarrow> BinNumForSize n = 0"
  by (rule BinNumForSize_eqI) simp_all

lemma BFCAllocator_eq:
  "BFCAllocator total_memory allow_growth = Some \<lparr>memory_limit = total_memory, bins = replicate kNumBins [],
     curr_region_allocation_bytes = (if allow_growth then RoundedBytes (min total_memory 1048576) else RoundedBytes total_memory),
     total_region_allocated_bytes = 0, started_backpedal = False, regions = [], chunks = [], free_chunks_list = None,
     region_visitors = [], visits = [], next_allocation_id = 1,
     stats = \<lparr>num_allocs = 0, bytes_in_use = 0, max_bytes_in_use = 0, max_alloc_size = 0, bytes_limit = int total_memory\<rparr>\<rparr>"
proof -
  have "BinNumForSize (BinNumToSize b) = b \<and> BinNumForSize (wrap64 (BinNumToSize b + 255)) = b \<and>
       BinNumForSize (wrap64 (BinNumToSize b * 2 - 1)) = b \<and>
       (b + 1 < kNumBins \<longrightarrow> BinNumForSize (wrap64 (BinNumToSize b * 2)) \<noteq> b)" if "b < 21" for b
  proof -
    have p: "1 \<le> (2 :: nat) ^ b" "(2 :: nat) ^ b \<le> 2 ^ 20" using power_increasing [of b 20 "2 :: nat"] that by simp_all
    have w: "BinNumToSize b = 256 * 2 ^ b" using p(2) by (simp add: BinNumToSize_def wrap64_def)
    have fits: "BinNumForSize n = b" if "256 * 2 ^ b \<le> n" "n < 512 * 2 ^ b" for n
      by (rule BinNumForSize_eqI) (use that \<open>b < 21\<close> p in auto)
    have "BinNumForSize (512 * 2 ^ b) = Suc b" if "Suc b < 21"
    proof (rule BinNumForSize_eqI)
      show "512 * 2 ^ b < (2 :: nat) ^ 64" using p(2) by simp
      show "Suc b = 20 \<or> Suc b < 20 \<and> 512 * 2 ^ b < (512 :: nat) * 2 ^ Suc b" using that by auto
    qed simp
    moreover have wr: "wrap64 (256 * 2 ^ b + 255) = 256 * 2 ^ b + 255" "wrap64 (512 * 2 ^ b - 1) = 512 * 2 ^ b - 1" "wrap64 (512 * 2 ^ b) = 512 * 2 ^ b"
      using p by (simp_all add: wrap64_def)
    moreover have "BinNumForSize (256 * 2 ^ b + 255) = b" by (rule fits) (use p(1) in linarith)+
    moreover have "BinNumForSize (256 * 2 ^ b) = b" "BinNumForSize (512 * 2 ^ b - 1) = b" by (rule fits; use p(1) in linarith)+
    ultimately show ?thesis using p unfolding w by (simp add: kNumBins_def mult.commute [of _ 2])
  qed
  then show ?thesis unfolding BFCAllocator_def check_def Let_def kNumBins_def by simp
qed

text \<open>A small execution: a limit of 512 bytes and memory below that hands out the addresses from 4096.\<close>

definition ram :: sub_alloc where "ram i b = (if b \<le> 4096 then 4096 else 0)"

definition start_state :: bfc where
  "start_state = \<lparr>memory_limit = 512, bins = [[], [], [], [], [], [], [], [], [], [], [], [], [], [], [], [], [], [], [], [], []], curr_region_allocation_bytes = 512,
     total_region_allocated_bytes = 0, started_backpedal = False, regions = [], chunks = [], free_chunks_list = None,
     region_visitors = [], visits = [], next_allocation_id = 1,
     stats = \<lparr>num_allocs = 0, bytes_in_use = 0, max_bytes_in_use = 0, max_alloc_size = 0, bytes_limit = 512\<rparr>\<rparr>"

definition one_block :: bfc where
  "one_block = \<lparr>memory_limit = 512, bins = [[1], [], [], [], [], [], [], [], [], [], [], [], [], [], [], [], [], [], [], [], []], curr_region_allocation_bytes = 1024,
     total_region_allocated_bytes = 512, started_backpedal = False,
     regions = [\<lparr>region_ptr = 4096, memory_size = 512, end_ptr = 4608, handles = [Some 0, Some 1]\<rparr>],
     chunks = [\<lparr>chunk_size = 256, requested_size = 100, allocation_id = 1, chunk_ptr = 4096, prev_chunk = None, next_chunk = Some 1, bin_num = None\<rparr>,
               \<lparr>chunk_size = 256, requested_size = 0, allocation_id = -1, chunk_ptr = 4352, prev_chunk = Some 0, next_chunk = None, bin_num = Some 0\<rparr>],
     free_chunks_list = None,
     region_visitors = [], visits = [], next_allocation_id = 2,
     stats = \<lparr>num_allocs = 1, bytes_in_use = 256, max_bytes_in_use = 256, max_alloc_size = 256, bytes_limit = 512\<rparr>\<rparr>"

lemma start_reach: "bfc_reach start_state"
proof (rule bfc_init)
  have "replicate 21 [] = [[], [], [], [], [], [], [], [], [], [], [], [], [], [], [], [], [], [], [], [], [] :: nat list]"
    by (simp add: eval_nat_numeral)
  then show "BFCAllocator 512 False = Some start_state"
    by (simp add: BFCAllocator_eq start_state_def RoundedBytes_def wrap64_def kMinAllocationSize_def kNumBins_def)
qed simp_all

lemma replicate_2: "replicate 2 x = [x, x]"
  by (simp add: numeral_2_eq_2)

lemmas bfc_eval = RoundedBytes_def wrap64_def sub64_def kMinAllocationSize_def kMinAllocationBits_def BinNumForSize_numeral check_def
  ChunkFromHandle_def modify_def AllocateChunk_def AllocationRegion_def IndexFor_def to_int32_def rd_def wr_def ChunkComparator_def
  new_Chunk_def in_use_def replicate_2

lemma bin_1: "BinNumForSize 512 = 1"
  by (rule BinNumForSize_eqI) simp_all

definition extended :: bfc where
  "extended = start_state\<lparr>bins := [[], [0], [], [], [], [], [], [], [], [], [], [], [], [], [], [], [], [], [], [], []], curr_region_allocation_bytes := 1024,
     total_region_allocated_bytes := 512,
     regions := [\<lparr>region_ptr = 4096, memory_size = 512, end_ptr = 4608, handles = [Some 0, None]\<rparr>],
     chunks := [\<lparr>chunk_size = 512, requested_size = 0, allocation_id = -1, chunk_ptr = 4096, prev_chunk = None, next_chunk = None, bin_num = Some 1\<rparr>]\<rparr>"

lemma bins_upt: "[0..<kNumBins] = [0,1,2,3,4,5,6,7,8,9,10,11,12,13,14,15,16,17,18,19,20]"
  by (simp add: kNumBins_def upt_conv_Cons)

lemma grown: "grow_loop 256 512 False = Some (512, False)"
  by (subst grow_loop.simps) simp

lemma run_find0: "FindChunkPtr 0 256 100 start_state = Some (0, start_state)"
  by (simp add: FindChunkPtr_def bins_upt start_state_def rd_def)

lemma run_extend: "Extend ram 256 start_state = Some (True, extended)"
  by (simp add: Extend_def extended_def start_state_def grown ram_def bfc_eval Let_def InsertFreeChunkIntoBin_def bin_1)

lemma run_find1: "FindChunkPtr 0 256 100 extended = Some (4096, one_block)"
  apply (simp add: FindChunkPtr_def bins_upt extended_def start_state_def one_block_def bfc_eval RemoveFreeChunkIterFromBin_def SplitChunk_def Let_def
    InsertFreeChunkIntoBin_def)
  done


lemma run_alloc: "AllocateRawInternal ram 100 start_state = Some (4096, one_block)"
proof -
  have "RoundedBytes 100 = 256" "BinNumForSize 256 = 0" by (simp_all add: bfc_eval)
  then show ?thesis using run_find0 run_extend run_find1 by (simp add: AllocateRawInternal_def)
qed

lemma ram_ok: "sub_alloc_ok ram start_state"
  by (simp add: sub_alloc_ok_def ram_def start_state_def)

lemma one_block_reach: "bfc_reach one_block"
  by (rule bfc_alloc [OF start_reach ram_ok _ run_alloc]) simp

lemma one_block_allocations: "allocations one_block = {(4096, 256, 100, 1)}"
  by (simp add: allocations_def one_block_def in_use_def)

lemma one_block_free: "is_free one_block 1" "chunk_size (chunks one_block ! 1) = 256" "chunk_ptr (chunks one_block ! 1) = 4352"
  "is_free one_block k \<Longrightarrow> k = 1"
  by (auto simp: is_free_def one_block_def in_use_def less_Suc_eq)

theorem bfc_memory_safe_witness:
  "bytes_in_use (stats one_block) = (\<Sum>(p, sz, q, i)\<in>allocations one_block. int sz) \<and> allocations one_block = {(4096, 256, 100, 1)}"
  using bfc_memory_safe [OF one_block_reach] one_block_allocations by blast

theorem bfc_allocate_witness:
  "\<exists>sz. allocations one_block = insert (4096, sz, 100, 1) (allocations start_state) \<and> AllocatedSize 4096 one_block = Some sz"
proof -
  have "next_allocation_id start_state = 1" by (simp add: start_state_def)
  then show ?thesis using bfc_allocate [OF start_reach ram_ok _ _ run_alloc] by auto
qed

theorem bfc_deallocate_witness:
  "\<exists>s. DeallocateRawInternal 4096 one_block = Some s \<and> allocations s = {}"
  using bfc_deallocate [OF one_block_reach, of 4096 256 100 1] one_block_allocations by auto

theorem bfc_best_fit_witness:
  "\<exists>s. FindChunkPtr (BinNumForSize 256) 256 100 one_block = Some (4352, s)"
proof -
  have "256 = RoundedBytes 100" by (simp add: bfc_eval)
  moreover have "(0 :: nat) < 100" "(100 :: nat) \<le> 2 ^ 60" by simp_all
  ultimately obtain h s where "is_free one_block h" "FindChunkPtr (BinNumForSize 256) 256 100 one_block = Some (chunk_ptr (chunks one_block ! h), s)"
    using bfc_best_fit [OF one_block_reach, of 100 256] one_block_free(1,2) by (metis order.irrefl)
  then show ?thesis using one_block_free(3,4) by auto
qed

theorem bfc_returns_witness: "AllocateRawInternal ram 4096 start_state \<noteq> None"
  by (rule bfc_returns [OF start_reach ram_ok]) simp_all

lemma huge_extend: "Extend ram 0 start_state = Some (True, extended)"
proof -
  have "grow_loop 0 512 False = Some (512, False)" by (simp add: grow_loop.simps)
  then show ?thesis
    by (simp add: Extend_def extended_def start_state_def ram_def bfc_eval Let_def InsertFreeChunkIntoBin_def bin_1)
qed

text \<open>C7: Requests close to the largest size wrap around when they are rounded up: a request of 2^64 - 1 bytes is rounded to 0 and
  answered with a block of 0 bytes, and the block cannot be given back: the check of \<open>FreeAndMaybeCoalesce\<close> fails.\<close>

theorem bfc_huge_request:
  "RoundedBytes (2 ^ 64 - 1) = 0 \<and>
   (\<exists>s. AllocateRawInternal ram (2 ^ 64 - 1) start_state = Some (4096, s) \<and> allocations s = {(4096, 0, 2 ^ 64 - 1, 1)} \<and>
     DeallocateRawInternal 4096 s = None)"
proof -
  have "RoundedBytes (2 ^ 64 - 1) = 0" by (simp add: bfc_eval)
  moreover have "BinNumForSize 0 = BinNumForSize 256" by (simp add: BinNumForSize_def)
  then have "BinNumForSize 0 = 0" by (simp add: BinNumForSize_numeral)
  moreover have find: "FindChunkPtr 0 0 (2 ^ 64 - 1) start_state = Some (0, start_state)"
    by (simp add: FindChunkPtr_def bins_upt start_state_def rd_def)
  moreover have "\<exists>s. FindChunkPtr 0 0 (2 ^ 64 - 1) extended = Some (4096, s) \<and> allocations s = {(4096, 0, 2 ^ 64 - 1, 1)} \<and>
     DeallocateRawInternal 4096 s = None"
    by (simp add: FindChunkPtr_def bins_upt extended_def start_state_def bfc_eval RemoveFreeChunkIterFromBin_def SplitChunk_def Let_def
      InsertFreeChunkIntoBin_def bin_1 allocations_def DeallocateRawInternal_def FreeAndMaybeCoalesce_def
      del: set_map set_filter)
  ultimately show ?thesis using huge_extend by (simp add: AllocateRawInternal_def)
qed

end
