(* ===== verification/RecordIO.thy ===== *)
theory RecordIO
  imports Crc32c
begin

text \<open>
  Record files (\<open>core/lib/io/record_writer.cc\<close>, \<open>record_reader.cc\<close>) without compression, over the interface of random access files
  (\<open>core/platform/file_system.h\<close>) and the files of a memory-mapped package (\<open>core/util/memmapped_file_system.cc\<close>),
  which provide it. \<open>le\<close> is the byte order of the host, \<open>addr\<close> the address of a buffer.
\<close>

subsection \<open>Random access files\<close>

datatype file_status = FileOK | OutOfRange | IOError

type_synonym file_read = "u64 \<Rightarrow> nat \<Rightarrow> file_status \<times> u8 list"

locale random_access_file =
  fixes Read :: file_read
    and contents :: "u8 list"
  assumes read_all: "0 < n \<Longrightarrow> unat offset + n \<le> length contents \<Longrightarrow> Read offset n = (FileOK, take n (drop (unat offset) contents))"
    and read_short: "length contents < unat offset + n \<Longrightarrow> fst (Read offset n) = OutOfRange"
begin

lemma read_cases:
  assumes "0 < n"
  shows "Read offset n = (FileOK, data) \<longleftrightarrow> unat offset + n \<le> length contents \<and> data = take n (drop (unat offset) contents)"
  using read_all [OF assms, of offset] read_short [of offset n] by (cases "unat offset + n \<le> length contents") auto

end

definition mmap_Read :: "u8 list \<Rightarrow> file_read" where
  "mmap_Read data offset to_read =
    (if unat offset \<ge> length data then (OutOfRange, [])
     else let region_left = min (length data - unat offset) to_read
       in (if region_left = to_read then FileOK else OutOfRange, take region_left (drop (unat offset) data)))"

interpretation mmap: random_access_file "mmap_Read data" data for data
  by unfold_locales (auto simp: mmap_Read_def Let_def min_def)

subsection \<open>Writing\<close>

definition MaskedCrc :: "bool \<Rightarrow> nat \<Rightarrow> u8 list \<Rightarrow> u32" where
  "MaskedCrc le addr data = Mask (crc_Value le addr data)"

text \<open>The file that is written to: \<open>Append\<close> takes its state. An error ends the writing.\<close>

definition WriteRecord :: "bool \<Rightarrow> nat \<Rightarrow> (u8 list \<Rightarrow> 'f \<Rightarrow> file_status \<times> 'f) \<Rightarrow> u8 list \<Rightarrow> 'f \<Rightarrow> file_status \<times> 'f" where
  "WriteRecord le addr Append data f =
    (let header = EncodeFixed64 le (word_of_nat (length data));
         header = header @ EncodeFixed32 le (MaskedCrc le addr header);
         footer = EncodeFixed32 le (MaskedCrc le addr data)
     in case Append header f of
          (FileOK, f) \<Rightarrow> (case Append data f of (FileOK, f) \<Rightarrow> Append footer f | r \<Rightarrow> r)
        | r \<Rightarrow> r)"

subsection \<open>Reading\<close>

datatype read_error = TooLarge | EndOfFile | Truncated u64 | Corrupted u64 | ReadFailed

text \<open>A failed read is passed on: the end of the file as \<open>EndOfFile\<close>, which is the code \<open>OUT_OF_RANGE\<close>.\<close>

definition ReadChecksummed :: "bool \<Rightarrow> nat \<Rightarrow> file_read \<Rightarrow> u64 \<Rightarrow> nat \<Rightarrow> (read_error + u8 list) option" where
  "ReadChecksummed le addr Read offset n =
    (if n \<ge> 2 ^ 64 - 1 - 4 then Some (Inl TooLarge)
     else let expected = n + 4 in
       (case Read offset expected of
          (OutOfRange, data) \<Rightarrow> Some (Inl EndOfFile)
        | (IOError, data) \<Rightarrow> Some (Inl ReadFailed)
        | (FileOK, data) \<Rightarrow>
           if length data \<noteq> expected then Some (Inl (if data = [] then EndOfFile else Truncated offset))
           else do {
             masked_crc \<leftarrow> DecodeFixed32 le (drop n data);
             if Unmask masked_crc \<noteq> crc_Value le addr (take n data) then Some (Inl (Corrupted offset))
             else Some (Inr (take n data)) }))"

definition ReadRecord :: "bool \<Rightarrow> nat \<Rightarrow> file_read \<Rightarrow> u64 \<Rightarrow> (read_error + u64 \<times> u8 list) option" where
  "ReadRecord le addr Read offset = do {
     s \<leftarrow> ReadChecksummed le addr Read offset 8;
     (case s of
        Inl e \<Rightarrow> Some (Inl e)
      | Inr lbuf \<Rightarrow> do {
          len \<leftarrow> DecodeFixed64 le lbuf;
          s \<leftarrow> ReadChecksummed le addr Read (offset + 12) (unat len);
          (case s of
             Inl e \<Rightarrow> Some (Inl (if e = EndOfFile then Truncated offset else e))
           | Inr data \<Rightarrow> Some (Inr (offset + (12 + len + 4), data))) }) }"

subsection \<open>The format\<close>

definition checked :: "u8 list \<Rightarrow> u8 list" where
  "checked bs = bs @ EncodeFixed32 True (Mask (crc32c 0 bs))"

definition record_bytes :: "u8 list \<Rightarrow> u8 list" where
  "record_bytes data = checked (EncodeFixed64 True (word_of_nat (length data))) @ checked data"

lemma Mask_Unmask [simp]: "Mask (Unmask c) = c"
proof -
  have "drop_bit 15 (drop_bit 17 r OR push_bit 15 r) OR push_bit 17 (drop_bit 17 r OR push_bit 15 r) = r" for r :: u32
  proof (rule bit_word_eqI)
    fix n assume "n < LENGTH(32)"
    then show "bit (drop_bit 15 (drop_bit 17 r OR push_bit 15 r) OR push_bit 17 (drop_bit 17 r OR push_bit 15 r)) n = bit r n"
      by (cases "n < 17") (auto simp: bit_simps dest: bit_imp_le_length)
  qed
  then show ?thesis by (simp add: Mask_def Unmask_def Let_def)
qed

lemma Unmask_eq_iff: "Unmask m = c \<longleftrightarrow> m = Mask c"
  by (metis Mask_Unmask Unmask_Mask)

lemma host_bytes_word: "length bs = n \<Longrightarrow> 8 * n = LENGTH('a) \<Longrightarrow> host_bytes n (host_word bs :: 'a::len word) = bs"
proof (rule nth_equalityI)
  fix i assume a: "length bs = n" "8 * n = LENGTH('a)" "i < length (host_bytes n (host_word bs :: 'a word))"
  show "host_bytes n (host_word bs :: 'a word) ! i = bs ! i"
  proof (rule bit_word_eqI)
    fix k assume k: "k < LENGTH(8)"
    then have d: "(8 * i + k) div 8 = i" "(8 * i + k) mod 8 = k" by simp_all
    have "8 * i + k < LENGTH('a)" using a k by simp
    then show "bit (host_bytes n (host_word bs :: 'a word) ! i) k = bit (bs ! i) k"
      using a k d by (auto simp: host_bytes_def bit_simps bit_host_word)
  qed
qed (simp add: host_bytes_def)

lemma DecodeFixed_iff:
  "length p = 4 \<Longrightarrow> DecodeFixed32 le p = Some v \<longleftrightarrow> p = EncodeFixed32 le' v"
  "length q = 8 \<Longrightarrow> DecodeFixed64 le q = Some w \<longleftrightarrow> q = EncodeFixed64 le' w"
  by (auto simp: DecodeFixed_portable EncodeFixed_portable host_word_bytes host_bytes_word)

lemma EncodeFixed_le: "EncodeFixed32 le v = EncodeFixed32 True v" "EncodeFixed64 le w = EncodeFixed64 True w"
  by (simp_all add: EncodeFixed_portable)

lemma length_checked [simp]: "length (checked bs) = length bs + 4"
  by (simp add: checked_def)

definition at_offset :: "u8 list \<Rightarrow> u64 \<Rightarrow> u8 list \<Rightarrow> bool" where
  "at_offset F offset bs \<longleftrightarrow> take (length bs) (drop (unat offset) F) = bs"

lemma at_offset_append:
  "at_offset F offset (a @ b) \<longleftrightarrow> at_offset F offset a \<and> take (length b) (drop (unat offset + length a) F) = b"
proof -
  have iff: "take (length c) xs = c \<longleftrightarrow> (\<exists>r. xs = c @ r)" for c xs :: "u8 list"
    by (metis append_eq_conv_conj append_take_drop_id)
  show ?thesis unfolding at_offset_def iff by (auto simp: add.commute simp flip: drop_drop)
qed

context random_access_file
begin

lemma ReadChecksummed_OK:
  assumes "n < 2 ^ 64 - 5"
  shows "ReadChecksummed le addr Read offset n = Some (Inr data) \<longleftrightarrow> length data = n \<and> at_offset contents offset (checked data)"
proof (cases "unat offset + (n + 4) \<le> length contents")
  case False
  then have "fst (Read offset (n + 4)) = OutOfRange" by (intro read_short) simp
  then show ?thesis using False by (auto simp: ReadChecksummed_def Let_def at_offset_def split: prod.splits dest: arg_cong [where f = length])
next
  case True
  define d where "d = take (n + 4) (drop (unat offset) contents)"
  have len: "length d = n + 4" using True by (simp add: d_def)
  have r: "Read offset (n + 4) = (FileOK, d)" using read_all True by (simp add: d_def)
  obtain m where m: "DecodeFixed32 le (drop n d) = Some m" using len by (simp add: DecodeFixed_portable)
  then have "drop n d = EncodeFixed32 True m" using DecodeFixed_iff(1) [of "drop n d" le m True] len by simp
  then have d: "d = take n d @ EncodeFixed32 True m" by (metis append_take_drop_id)
  have inj: "EncodeFixed32 True v = EncodeFixed32 True w \<Longrightarrow> v = w" for v w
    using fixed_decode(2) [of True True v "[]"] fixed_decode(2) [of True True w "[]"] by simp
  have "ReadChecksummed le addr Read offset n = (if m \<noteq> Mask (crc32c 0 (take n d)) then Some (Inl (Corrupted offset)) else Some (Inr (take n d)))"
    using assms len by (simp add: ReadChecksummed_def r m crc_Value_def crc_Extend_eq Unmask_eq_iff)
  moreover have "at_offset contents offset (checked data) \<and> length data = n \<longleftrightarrow> d = checked data \<and> length data = n"
    by (auto simp: at_offset_def d_def)
  moreover have "d = checked data \<longleftrightarrow> m = Mask (crc32c 0 data) \<and> take n d = data" if "length data = n"
    using d inj that len by (auto simp: checked_def)
  moreover have "length (take n d) = n" using len by simp
  ultimately show ?thesis by (auto simp del: length_take split: if_splits)
qed

lemma at_offset_12:
  assumes "length contents < 2 ^ 64" "at_offset contents offset bs" "length bs = 12"
  shows "unat (offset + 12) = unat offset + 12"
proof -
  have "length (take 12 (drop (unat offset) contents)) = 12" using assms(2,3) by (simp add: at_offset_def)
  then have "unat offset + 12 < 2 ^ 64" using assms(1) by simp
  then show ?thesis by (subst unat_add_lem [THEN iffD1]) simp_all
qed

lemma ReadRecord_exact:
  assumes F: "length contents < 2 ^ 64"
  shows "ReadRecord le addr Read offset = Some (Inr (offset', data)) \<longleftrightarrow>
    length data < 2 ^ 64 - 5 \<and> at_offset contents offset (record_bytes data) \<and> offset' = offset + word_of_nat (length data + 16)"
    (is "?run \<longleftrightarrow> ?enc")
proof -
  let ?len = "EncodeFixed64 True (word_of_nat (length data))"
  have first: "ReadChecksummed le addr Read offset 8 = Some (Inr b) \<longleftrightarrow> length b = 8 \<and> at_offset contents offset (checked b)" for b
    by (rule ReadChecksummed_OK) simp
  have nxt: "at_offset contents offset (record_bytes data) \<longleftrightarrow>
      at_offset contents offset (checked ?len) \<and> at_offset contents (offset + 12) (checked data)"
  proof (cases "at_offset contents offset (checked ?len)")
    case True
    then show ?thesis using at_offset_12 [OF F True] by (simp add: record_bytes_def at_offset_append) (simp add: at_offset_def)
  qed (simp add: record_bytes_def at_offset_append)
  have "12 + w + 4 = word_of_nat (unat w + 16)" for w :: u64 by simp
  show ?thesis
  proof
    assume ?run
    then obtain b w where b: "ReadChecksummed le addr Read offset 8 = Some (Inr b)" "DecodeFixed64 le b = Some w"
      "ReadChecksummed le addr Read (offset + 12) (unat w) = Some (Inr data)" "offset' = offset + (12 + w + 4)"
      by (auto simp: ReadRecord_def split: sum.splits bind_splits)
    have "b = EncodeFixed64 True w" using b(1,2) first DecodeFixed_iff(2) [of b le w True] by simp
    moreover have "unat w < 2 ^ 64 - 5"
      using b(3) by (auto simp: ReadChecksummed_def split: if_splits)
    moreover from this have "length data = unat w" "at_offset contents (offset + 12) (checked data)"
      using b(3) ReadChecksummed_OK by simp_all
    moreover from this have "?len = b" using \<open>b = EncodeFixed64 True w\<close> by simp
    moreover have "offset' = offset + word_of_nat (unat w + 16)" using b(4) by simp
    ultimately show ?enc using b(1) first nxt by metis
  next
    assume e: ?enc
    then have "ReadChecksummed le addr Read offset 8 = Some (Inr ?len)" using first nxt by simp
    moreover have u: "unat (word_of_nat (length data) :: u64) = length data" using e by (simp add: unsigned_of_nat take_bit_nat_eq_self)
    moreover have "ReadChecksummed le addr Read (offset + 12) (length data) = Some (Inr data)"
      using e nxt ReadChecksummed_OK by simp
    moreover have "DecodeFixed64 le ?len = Some (word_of_nat (length data))" using fixed_decode(3) [of le True _ "[]"] by simp
    ultimately show ?run using e by (simp add: ReadRecord_def)
  qed
qed

lemma ReadRecord_eof:
  assumes "length contents < 2 ^ 64" "unat offset = length contents"
  shows "ReadRecord le addr Read offset = Some (Inl EndOfFile)"
proof -
  have "fst (Read offset 12) = OutOfRange" by (rule read_short) (simp add: assms(2))
  then show ?thesis by (auto simp: ReadRecord_def ReadChecksummed_def split: prod.splits)
qed

end

subsection \<open>Properties\<close>

text \<open>Files that accept every piece, and writing a list of records to one.\<close>

definition accepts :: "('f \<Rightarrow> u8 list) \<Rightarrow> (u8 list \<Rightarrow> 'f \<Rightarrow> file_status \<times> 'f) \<Rightarrow> bool" where
  "accepts bytes_of Append \<longleftrightarrow> (\<forall>d f. fst (Append d f) = FileOK \<and> bytes_of (snd (Append d f)) = bytes_of f @ d)"

definition write_records :: "bool \<Rightarrow> nat \<Rightarrow> (u8 list \<Rightarrow> 'f \<Rightarrow> file_status \<times> 'f) \<Rightarrow> u8 list list \<Rightarrow> 'f \<Rightarrow> 'f" where
  "write_records le addr Append ds f = foldl (\<lambda>f d. snd (WriteRecord le addr Append d f)) f ds"

lemma WriteRecord_bytes:
  assumes "accepts bytes_of Append"
  shows "fst (WriteRecord le addr Append d f) = FileOK" "bytes_of (snd (WriteRecord le addr Append d f)) = bytes_of f @ record_bytes d"
proof -
  have a: "fst (Append d f) = FileOK" "bytes_of (snd (Append d f)) = bytes_of f @ d" for d f using assms by (auto simp: accepts_def)
  have h: "EncodeFixed64 le w = EncodeFixed64 True w" "EncodeFixed32 le v = EncodeFixed32 True v" for v w by (simp_all add: EncodeFixed_portable)
  have "fst (WriteRecord le addr Append d f) = FileOK \<and> bytes_of (snd (WriteRecord le addr Append d f)) = bytes_of f @ record_bytes d"
    unfolding WriteRecord_def Let_def h record_bytes_def checked_def MaskedCrc_def crc_Value_def crc_Extend_eq
    using a by (auto split: prod.splits file_status.splits) (metis a fst_conv snd_conv append.assoc file_status.distinct)+
  then show "fst (WriteRecord le addr Append d f) = FileOK" "bytes_of (snd (WriteRecord le addr Append d f)) = bytes_of f @ record_bytes d"
    by simp_all
qed

lemma write_records_bytes: "accepts bytes_of Append \<Longrightarrow> bytes_of (write_records le addr Append ds f) = bytes_of f @ concat (map record_bytes ds)"
  unfolding write_records_def by (induction ds arbitrary: f) (simp_all add: WriteRecord_bytes)

lemma length_record_bytes: "length (record_bytes d) = length d + 16"
  by (simp add: record_bytes_def)

text \<open>C13: Reading a record is exact: it succeeds with some data if and only if the bytes of the file at the offset are the record
  that \<open>WriteRecord\<close> writes for these data, with both checksums; it then advances the offset behind the record. So no
  truncated or altered record is ever accepted unless it is itself a well-formed record.\<close>

theorem record_read_exact:
  assumes "random_access_file Read F" "length F < 2 ^ 64"
  shows "ReadRecord le addr Read offset = Some (Inr (offset', data)) \<longleftrightarrow>
    length data < 2 ^ 64 - 5 \<and> at_offset F offset (record_bytes data) \<and> offset' = offset + word_of_nat (length data + 16)"
  by (rule random_access_file.ReadRecord_exact [OF assms])

text \<open>C14: What is written is read back: from a file to which a list of records has been written, successive reads return exactly these
  records, and then the end of the file.\<close>

theorem records_roundtrip:
  assumes "accepts bytes_of Append" "F = bytes_of (write_records le addr Append ds f)" "bytes_of f = []" "length F < 2 ^ 64 - 5"
    and "random_access_file Read F" "offset = (\<lambda>i. word_of_nat (length (concat (map record_bytes (take i ds)))))"
  shows "(\<forall>i<length ds. ReadRecord le' addr' Read (offset i) = Some (Inr (offset (Suc i), ds ! i))) \<and>
    ReadRecord le' addr' Read (offset (length ds)) = Some (Inl EndOfFile)"
proof -
  let ?bytes = "\<lambda>i. concat (map record_bytes (take i ds))"
  have F: "F = concat (map record_bytes ds)" using assms(2,3) write_records_bytes [OF assms(1)] by simp
  have F64: "length F < 2 ^ 64" using assms(4) by simp
  have prefix: "F = ?bytes i @ concat (map record_bytes (drop i ds))" for i
    unfolding F by (metis append_take_drop_id concat_append map_append)
  then have "length (?bytes i) \<le> length F" for i by (metis le_add1 length_append)
  then have "length (?bytes i) < 2 ^ 64" for i using F64 by (meson le_less_trans)
  then have u: "unat (offset i) = length (?bytes i)" for i
    by (simp add: assms(6) unsigned_of_nat take_bit_nat_eq_self)
  have "ReadRecord le' addr' Read (offset i) = Some (Inr (offset (Suc i), ds ! i))" if i: "i < length ds" for i
  proof -
    have F': "F = ?bytes i @ record_bytes (ds ! i) @ concat (map record_bytes (drop (Suc i) ds))"
      using prefix [of i] i by (simp add: Cons_nth_drop_Suc [symmetric])
    then have "at_offset F (offset i) (record_bytes (ds ! i))" unfolding at_offset_def u by (metis append_eq_conv_conj)
    moreover have "length (ds ! i) < 2 ^ 64 - 5" using arg_cong [OF F', of length] assms(4) by (simp add: length_record_bytes)
    moreover have "offset (Suc i) = offset i + word_of_nat (length (ds ! i) + 16)"
      using i by (simp add: assms(6) take_Suc_conv_app_nth length_record_bytes)
    ultimately show ?thesis using random_access_file.ReadRecord_exact [OF assms(5) F64] by simp
  qed
  moreover have "ReadRecord le' addr' Read (offset (length ds)) = Some (Inl EndOfFile)"
    by (rule random_access_file.ReadRecord_eof [OF assms(5) F64]) (simp add: u F)
  ultimately show ?thesis by blast
qed

text \<open>A file as the list of its bytes, which accepts everything.\<close>

definition mem_Append :: "u8 list \<Rightarrow> u8 list \<Rightarrow> file_status \<times> u8 list" where
  "mem_Append d f = (FileOK, f @ d)"

lemma mem_accepts: "accepts (\<lambda>f. f) mem_Append"
  by (simp add: accepts_def mem_Append_def)

theorem records_roundtrip_witness:
  "ReadRecord True 0 (mmap_Read (write_records True 0 mem_Append [[], [7]] [])) 16 = Some (Inr (33, [7]))"
proof -
  have "length (write_records True 0 mem_Append [[], [7]] []) = 33"
    using write_records_bytes [OF mem_accepts, of True 0 "[[], [7]]" "[]"] by (simp add: length_record_bytes)
  then show ?thesis
    using records_roundtrip [OF mem_accepts refl refl _ mmap.random_access_file_axioms refl, of True 0 "[[], [7]]" True 0]
    by (auto simp: length_record_bytes dest!: spec [of _ "1"])
qed

theorem record_read_exact_witness:
  "ReadRecord True 0 (mmap_Read (record_bytes [])) 0 = Some (Inr (16, []))"
  using record_read_exact [OF mmap.random_access_file_axioms, of "record_bytes []" True 0 0 16 "[]"]
  by (simp add: at_offset_def length_record_bytes)

text \<open>C37: A file that ends inside the header of a record, after 1 to 11 of its bytes, is reported like a file that ends properly: the
  status for a truncated record is only returned when the cut is behind a valid header.\<close>

theorem record_truncated:
  assumes "random_access_file Read (before @ take k (record_bytes data))" "length before + length data + 16 < 2 ^ 64"
    and "k < length data + 16" "offset = word_of_nat (length before)"
  shows "ReadRecord le addr Read offset = Some (Inl (if k < 12 then EndOfFile else Truncated offset))"
proof -
  let ?F = "before @ take k (record_bytes data)"
  let ?len = "EncodeFixed64 True (word_of_nat (length data))"
  have u: "unat offset = length before" "unat (word_of_nat (length data) :: u64) = length data"
    using assms(2) by (simp_all add: assms(4) unsigned_of_nat take_bit_nat_eq_self)
  have F: "length ?F = length before + k" using assms(3) by (simp add: length_record_bytes)
  show ?thesis
  proof (cases "k < 12")
    case True
    then have "fst (Read offset 12) = OutOfRange" by (intro random_access_file.read_short [OF assms(1)]) (simp add: F u)
    then show ?thesis using True by (auto simp: ReadRecord_def ReadChecksummed_def split: prod.splits)
  next
    case False
    then have "take 12 (take k (record_bytes data)) = checked ?len" by (simp add: record_bytes_def)
    then have header: "at_offset ?F offset (checked ?len)" by (simp add: at_offset_def u)
    then have "ReadChecksummed le addr Read offset 8 = Some (Inr ?len)"
      using random_access_file.ReadChecksummed_OK [OF assms(1), of 8] by simp
    moreover have "DecodeFixed64 le ?len = Some (word_of_nat (length data))" using fixed_decode(3) [of le True _ "[]"] by simp
    moreover have "fst (Read (offset + 12) (length data + 4)) = OutOfRange"
      using random_access_file.at_offset_12 [OF assms(1) _ header] F u assms(2,3)
      by (intro random_access_file.read_short [OF assms(1)]) simp
    then have "ReadChecksummed le addr Read (offset + 12) (length data) = Some (Inl EndOfFile)"
      using assms(2) by (auto simp: ReadChecksummed_def Let_def split: prod.splits)
    ultimately show ?thesis using False u by (simp add: ReadRecord_def)
  qed
qed

theorem record_truncated_witness:
  "ReadRecord True 0 (mmap_Read ([] @ take 11 (record_bytes []))) 0 = Some (Inl EndOfFile)"
  using record_truncated [OF mmap.random_access_file_axioms, of "[]" "[]" 11 0 True 0] by simp

end
