(* ===== verification/KeyOrder.thy ===== *)
theory KeyOrder
  imports C_Prelude "HOL-Library.List_Lexorder"
begin

text \<open>
  What an ordered encoding promises (\<open>core/lib/strings/ordered_code.h\<close>): the bytes written for
  a value can be read back in front of any other bytes, and their lexicographic order
  is the order of the values. From these two laws the locale derives that no encoding
  is a prefix of another, and that a key made of several encodings is ordered component by
  component. The encoders of \<open>OrderedCode\<close> are its interpretations.
\<close>

subsection \<open>Byte strings that differ before either ends\<close>

definition diverge :: "u8 list \<Rightarrow> u8 list \<Rightarrow> bool" where
  "diverge xs ys \<longleftrightarrow> (\<exists>p a b us vs. xs = p @ a # us \<and> ys = p @ b # vs \<and> a < b)"

lemma divergeI: "a < b \<Longrightarrow> diverge (p @ a # us) (p @ b # vs)"
  by (auto simp: diverge_def)

lemma diverge_Cons [simp]: "diverge (a # xs) (b # ys) \<longleftrightarrow> a < b \<or> a = b \<and> diverge xs ys"
proof
  assume "diverge (a # xs) (b # ys)"
  then obtain p c d us vs where *: "a # xs = p @ c # us" "b # ys = p @ d # vs" "c < d"
    by (auto simp: diverge_def)
  then show "a < b \<or> a = b \<and> diverge xs ys" by (cases p) (auto simp: divergeI)
next
  assume "a < b \<or> a = b \<and> diverge xs ys"
  then show "diverge (a # xs) (b # ys)"
  proof
    assume "a < b" then show ?thesis using divergeI [of a b "[]"] by simp
  next
    assume "a = b \<and> diverge xs ys"
    then show ?thesis unfolding diverge_def by (metis append_Cons)
  qed
qed

lemma diverge_Nil [simp]: "\<not> diverge [] ys" "\<not> diverge xs []"
  by (auto simp: diverge_def)

lemma diverge_append: "diverge xs ys \<Longrightarrow> diverge (xs @ us) (ys @ vs)"
  unfolding diverge_def by (metis append.assoc append_Cons)

lemma diverge_prefix [simp]: "diverge (zs @ xs) (zs @ ys) \<longleftrightarrow> diverge xs ys"
  by (induction zs) auto

lemma diverge_less: "diverge xs ys \<Longrightarrow> xs < ys"
  by (induction xs arbitrary: ys; case_tac ys) auto

lemma less_diverge: "xs < ys \<Longrightarrow> diverge xs ys \<or> (\<exists>t. ys = xs @ t)"
  by (induction xs arbitrary: ys; case_tac ys) auto

lemma diverge_same_length: "length xs = length ys \<Longrightarrow> diverge xs ys \<longleftrightarrow> xs < ys"
  by (induction xs ys rule: list_induct2) auto

lemma append_less_prefix: "xs @ us < ys @ vs \<Longrightarrow> xs < ys \<or> (\<exists>t. xs = ys @ t)"
  by (induction xs arbitrary: ys; case_tac ys) auto

lemma diverge_NOT: "diverge xs ys \<Longrightarrow> diverge (map NOT ys) (map NOT xs)"
proof (induction xs arbitrary: ys)
  case (Cons x xs)
  have "NOT a < NOT b" if "b < a" for a b :: u8
    using that by transfer (simp add: take_bit_not_eq_mask_diff)
  then show ?case using Cons by (cases ys) auto
qed simp

lemma append_less_same: "p @ r < p @ s \<longleftrightarrow> r < s" for r :: "u8 list"
  by (induction p) auto

subsection \<open>The interface\<close>

locale ordered_encoding =
  fixes enc :: "'a \<Rightarrow> u8 list"
    and dec :: "u8 list \<Rightarrow> (u8 list \<times> 'a) option"
    and less :: "'a \<Rightarrow> 'a \<Rightarrow> bool"
  assumes dec_enc: "dec (enc v @ rest) = Some (rest, v)"
    and enc_mono: "less v w \<Longrightarrow> enc v < enc w"
    and less_total: "v \<noteq> w \<Longrightarrow> less v w \<or> less w v"
begin

lemma enc_append_eq: "enc v @ r = enc w @ s \<longleftrightarrow> v = w \<and> r = s"
  by (metis dec_enc option.inject prod.inject)

lemma enc_inj: "enc v = enc w \<longleftrightarrow> v = w"
  using enc_append_eq [of v "[]" w "[]"] by simp

lemma not_prefix: "enc v = enc w @ t \<Longrightarrow> v = w \<and> t = []"
  using enc_append_eq [of v "[]" w t] by simp

lemma less_irrefl: "\<not> less v v"
  using enc_mono by blast

lemma enc_diverge: "less v w \<Longrightarrow> diverge (enc v) (enc w)"
  using less_diverge [OF enc_mono] not_prefix less_irrefl by metis

lemma enc_less_iff: "enc v @ r < enc w @ s \<longleftrightarrow> less v w \<or> v = w \<and> r < s"
proof (cases "v = w")
  case True
  have "enc v @ r < enc v @ s \<longleftrightarrow> r < s" by (rule append_less_same)
  then show ?thesis using True less_irrefl by auto
next
  case False
  then consider "less v w" | "less w v" using less_total by auto
  then show ?thesis
  proof cases
    case 1
    then show ?thesis using diverge_less [OF diverge_append [OF enc_diverge]] by auto
  next
    case 2
    then have "enc w @ s < enc v @ r" by (intro diverge_less diverge_append enc_diverge)
    then have "\<not> enc v @ r < enc w @ s" by simp
    moreover have "\<not> less v w" using 2 enc_mono [of v w] enc_mono [of w v] by auto
    ultimately show ?thesis using False by simp
  qed
qed

primrec dec_list :: "nat \<Rightarrow> u8 list \<Rightarrow> (u8 list \<times> 'a list) option" where
  "dec_list 0 bs = Some (bs, [])"
| "dec_list (Suc n) bs =
     (case dec bs of None \<Rightarrow> None
      | Some (bs, v) \<Rightarrow> map_option (map_prod id ((#) v)) (dec_list n bs))"

lemma dec_list_enc: "dec_list (length vs) (concat (map enc vs) @ rest) = Some (rest, vs)"
  by (induction vs) (auto simp: dec_enc)

lemma enc_list_less:
  "length vs = length ws \<Longrightarrow>
    concat (map enc vs) @ r < concat (map enc ws) @ s \<longleftrightarrow>
      (vs, ws) \<in> lexord {(v, w). less v w} \<or> vs = ws \<and> r < s"
  by (induction vs ws rule: list_induct2) (auto simp: enc_less_iff)

end

end
