(* ===== verification/Blocks.thy ===== *)
theory Blocks
  imports RecordIO KeyOrder
begin

text \<open>
  The blocks of a table file (\<open>core/lib/io/block_builder.{h,cc}\<close>, \<open>block.{h,cc}\<close>, \<open>iterator.{h,cc}\<close>): keys are stored without the prefix they
  share with the key before, except at restart points, whose offsets follow the entries. \<open>le\<close> is the byte order of the host. Offsets into
  a block have 32 bits. An access outside the block and a loop that does not end are \<open>None\<close>; \<open>assert\<close>s are compiled out.
\<close>

subsection \<open>Comparing\<close>

fun memcmp :: "u8 list \<Rightarrow> u8 list \<Rightarrow> int" where
  "memcmp (x # xs) (y # ys) = (if x = y then memcmp xs ys else if x < y then -1 else 1)"
| "memcmp xs ys = 0"

definition compare :: "u8 list \<Rightarrow> u8 list \<Rightarrow> int" where
  "compare a b =
    (let min_len = (if length a < length b then length a else length b);
         r = memcmp (take min_len a) (take min_len b)
     in if r = 0 then (if length a < length b then -1 else if length b < length a then 1 else r) else r)"

lemma compare_simps:
  "compare [] [] = 0" "compare [] (b # bs) = -1" "compare (a # as) [] = 1"
  "compare (a # as) (b # bs) = (if a = b then compare as bs else if a < b then -1 else 1)"
  by (auto simp: compare_def Let_def)

lemma compare_sign: "compare a b = 0 \<longleftrightarrow> a = b" "compare a b < 0 \<longleftrightarrow> a < b" "0 \<le> compare a b \<longleftrightarrow> \<not> a < b"
proof -
  have "(compare a b = 0 \<longleftrightarrow> a = b) \<and> (compare a b < 0 \<longleftrightarrow> a < b)"
  proof (induction a arbitrary: b)
    case Nil
    show ?case by (cases b) (simp_all add: compare_simps)
  next
    case (Cons x a)
    then show ?case by (cases b) (auto simp: compare_simps)
  qed
  then show "compare a b = 0 \<longleftrightarrow> a = b" "compare a b < 0 \<longleftrightarrow> a < b" "0 \<le> compare a b \<longleftrightarrow> \<not> a < b" by auto
qed

subsection \<open>Building a block\<close>

record builder =
  buffer :: "u8 list"
  restarts :: "u32 list"
  counter :: int
  finished :: bool
  last_key :: "u8 list"

definition BlockBuilder :: builder where
  "BlockBuilder = \<lparr>buffer = [], restarts = [0], counter = 0, finished = False, last_key = []\<rparr>"

definition Reset :: "builder \<Rightarrow> builder" where
  "Reset b = b\<lparr>buffer := [], restarts := [0], counter := 0, finished := False, last_key := []\<rparr>"

definition CurrentSizeEstimate :: "builder \<Rightarrow> nat" where
  "CurrentSizeEstimate b = length (buffer b) + length (restarts b) * 4 + 4"

definition Finish :: "bool \<Rightarrow> builder \<Rightarrow> u8 list \<times> builder" where
  "Finish le b =
    (let buf = foldl (PutFixed32 le) (buffer b) (restarts b);
         buf = PutFixed32 le buf (word_of_nat (length (restarts b)))
     in (buf, b\<lparr>buffer := buf, finished := True\<rparr>))"

fun shared_loop :: "nat \<Rightarrow> u8 list \<Rightarrow> u8 list \<Rightarrow> nat" where
  "shared_loop (Suc min_length) (a # as) (b # bs) = (if a = b then Suc (shared_loop min_length as bs) else 0)"
| "shared_loop _ _ _ = 0"

definition Add :: "int \<Rightarrow> u8 list \<Rightarrow> u8 list \<Rightarrow> builder \<Rightarrow> builder" where
  "Add block_restart_interval key value b =
    (let (shared, b) =
           (if counter b < block_restart_interval
            then (shared_loop (min (length (last_key b)) (length key)) (last_key b) key, b)
            else (0, b\<lparr>restarts := restarts b @ [word_of_nat (length (buffer b))], counter := 0\<rparr>));
         non_shared = length key - shared;
         buf = PutVarint32 (buffer b) (word_of_nat shared);
         buf = PutVarint32 buf (word_of_nat non_shared);
         buf = PutVarint32 buf (word_of_nat (length value));
         buf = buf @ take non_shared (drop shared key);
         buf = buf @ value
     in b\<lparr>buffer := buf, last_key := take shared (last_key b) @ take non_shared (drop shared key), counter := counter b + 1\<rparr>)"

subsection \<open>Reading a block\<close>

datatype io_status = OK | DataLoss string | FileError file_status

record block =
  block_data :: "u8 list"
  block_size :: nat
  restart_offset :: u32

definition NumRestarts :: "bool \<Rightarrow> block \<Rightarrow> u32 option" where
  "NumRestarts le b = DecodeFixed32 le (drop (block_size b - 4) (block_data b))"

definition Block :: "bool \<Rightarrow> u8 list \<Rightarrow> block option" where
  "Block le contents =
    (let b = \<lparr>block_data = contents, block_size = length contents, restart_offset = 0 :: u32\<rparr> in
     if block_size b < 4 then Some (b\<lparr>block_size := 0\<rparr>)
     else do {
       num \<leftarrow> NumRestarts le b;
       let max_restarts_allowed = (block_size b - 4) div 4;
       if unat num > max_restarts_allowed then Some (b\<lparr>block_size := 0\<rparr>)
       else Some (b\<lparr>restart_offset := word_of_nat (block_size b - unat (1 + num) * 4)\<rparr>) })"

text \<open>The three numbers of the entry at \<open>p\<close> and the position of its key; \<open>None\<close> is the null pointer.\<close>

definition DecodeEntry :: "u8 list \<Rightarrow> nat \<Rightarrow> nat \<Rightarrow> (u32 \<times> u32 \<times> u32 \<times> nat) option" where
  "DecodeEntry data p limit =
    (if int limit - int p < 3 then None
     else do {
       let bs = take (limit - p) (drop p data);
       let shared = ucast (bs ! 0);
       let non_shared = ucast (bs ! 1);
       let value_length = ucast (bs ! 2);
       (shared, non_shared, value_length, p) \<leftarrow>
         (if shared OR non_shared OR value_length < 128 then Some (shared, non_shared, value_length, p + 3)
          else do {
            (shared, q) \<leftarrow> GetVarint32Ptr bs;
            (non_shared, q) \<leftarrow> GetVarint32Ptr q;
            (value_length, q) \<leftarrow> GetVarint32Ptr q;
            Some (shared, non_shared, value_length, limit - length q) });
       if (word_of_nat (limit - p) :: u32) < non_shared + value_length then None
       else Some (shared, non_shared, value_length, p) })"

text \<open>The position and the length of \<open>value_\<close>; \<open>None\<close> is the empty string piece, which has no position.\<close>

record iter =
  iter_data :: "u8 list"
  iter_restarts :: u32
  num_restarts :: u32
  current :: u32
  restart_index :: u32
  iter_key :: "u8 list"
  iter_value :: "(nat \<times> nat) option"
  iter_status :: io_status

definition Iter :: "u8 list \<Rightarrow> u32 \<Rightarrow> u32 \<Rightarrow> iter" where
  "Iter data offset num = \<lparr>iter_data = data, iter_restarts = offset, num_restarts = num, current = offset,
     restart_index = num, iter_key = [], iter_value = None, iter_status = OK\<rparr>"

definition iter_Valid :: "iter \<Rightarrow> bool" where
  "iter_Valid it \<longleftrightarrow> current it < iter_restarts it"

definition NextEntryOffset :: "iter \<Rightarrow> u32 option" where
  "NextEntryOffset it = map_option (\<lambda>(v, n). word_of_nat (v + n)) (iter_value it)"

definition GetRestartPoint :: "bool \<Rightarrow> iter \<Rightarrow> u32 \<Rightarrow> u32 option" where
  "GetRestartPoint le it index = DecodeFixed32 le (drop (unat (iter_restarts it) + unat index * 4) (iter_data it))"

definition SeekToRestartPoint :: "bool \<Rightarrow> u32 \<Rightarrow> iter \<Rightarrow> iter option" where
  "SeekToRestartPoint le index it = do {
     offset \<leftarrow> GetRestartPoint le it index;
     Some (it\<lparr>iter_key := [], restart_index := index, iter_value := Some (unat offset, 0)\<rparr>) }"

definition CorruptionError :: "iter \<Rightarrow> iter" where
  "CorruptionError it = it\<lparr>current := iter_restarts it, restart_index := num_restarts it,
     iter_status := DataLoss ''bad entry in block'', iter_key := [], iter_value := None\<rparr>"

partial_function (option) restart_loop :: "bool \<Rightarrow> iter \<Rightarrow> u32 \<Rightarrow> u32 option" where
  "restart_loop le it index =
    (if index + 1 < num_restarts it then do {
       point \<leftarrow> GetRestartPoint le it (index + 1);
       if point < current it then restart_loop le it (index + 1) else Some index }
     else Some index)"

definition ParseNextKey :: "bool \<Rightarrow> iter \<Rightarrow> (bool \<times> iter) option" where
  "ParseNextKey le it = do {
     cur \<leftarrow> NextEntryOffset it;
     let it = it\<lparr>current := cur\<rparr>;
     let p = unat cur;
     let limit = unat (iter_restarts it);
     if p \<ge> limit then Some (False, it\<lparr>current := iter_restarts it, restart_index := num_restarts it\<rparr>)
     else
       (case DecodeEntry (iter_data it) p limit of
          None \<Rightarrow> Some (False, CorruptionError it)
        | Some (shared, non_shared, value_length, p) \<Rightarrow>
            if length (iter_key it) < unat shared then Some (False, CorruptionError it)
            else if p + unat non_shared > length (iter_data it) then None
            else do {
              let it = it\<lparr>iter_key := take (unat shared) (iter_key it) @ take (unat non_shared) (drop p (iter_data it)),
                          iter_value := Some (p + unat non_shared, unat value_length)\<rparr>;
              index \<leftarrow> restart_loop le it (restart_index it);
              Some (True, it\<lparr>restart_index := index\<rparr>) }) }"

definition iter_Next :: "bool \<Rightarrow> iter \<Rightarrow> iter option" where
  "iter_Next le it = map_option snd (ParseNextKey le it)"

text \<open>The binary search: the restart point found, or an error.\<close>

partial_function (option) seek_loop :: "bool \<Rightarrow> iter \<Rightarrow> u8 list \<Rightarrow> u32 \<Rightarrow> u32 \<Rightarrow> u32 option option" where
  "seek_loop le it target left right =
    (if left < right then do {
       let mid = (left + right + 1) div 2;
       region_offset \<leftarrow> GetRestartPoint le it mid;
       (case DecodeEntry (iter_data it) (unat region_offset) (unat (iter_restarts it)) of
          None \<Rightarrow> Some None
        | Some (shared, non_shared, value_length, key_ptr) \<Rightarrow>
            if shared \<noteq> 0 then Some None
            else if key_ptr + unat non_shared > length (iter_data it) then None
            else let mid_key = take (unat non_shared) (drop key_ptr (iter_data it)) in
              if compare mid_key target < 0 then seek_loop le it target mid right
              else seek_loop le it target left (mid - 1)) }
     else Some (Some left))"

partial_function (option) linear_loop :: "bool \<Rightarrow> u8 list \<Rightarrow> iter \<Rightarrow> iter option" where
  "linear_loop le target it = do {
     (ok, it) \<leftarrow> ParseNextKey le it;
     if \<not> ok then Some it
     else if compare (iter_key it) target \<ge> 0 then Some it
     else linear_loop le target it }"

definition iter_Seek :: "bool \<Rightarrow> u8 list \<Rightarrow> iter \<Rightarrow> iter option" where
  "iter_Seek le target it = do {
     found \<leftarrow> seek_loop le it target 0 (num_restarts it - 1);
     (case found of
        None \<Rightarrow> Some (CorruptionError it)
      | Some left \<Rightarrow> do {
          it \<leftarrow> SeekToRestartPoint le left it;
          linear_loop le target it }) }"

definition iter_SeekToFirst :: "bool \<Rightarrow> iter \<Rightarrow> iter option" where
  "iter_SeekToFirst le it = do {
     it \<leftarrow> SeekToRestartPoint le 0 it;
     map_option snd (ParseNextKey le it) }"

text \<open>The iterators over a block: those of \<open>Block::Iter\<close>, and the empty ones with a status.\<close>

datatype iterator = EmptyIterator io_status | BlockIter iter

definition NewIterator :: "bool \<Rightarrow> block \<Rightarrow> iterator option" where
  "NewIterator le b =
    (if block_size b < 4 then Some (EmptyIterator (DataLoss ''bad block contents''))
     else do {
       num \<leftarrow> NumRestarts le b;
       if num = 0 then Some (EmptyIterator OK) else Some (BlockIter (Iter (block_data b) (restart_offset b) num)) })"

fun Valid :: "iterator \<Rightarrow> bool" where
  "Valid (EmptyIterator s) = False"
| "Valid (BlockIter it) = iter_Valid it"

fun iterator_status :: "iterator \<Rightarrow> io_status" where
  "iterator_status (EmptyIterator s) = s"
| "iterator_status (BlockIter it) = iter_status it"

text \<open>The virtual functions; a key, a value or a step of an invalid iterator is undefined.\<close>

fun it_key :: "iterator \<Rightarrow> u8 list option" where
  "it_key (EmptyIterator s) = None"
| "it_key (BlockIter it) = Some (iter_key it)"

fun it_value :: "iterator \<Rightarrow> u8 list option" where
  "it_value (EmptyIterator s) = None"
| "it_value (BlockIter it) = do {
     (v, n) \<leftarrow> iter_value it;
     if v + n \<le> length (iter_data it) then Some (take n (drop v (iter_data it))) else None }"

fun Next :: "bool \<Rightarrow> iterator \<Rightarrow> iterator option" where
  "Next le (EmptyIterator s) = None"
| "Next le (BlockIter it) = map_option BlockIter (iter_Next le it)"

fun Seek :: "bool \<Rightarrow> u8 list \<Rightarrow> iterator \<Rightarrow> iterator option" where
  "Seek le target (EmptyIterator s) = Some (EmptyIterator s)"
| "Seek le target (BlockIter it) = map_option BlockIter (iter_Seek le target it)"

fun SeekToFirst :: "bool \<Rightarrow> iterator \<Rightarrow> iterator option" where
  "SeekToFirst le (EmptyIterator s) = Some (EmptyIterator s)"
| "SeekToFirst le (BlockIter it) = map_option BlockIter (iter_SeekToFirst le it)"

end
