(* ===== verification/IteratorSpec.thy ===== *)
theory IteratorSpec
  imports KeyOrder
begin

text \<open>
  What an iterator over a sorted table promises (\<open>core/lib/io/iterator.h\<close>): it stands at one of its entries or behind the last one, a step
  moves it to the next entry, and a search moves it to the first entry whose key is not below the target. The
  iterators over a block and over a whole table are the interpretations.
\<close>

type_synonym entry = "u8 list \<times> u8 list"

definition keys_sorted :: "entry list \<Rightarrow> bool" where
  "keys_sorted es \<longleftrightarrow> sorted_wrt (<) (map fst es)"

text \<open>The number of the first entry whose key is not below the target.\<close>

definition lower_bound :: "u8 list \<Rightarrow> entry list \<Rightarrow> nat" where
  "lower_bound target es = length (takeWhile (\<lambda>e. fst e < target) es)"

lemma lower_bound_le: "lower_bound target es \<le> length es"
  by (simp add: lower_bound_def length_takeWhile_le)

lemma lower_bound_drop:
  assumes "\<And>i. i < n \<Longrightarrow> fst (es ! i) < target" "n \<le> length es"
  shows "lower_bound target es = n + lower_bound target (drop n es)"
proof -
  have "fst e < target" if mem: "e \<in> set (take n es)" for e
  proof -
    obtain i where "i < n" "e = es ! i" using mem unfolding in_set_conv_nth by auto
    then show ?thesis using assms(1) by simp
  qed
  then have "takeWhile (\<lambda>e. fst e < target) (take n es @ drop n es) = take n es @ takeWhile (\<lambda>e. fst e < target) (drop n es)"
    by (rule takeWhile_append2)
  then show ?thesis using assms(2) arg_cong [of _ _ length] by (simp add: lower_bound_def append_take_drop_id del: take_append drop_append)
qed

lemma keys_sorted_less: "keys_sorted es \<Longrightarrow> i < j \<Longrightarrow> j < length es \<Longrightarrow> fst (es ! i) < fst (es ! j)"
  by (auto simp: keys_sorted_def sorted_wrt_iff_nth_less)

lemma lower_bound_less: "i < lower_bound target es \<Longrightarrow> fst (es ! i) < target"
  using takeWhile_nth [of i "\<lambda>e. fst e < target" es] nth_mem [of i "takeWhile (\<lambda>e. fst e < target) es"] set_takeWhileD
  unfolding lower_bound_def by fastforce

lemma lower_bound_entry:
  assumes "keys_sorted es" "n = lower_bound target es" "n < length es"
  shows "\<not> fst (es ! n) < target" "map_of es target = (if fst (es ! n) = target then Some (snd (es ! n)) else None)"
proof -
  show ge: "\<not> fst (es ! n) < target" using nth_length_takeWhile [of "\<lambda>e. fst e < target" es] assms(2,3) by (simp add: lower_bound_def)
  have less: "fst (es ! i) < target" if "i < n" for i using lower_bound_less that assms(2) by simp
  have distinct: "distinct (map fst es)" using assms(1) by (auto simp: keys_sorted_def strict_sorted_iff)
  show "map_of es target = (if fst (es ! n) = target then Some (snd (es ! n)) else None)"
  proof (cases "fst (es ! n) = target")
    case True
    then have "(target, snd (es ! n)) \<in> set es" using nth_mem [OF assms(3)] by (metis prod.collapse)
    then show ?thesis using distinct True by simp
  next
    case False
    have "fst (es ! i) \<noteq> target" if "i < length es" for i
      using less [of i] ge False keys_sorted_less [OF assms(1), of n i] that by (cases i n rule: linorder_cases) auto
    then have "map_of es target = None" by (force simp: map_of_eq_None_iff in_set_conv_nth)
    then show ?thesis using False by simp
  qed
qed

lemma lower_bound_none: "lower_bound target es = length es \<Longrightarrow> map_of es target = None"
  using lower_bound_less [of _ target es] by (force simp: map_of_eq_None_iff in_set_conv_nth)

text \<open>Reading on from where the iterator stands, at most \<open>fuel\<close> entries.\<close>

primrec scan :: "('i \<Rightarrow> bool) \<Rightarrow> ('i \<Rightarrow> u8 list option) \<Rightarrow> ('i \<Rightarrow> u8 list option) \<Rightarrow> ('i \<Rightarrow> 'i option) \<Rightarrow> nat \<Rightarrow> 'i \<Rightarrow> entry list option" where
  "scan valid key value step 0 it = None"
| "scan valid key value step (Suc fuel) it =
    (if \<not> valid it then Some []
     else do {
       k \<leftarrow> key it;
       v \<leftarrow> value it;
       it \<leftarrow> step it;
       rest \<leftarrow> scan valid key value step fuel it;
       Some ((k, v) # rest) })"

locale sorted_iterator =
  fixes valid :: "'i \<Rightarrow> bool"
    and key :: "'i \<Rightarrow> u8 list option"
    and val :: "'i \<Rightarrow> u8 list option"
    and step :: "'i \<Rightarrow> 'i option"
    and seek :: "u8 list \<Rightarrow> 'i \<Rightarrow> 'i option"
    and first :: "'i \<Rightarrow> 'i option"
    and ok :: "'i \<Rightarrow> bool"
    and over :: "entry list \<Rightarrow> 'i \<Rightarrow> bool"
    and at :: "entry list \<Rightarrow> nat \<Rightarrow> 'i \<Rightarrow> bool"
  assumes at_over: "at es n it \<Longrightarrow> over es it"
    and at_valid: "at es n it \<Longrightarrow> n \<le> length es \<and> (valid it \<longleftrightarrow> n < length es) \<and> ok it"
    and at_entry: "at es n it \<Longrightarrow> n < length es \<Longrightarrow> key it = Some (fst (es ! n)) \<and> val it = Some (snd (es ! n))"
    and at_step: "at es n it \<Longrightarrow> n < length es \<Longrightarrow> \<exists>it'. step it = Some it' \<and> at es (Suc n) it'"
    and at_first: "over es it \<Longrightarrow> \<exists>it'. first it = Some it' \<and> at es 0 it'"
    and at_seek: "over es it \<Longrightarrow> keys_sorted es \<Longrightarrow> \<exists>it'. seek target it = Some it' \<and> at es (lower_bound target es) it'"
begin

lemma scan_at: "at es n it \<Longrightarrow> length es - n < fuel \<Longrightarrow> scan valid key val step fuel it = Some (drop n es)"
proof (induction fuel arbitrary: n it)
  case (Suc fuel)
  show ?case
  proof (cases "n < length es")
    case True
    then obtain it' where "step it = Some it'" "at es (Suc n) it'" using at_step Suc.prems(1) by blast
    then show ?thesis
      using Suc.IH [of "Suc n" it'] True at_valid [OF Suc.prems(1)] at_entry [OF Suc.prems(1)] Suc.prems(2)
      by (simp add: Cons_nth_drop_Suc [symmetric])
  qed (use at_valid [OF Suc.prems(1)] in simp)
qed simp

lemma scan_all: "over es it \<Longrightarrow> length es < fuel \<Longrightarrow> \<exists>it'. first it = Some it' \<and> scan valid key val step fuel it' = Some es"
  using at_first scan_at [of es 0] by fastforce

lemma over_unique:
  assumes "over es it" "over es' it"
  shows "es = es'"
proof -
  obtain it' where it': "first it = Some it'" "at es 0 it'" using at_first assms(1) by blast
  then have "at es' 0 it'" using at_first [OF assms(2)] by simp
  then show ?thesis using scan_at [OF it'(2), of "Suc (max (length es) (length es'))"] scan_at [of es' 0 it' "Suc (max (length es) (length es'))"] by simp
qed

text \<open>A search and a comparison of the key found look a key up.\<close>

lemma seek_lookup:
  assumes "over es it" "keys_sorted es"
  shows "\<exists>it'. seek target it = Some it' \<and> ok it' \<and>
    map_of es target = (if valid it' \<and> key it' = Some target then val it' else None)"
proof -
  obtain it' where it': "seek target it = Some it'" "at es (lower_bound target es) it'" using at_seek assms by blast
  show ?thesis
    using it' at_valid [OF it'(2)] at_entry [OF it'(2)] lower_bound_entry [OF assms(2) refl] lower_bound_none lower_bound_le [of target es]
    by (cases "lower_bound target es < length es") auto
qed

end

end
