(* ===== verification/BlockLayout.thy ===== *)
theory BlockLayout
  imports Blocks IteratorSpec
begin

text \<open>
  The layout of a block: what the builder writes, and what the decoder of entries and the block find in it.
\<close>

subsection \<open>Entries\<close>

definition entry_header :: "nat \<Rightarrow> u8 list \<Rightarrow> u8 list \<Rightarrow> u8 list" where
  "entry_header shared key value = EncodeVarint32 (word_of_nat shared) @ EncodeVarint32 (word_of_nat (length key - shared)) @
     EncodeVarint32 (word_of_nat (length value))"

definition entry_bytes :: "nat \<Rightarrow> u8 list \<Rightarrow> u8 list \<Rightarrow> u8 list" where
  "entry_bytes shared key value = entry_header shared key value @ drop shared key @ value"

lemma less_128_iff: "x < 128 \<longleftrightarrow> (\<forall>k\<ge>7. \<not> bit x k)" if "8 \<le> LENGTH('a)" for x :: "'a::len word"
proof
  have "unat (128 :: 'a word) = 128" using that unat_power2 [of 7, where 'a = 'a] by simp
  then have u: "x < 128 \<longleftrightarrow> unat x < 2 ^ 7" by (simp add: word_less_nat_alt)
  show "\<forall>k\<ge>7. \<not> bit x k" if "x < 128" using that u word_small_bit [of x 7] by blast
  assume k: "\<forall>k\<ge>7. \<not> bit x k"
  have "take_bit 7 x = x" by (rule bit_word_eqI) (use k not_le in \<open>auto simp: bit_take_bit_iff\<close>)
  then have "unat x = take_bit 7 (unat x)" by (metis unsigned_take_bit_eq)
  then show "x < 128" using u take_bit_nat_less_exp [of 7 "unat x"] by simp
qed

lemma varint_byte:
  assumes "EncodeVarint32 v = b # r"
  shows "if r = [] then ucast b = v \<and> b < 128 else \<not> b < 128"
proof (cases "(ucast v :: u64) < 128")
  case True
  have "EncodeVarint32 v = [ucast (ucast v :: u64)]"
    unfolding EncodeVarint32_eq by (subst EncodeVarint64.simps) (use True [folded not_le] in simp)
  then have r: "r = []" and b: "b = ucast (ucast v :: u64)" using assms by simp_all
  have small: "\<not> bit v k" if "7 \<le> k" for k
    using True that bit_imp_le_length [of v k] by (auto simp: less_128_iff bit_ucast_iff)
  have "ucast b = v" unfolding b
    by (rule bit_word_eqI) (use small in \<open>auto simp: bit_simps intro: ccontr\<close>)
  moreover have "b < 128" using small by (auto simp: less_128_iff b bit_simps)
  ultimately show ?thesis using r by simp
next
  case False
  then have "128 \<le> (ucast v :: u64)" by simp
  then have "EncodeVarint32 v = ucast ((ucast v AND (128 - 1)) OR 128 :: u64) # EncodeVarint64 (drop_bit 7 (ucast v))"
    unfolding EncodeVarint32_eq by (subst EncodeVarint64.simps) simp
  then have r: "r = EncodeVarint64 (drop_bit 7 (ucast v))" and b: "b = ucast ((ucast v AND (128 - 1)) OR 128 :: u64)" using assms by simp_all
  have "r \<noteq> []" unfolding r by (subst EncodeVarint64.simps) simp
  moreover have "bit b 7" unfolding b by (simp add: bit_simps)
  then have "\<not> b < 128" by (auto simp: less_128_iff)
  ultimately show ?thesis by simp
qed

lemma GetVarint32Ptr_Encode: "GetVarint32Ptr (EncodeVarint32 v @ rest) = Some (v, rest)"
  using varint32_decode [of v rest] by (simp add: GetVarint32_def split: option.splits prod.splits)

lemma EncodeVarint32_nonempty: "EncodeVarint32 v \<noteq> []"
  unfolding EncodeVarint32_eq by (subst EncodeVarint64.simps) simp

lemma three_varints:
  fixes a b c :: u32
  assumes "bs = EncodeVarint32 a @ EncodeVarint32 b @ EncodeVarint32 c @ rest"
  shows "3 \<le> length bs"
    and "ucast (bs ! 0) OR ucast (bs ! 1) OR ucast (bs ! 2) < (128 :: u32) \<Longrightarrow>
      a = ucast (bs ! 0) \<and> b = ucast (bs ! 1) \<and> c = ucast (bs ! 2) \<and> rest = drop 3 bs"
proof -
  obtain x xs y ys z zs where e: "EncodeVarint32 a = x # xs" "EncodeVarint32 b = y # ys" "EncodeVarint32 c = z # zs"
    using EncodeVarint32_nonempty by (metis neq_Nil_conv)
  show "3 \<le> length bs" using assms by (simp add: e)
  note v = varint_byte [OF e(1)] varint_byte [OF e(2)] varint_byte [OF e(3)]
  assume lt: "ucast (bs ! 0) OR ucast (bs ! 1) OR ucast (bs ! 2) < (128 :: u32)"
  have small: "bs ! i < 128" if "i < 3" for i
  proof -
    have "i = 0 \<or> i = 1 \<or> i = 2" using that by auto
    moreover have "k < 32" if "bit (b :: u8) k" for b k using bit_imp_le_length [OF that] by simp
    ultimately show ?thesis using lt by (auto simp: less_128_iff bit_simps)
  qed
  have "bs ! 0 = x" by (simp add: assms e)
  then have xs: "xs = []" using v(1) small [of 0] by (auto split: if_splits)
  then have "bs ! 1 = y" by (simp add: assms e)
  then have ys: "ys = []" using v(2) small [of 1] by (auto split: if_splits)
  then have "bs ! 2 = z" using xs by (simp add: assms e)
  then have zs: "zs = []" using v(3) small [of 2] by (auto split: if_splits)
  show "a = ucast (bs ! 0) \<and> b = ucast (bs ! 1) \<and> c = ucast (bs ! 2) \<and> rest = drop 3 bs"
    using v by (simp add: assms e xs ys zs)
qed

text \<open>Three numbers that are read back; the check on the two lengths behind them is in 32 bits.\<close>

lemma DecodeEntry_header:
  fixes a b c :: u32
  assumes "data = before @ EncodeVarint32 a @ EncodeVarint32 b @ EncodeVarint32 c @ after"
    and "h = length (EncodeVarint32 a @ EncodeVarint32 b @ EncodeVarint32 c)" "length before + h \<le> limit" "limit \<le> length data"
    and enough: "\<not> (word_of_nat (limit - (length before + h)) :: u32) < b + c"
  shows "DecodeEntry data (length before) limit = Some (a, b, c, length before + h)"
proof -
  define m where "m = limit - (length before + h)"
  have limit: "limit = length before + h + m" using assms(3) by (simp add: m_def)
  define rest where "rest = take m after"
  define bs where "bs = take (limit - length before) (drop (length before) data)"
  have bs: "bs = EncodeVarint32 a @ EncodeVarint32 b @ EncodeVarint32 c @ rest"
    using assms(2) by (simp add: bs_def rest_def limit assms(1))
  note three = three_varints [OF bs]
  have len: "length bs = limit - length before" "length rest = m"
    using assms(2,4) limit by (simp_all add: assms(1) bs_def rest_def)
  have l3: "\<not> int limit - int (length before) < 3" using three(1) len(1) limit by simp
  have pos: "limit - length rest = length before + h" "limit - (limit - length rest) = m" using limit len(2) by simp_all
  show ?thesis
  proof (cases "ucast (bs ! 0) OR ucast (bs ! 1) OR ucast (bs ! 2) < (128 :: u32)")
    case True
    note f = three(2) [OF True]
    have "length rest = length bs - 3" using f by simp
    then have p: "length before + 3 = length before + h" using three(1) len limit by simp
    then show ?thesis
      using l3 True f enough unfolding DecodeEntry_def Let_def bs_def [symmetric] by (simp del: of_nat_diff of_nat_add)
  next
    case False
    then show ?thesis
      using l3 enough pos unfolding DecodeEntry_def Let_def bs_def [symmetric] bs m_def by (simp add: GetVarint32Ptr_Encode del: of_nat_diff of_nat_add)
  qed
qed

lemma DecodeEntry_entry:
  assumes "data = before @ entry_bytes shared key value @ after" "length before + length (entry_bytes shared key value) \<le> limit"
    and "limit \<le> length data" "length data < 2 ^ 32" "shared \<le> length key"
  shows "DecodeEntry data (length before) limit = Some (word_of_nat shared, word_of_nat (length key - shared), word_of_nat (length value),
     length before + length (entry_header shared key value))"
proof (rule DecodeEntry_header)
  let ?b = "word_of_nat (length key - shared) :: u32" and ?c = "word_of_nat (length value) :: u32"
  let ?n = "limit - (length before + length (entry_header shared key value))"
  have size: "length (entry_bytes shared key value) = length (entry_header shared key value) + (length key - shared) + length value"
    using assms(5) by (simp add: entry_bytes_def)
  then have "?n < 2 ^ 32" "length key - shared + length value \<le> ?n" using assms(2-4) by linarith+
  then have "unat (word_of_nat ?n :: u32) = ?n" "unat (?b + ?c) = length key - shared + length value"
    by (simp_all only: of_nat_add [symmetric] unsigned_of_nat) (simp_all add: take_bit_nat_eq_self)
  then show "\<not> (word_of_nat ?n :: u32) < ?b + ?c"
    using \<open>length key - shared + length value \<le> ?n\<close> by (simp add: word_less_nat_alt)
  show "length before + length (entry_header shared key value) \<le> limit" using size assms(2) by simp
qed (use assms in \<open>simp_all add: entry_bytes_def entry_header_def\<close>)

subsection \<open>Blocks\<close>

text \<open>The bytes of the entries \<open>es\<close> whose keys share \<open>ss ! i\<close> bytes with the key before.\<close>

definition chunks :: "entry list \<Rightarrow> nat list \<Rightarrow> u8 list list" where
  "chunks es ss = map2 (\<lambda>(k, v) s. entry_bytes s k v) es ss"

definition pos :: "entry list \<Rightarrow> nat list \<Rightarrow> nat \<Rightarrow> nat" where
  "pos es ss n = length (concat (take n (chunks es ss)))"

definition shares_ok :: "entry list \<Rightarrow> nat list \<Rightarrow> bool" where
  "shares_ok es ss \<longleftrightarrow> length ss = length es \<and>
    (\<forall>i<length es. ss ! i \<le> length (fst (es ! i)) \<and>
      (ss ! i \<noteq> 0 \<longrightarrow> 0 < i \<and> ss ! i \<le> length (fst (es ! (i - 1))) \<and> take (ss ! i) (fst (es ! (i - 1))) = take (ss ! i) (fst (es ! i))))"

definition points_ok :: "entry list \<Rightarrow> nat list \<Rightarrow> nat list \<Rightarrow> bool" where
  "points_ok es ss rs \<longleftrightarrow> (\<exists>rest. rs = 0 # rest) \<and> length rs \<le> Suc (length es) \<and> (\<forall>r\<in>set rs. r = 0 \<or> r < length es) \<and> (\<forall>r\<in>set rs. r < length es \<longrightarrow> ss ! r = 0)"

definition builder_ok :: "builder \<Rightarrow> entry list \<Rightarrow> nat list \<Rightarrow> nat list \<Rightarrow> bool" where
  "builder_ok b es ss rs \<longleftrightarrow> shares_ok es ss \<and> points_ok es ss rs \<and> buffer b = concat (chunks es ss) \<and>
    restarts b = map (\<lambda>r. word_of_nat (pos es ss r)) rs \<and> last_key b = (if es = [] then [] else fst (last es))"

lemma shared_loop_le: "shared_loop m as bs \<le> length as" "shared_loop m as bs \<le> length bs"
  by (induction m as bs rule: shared_loop.induct) auto

lemma shared_loop_take: "take (shared_loop m as bs) as = take (shared_loop m as bs) bs"
  by (induction m as bs rule: shared_loop.induct) auto

lemma chunks_append: "length ss = length es \<Longrightarrow> chunks (es @ [e]) (ss @ [s]) = chunks es ss @ [entry_bytes s (fst e) (snd e)]"
  by (cases e) (simp add: chunks_def)

lemma length_chunks [simp]: "length ss = length es \<Longrightarrow> length (chunks es ss) = length es"
  by (simp add: chunks_def)

lemma pos_append: "length ss = length es \<Longrightarrow> n \<le> length es \<Longrightarrow> pos (es @ [e]) (ss @ [s]) n = pos es ss n"
  by (simp add: pos_def chunks_append)

lemma builder_init: "builder_ok BlockBuilder [] [] [0]" "builder_ok (Reset b) [] [] [0]"
  by (simp_all add: builder_ok_def shares_ok_def points_ok_def BlockBuilder_def Reset_def chunks_def pos_def)

lemma Add_eq:
  assumes "s = (if counter b < interval then shared_loop (min (length (last_key b)) (length key)) (last_key b) key else 0)"
  shows "Add interval key value b = b\<lparr>buffer := buffer b @ entry_bytes s key value,
    restarts := (if counter b < interval then restarts b else restarts b @ [word_of_nat (length (buffer b))]),
    counter := (if counter b < interval then counter b else 0) + 1, last_key := key\<rparr>"
proof -
  have s: "take s (last_key b) = take s key" "s \<le> length key" using shared_loop_take shared_loop_le by (simp_all add: assms)
  then have last: "take s (last_key b) @ drop s key = key" by simp
  have "Add interval key value b = (let b' = (if counter b < interval then b else b\<lparr>restarts := restarts b @ [word_of_nat (length (buffer b))], counter := 0\<rparr>)
    in b'\<lparr>buffer := buffer b @ entry_bytes s key value, last_key := take s (last_key b) @ drop s key, counter := counter b' + 1\<rparr>)"
    using assms by (simp add: Add_def Let_def PutVarint32_def entry_bytes_def entry_header_def)
  then show ?thesis unfolding last by (simp add: Let_def)
qed

lemma Add_builder:
  assumes "builder_ok b es ss rs"
  shows "\<exists>s rs'. builder_ok (Add interval key value b) (es @ [(key, value)]) (ss @ [s]) rs'"
proof -
  let ?c = "counter b < interval"
  define s where "s = (if ?c then shared_loop (min (length (last_key b)) (length key)) (last_key b) key else 0)"
  note ok = assms [unfolded builder_ok_def]
  have len: "length ss = length es" using ok by (simp add: shares_ok_def)
  note Add_b = Add_eq [OF s_def, of "value"]
  have s: "s \<le> length key" "s \<le> length (last_key b)" "take s (last_key b) = take s key"
    using shared_loop_take shared_loop_le by (simp_all add: s_def)
  have "shares_ok (es @ [(key, value)]) (ss @ [s])"
    unfolding shares_ok_def
  proof (intro conjI allI impI)
    fix i assume i: "i < length (es @ [(key, value)])"
    show "(ss @ [s]) ! i \<le> length (fst ((es @ [(key, value)]) ! i))"
      using i ok s(1) by (auto simp: nth_append shares_ok_def len less_Suc_eq)
    assume nz: "(ss @ [s]) ! i \<noteq> 0"
    have last: "last_key b = fst (last es) \<and> es \<noteq> []" if "i = length es" using nz s(2) ok that len by (auto split: if_splits)
    show "0 < i" "(ss @ [s]) ! i \<le> length (fst ((es @ [(key, value)]) ! (i - 1)))"
      "take ((ss @ [s]) ! i) (fst ((es @ [(key, value)]) ! (i - 1))) = take ((ss @ [s]) ! i) (fst ((es @ [(key, value)]) ! i))"
      using i nz ok s last by (auto simp: nth_append shares_ok_def len less_Suc_eq last_conv_nth)
  qed (simp add: len)
  moreover define rs' where "rs' = (if ?c then rs else rs @ [length es])"
  have "points_ok (es @ [(key, value)]) (ss @ [s]) rs'"
    using ok s(2) by (auto simp: points_ok_def rs'_def len nth_append s_def split: if_splits)
  moreover have "restarts (Add interval key value b) = map (\<lambda>r. word_of_nat (pos (es @ [(key, value)]) (ss @ [s]) r)) rs'"
  proof -
    have "pos (es @ [(key, value)]) (ss @ [s]) r = pos es ss r" if "r \<in> set rs" for r
      using ok that by (intro pos_append len) (auto simp: points_ok_def)
    moreover have "pos (es @ [(key, value)]) (ss @ [s]) (length es) = length (buffer b)"
      using ok len by (simp add: pos_append) (simp add: pos_def)
    ultimately show ?thesis using ok by (simp add: Add_b rs'_def)
  qed
  moreover have "buffer (Add interval key value b) = concat (chunks (es @ [(key, value)]) (ss @ [s]))"
    using ok by (simp add: Add_b chunks_append len)
  moreover have "last_key (Add interval key value b) = key" by (simp add: Add_b)
  ultimately show ?thesis unfolding builder_ok_def by auto
qed


end
