(* ===== verification/BlockIter.thy ===== *)
theory BlockIter
  imports BlockLayout
begin

text \<open>
  Iterating over a block that has been built: from every position the iterator reaches exactly the entries that were added.
\<close>

subsection \<open>The bytes of a finished block\<close>

definition block_bytes :: "entry list \<Rightarrow> nat list \<Rightarrow> nat list \<Rightarrow> u8 list" where
  "block_bytes es ss rs = concat (chunks es ss) @ concat (map (\<lambda>r. EncodeFixed32 True (word_of_nat (pos es ss r))) rs) @
     EncodeFixed32 True (word_of_nat (length rs))"

lemma unat_of_nat_32: "n < 2 ^ 32 \<Longrightarrow> unat (word_of_nat n :: u32) = n"
  by (simp add: unsigned_of_nat take_bit_nat_eq_self)

definition laid_out :: "u8 list \<Rightarrow> entry list \<Rightarrow> nat list \<Rightarrow> nat list \<Rightarrow> bool" where
  "laid_out data es ss rs \<longleftrightarrow> data = block_bytes es ss rs \<and> shares_ok es ss \<and> points_ok es ss rs \<and> length data < 2 ^ 32"

lemma PutFixed32_foldl: "foldl (PutFixed32 le) buf ws = buf @ concat (map (EncodeFixed32 True) ws)"
  by (induction ws arbitrary: buf) (simp_all add: PutFixed32_def EncodeFixed_portable)

lemma Finish_bytes: "builder_ok b es ss rs \<Longrightarrow> fst (Finish le b) = block_bytes es ss rs"
  by (simp add: Finish_def Let_def PutFixed32_foldl builder_ok_def block_bytes_def PutFixed32_def EncodeFixed_portable comp_def)

lemma build_ok: "\<exists>ss rs. builder_ok (foldl (\<lambda>b (k, v). Add interval k v b) BlockBuilder es) es ss rs"
proof (induction es rule: rev_induct)
  case Nil
  show ?case using builder_init(1) by auto
next
  case (snoc e es)
  then obtain ss rs where "builder_ok (foldl (\<lambda>b (k, v). Add interval k v b) BlockBuilder es) es ss rs" by blast
  from Add_builder [OF this] show ?case by (cases e) fastforce
qed

lemma length_fixeds [simp]: "length (concat (map (\<lambda>r. EncodeFixed32 True (f r)) rs)) = 4 * length rs"
  by (induction rs) simp_all


lemma pos_Suc: "length ss = length es \<Longrightarrow> n < length es \<Longrightarrow> pos es ss (Suc n) = pos es ss n + length (chunks es ss ! n)"
  by (simp add: pos_def take_Suc_conv_app_nth)

lemma chunks_nth: "length ss = length es \<Longrightarrow> n < length es \<Longrightarrow> chunks es ss ! n = entry_bytes (ss ! n) (fst (es ! n)) (snd (es ! n))"
  by (simp add: chunks_def split: prod.split)

lemma entry_size: "s \<le> length k \<Longrightarrow> length (entry_bytes s k v) = length (entry_header s k v) + (length k - s) + length v"
  by (simp add: entry_bytes_def)

lemma entry_header_nonempty: "0 < length (entry_header s k v)"
  by (simp add: entry_header_def EncodeVarint32_nonempty)

lemma laid_out_split:
  assumes "laid_out data es ss rs" "n < length es"
  obtains after where "data = concat (take n (chunks es ss)) @ chunks es ss ! n @ after" "length (concat (take n (chunks es ss))) = pos es ss n"
    "pos es ss (Suc n) \<le> pos es ss (length es)"
proof -
  have len: "length ss = length es" using assms(1) by (simp add: laid_out_def shares_ok_def)
  have c: "chunks es ss = take n (chunks es ss) @ chunks es ss ! n # drop (Suc n) (chunks es ss)"
    using assms(2) len by (simp add: id_take_nth_drop)
  have "concat (chunks es ss) = concat (take n (chunks es ss)) @ chunks es ss ! n @ concat (drop (Suc n) (chunks es ss))"
    by (subst c) simp
  moreover from this have "pos es ss (Suc n) \<le> pos es ss (length es)" using assms(2) len by (simp add: pos_Suc) (simp add: pos_def)
  ultimately show thesis using that assms(1) by (simp add: laid_out_def block_bytes_def pos_def)
qed

lemma laid_out_size:
  assumes "laid_out data es ss rs"
  shows "length data = pos es ss (length es) + 4 * length rs + 4" "length data < 2 ^ 32" "length ss = length es" "rs \<noteq> []"
  using assms by (auto simp: laid_out_def block_bytes_def shares_ok_def points_ok_def pos_def)

lemma pos_mono: "length ss = length es \<Longrightarrow> m \<le> n \<Longrightarrow> pos es ss m \<le> pos es ss n"
  unfolding pos_def by (metis concat_append le_add1 length_append append_take_drop_id min.absorb1 take_take)

text \<open>A decoded entry, with the bytes of its key and of its value in place.\<close>

lemma laid_out_entry:
  assumes laid: "laid_out data es ss rs" and n: "n < length es"
  obtains p where
    "DecodeEntry data (pos es ss n) (pos es ss (length es)) =
      Some (word_of_nat (ss ! n), word_of_nat (length (fst (es ! n)) - ss ! n), word_of_nat (length (snd (es ! n))), p)"
    "take (length (fst (es ! n)) - ss ! n) (drop p data) = drop (ss ! n) (fst (es ! n))"
    "p + (length (fst (es ! n)) - ss ! n) + length (snd (es ! n)) = pos es ss (Suc n)"
    "take (length (snd (es ! n))) (drop (p + (length (fst (es ! n)) - ss ! n)) data) = snd (es ! n)"
    "pos es ss n < p" "pos es ss (Suc n) \<le> pos es ss (length es)"
proof -
  note sz = laid_out_size [OF laid]
  obtain after where d: "data = concat (take n (chunks es ss)) @ chunks es ss ! n @ after" "length (concat (take n (chunks es ss))) = pos es ss n"
    "pos es ss (Suc n) \<le> pos es ss (length es)"
    by (rule laid_out_split [OF assms])
  define before where "before = concat (take n (chunks es ss))"
  define k v s where "k = fst (es ! n)" and "v = snd (es ! n)" and "s = ss ! n"
  have c: "chunks es ss ! n = entry_bytes s k v" using n sz(3) by (simp add: chunks_nth k_def v_def s_def)
  have s: "s \<le> length k" using laid n by (simp add: laid_out_def shares_ok_def k_def s_def)
  let ?p = "length before + length (entry_header s k v)"
  have e: "data = before @ entry_bytes s k v @ after" "length before = pos es ss n" using d(1,2) by (simp_all add: before_def c)
  have suc: "pos es ss (Suc n) = length before + length (entry_bytes s k v)" using pos_Suc [OF sz(3) n] e(2) by (simp add: c)
  have "DecodeEntry data (length before) (pos es ss (length es)) = Some (word_of_nat s, word_of_nat (length k - s), word_of_nat (length v), ?p)"
    by (rule DecodeEntry_entry [OF e(1)]) (use d(3) suc sz s in simp_all)
  moreover have "drop ?p data = drop s k @ v @ after" by (simp add: e(1) entry_bytes_def)
  then have "take (length k - s) (drop ?p data) = drop s k" "take (length v) (drop (length k - s) (drop ?p data)) = v" by simp_all
  moreover have "?p + (length k - s) + length v = pos es ss (Suc n)" using suc s by (simp add: entry_size)
  ultimately show thesis
    using that [of ?p] e(2) d(3) entry_header_nonempty [of s k v] by (simp add: k_def v_def s_def add.commute)
qed

lemma key_size: "laid_out data es ss rs \<Longrightarrow> n < length es \<Longrightarrow> length (fst (es ! n)) \<le> pos es ss (Suc n)"
proof (induction n)
  case 0
  then have "ss ! 0 = 0" by (auto simp: laid_out_def shares_ok_def)
  then show ?case using laid_out_size(3) [OF "0.prems"(1)] "0.prems"(2) by (simp add: pos_Suc chunks_nth entry_size)
next
  case (Suc n)
  have "ss ! Suc n \<le> length (fst (es ! Suc n))" "ss ! Suc n \<le> length (fst (es ! n))"
    using Suc.prems by (auto simp: laid_out_def shares_ok_def dest!: spec [of _ "Suc n"])
  then show ?case using Suc.IH Suc.prems laid_out_size(3) [OF Suc.prems(1)] by (simp add: pos_Suc [of ss es "Suc n"] chunks_nth entry_size)
qed

lemma GetRestartPoint_laid_out:
  assumes laid: "laid_out data es ss rs" and "iter_data it = data" "unat (iter_restarts it) = pos es ss (length es)" "unat i < length rs"
  shows "GetRestartPoint le it i = Some (word_of_nat (pos es ss (rs ! unat i)))" "pos es ss (rs ! unat i) < 2 ^ 32"
proof -
  note sz = laid_out_size [OF laid]
  let ?f = "\<lambda>r. EncodeFixed32 True (word_of_nat (pos es ss r))"
  have rs: "rs = take (unat i) rs @ rs ! unat i # drop (Suc (unat i)) rs" using assms(4) by (simp add: id_take_nth_drop)
  have "data = (concat (chunks es ss) @ concat (map ?f (take (unat i) rs))) @ ?f (rs ! unat i) @
      concat (map ?f (drop (Suc (unat i)) rs)) @ EncodeFixed32 True (word_of_nat (length rs))"
  proof -
    have "concat (map ?f rs) = concat (map ?f (take (unat i) rs)) @ ?f (rs ! unat i) @ concat (map ?f (drop (Suc (unat i)) rs))"
      using arg_cong [OF rs, of "\<lambda>rs. concat (map ?f rs)"] by simp
    then show ?thesis using laid by (simp add: laid_out_def block_bytes_def)
  qed
  moreover have "length (concat (chunks es ss) @ concat (map ?f (take (unat i) rs))) = pos es ss (length es) + unat i * 4"
    using assms(4) sz(3) by (simp add: pos_def)
  ultimately have "drop (pos es ss (length es) + unat i * 4) data = ?f (rs ! unat i) @
      concat (map ?f (drop (Suc (unat i)) rs)) @ EncodeFixed32 True (word_of_nat (length rs))"
    by (metis append_eq_conv_conj)
  then show "GetRestartPoint le it i = Some (word_of_nat (pos es ss (rs ! unat i)))"
    using assms(2,3) by (simp add: GetRestartPoint_def fixed_decode)
  have "\<forall>r\<in>set rs. r = 0 \<or> r < length es" using laid by (simp add: laid_out_def points_ok_def)
  then have "rs ! unat i = 0 \<or> rs ! unat i < length es" using nth_mem [OF assms(4)] by (rule bspec)
  then have "rs ! unat i \<le> length es" by auto
  then have "pos es ss (rs ! unat i) \<le> pos es ss (length es)" by (rule pos_mono [OF sz(3)])
  then show "pos es ss (rs ! unat i) < 2 ^ 32" using sz by simp
qed

subsection \<open>The iterator\<close>

definition iter_over :: "entry list \<Rightarrow> nat list \<Rightarrow> nat list \<Rightarrow> iter \<Rightarrow> bool" where
  "iter_over es ss rs it \<longleftrightarrow> laid_out (iter_data it) es ss rs \<and> unat (iter_restarts it) = pos es ss (length es) \<and>
    unat (num_restarts it) = length rs \<and> iter_status it = OK"

text \<open>The iterator is at the entry \<open>n\<close>; or behind the last one.\<close>

definition at_entry :: "entry list \<Rightarrow> nat list \<Rightarrow> nat list \<Rightarrow> nat \<Rightarrow> iter \<Rightarrow> bool" where
  "at_entry es ss rs n it \<longleftrightarrow> iter_over es ss rs it \<and>
    (if n < length es then unat (current it) = pos es ss n \<and> iter_key it = fst (es ! n) \<and> restart_index it < num_restarts it \<and>
       iter_value it = Some (pos es ss (Suc n) - length (snd (es ! n)), length (snd (es ! n))) \<and>
       length (snd (es ! n)) \<le> pos es ss (Suc n) \<and>
       take (length (snd (es ! n))) (drop (pos es ss (Suc n) - length (snd (es ! n))) (iter_data it)) = snd (es ! n)
     else n = length es \<and> current it = iter_restarts it)"

text \<open>The next entry that it parses is \<open>n\<close>.\<close>

definition before_entry :: "entry list \<Rightarrow> nat list \<Rightarrow> nat list \<Rightarrow> nat \<Rightarrow> iter \<Rightarrow> bool" where
  "before_entry es ss rs n it \<longleftrightarrow> iter_over es ss rs it \<and> n \<le> length es \<and> (\<exists>v l. iter_value it = Some (v, l) \<and> v + l = pos es ss n) \<and>
    (n < length es \<longrightarrow> ss ! n \<le> length (iter_key it) \<and> take (ss ! n) (iter_key it) = take (ss ! n) (fst (es ! n)) \<and>
      restart_index it < num_restarts it)"

lemma restart_loop_returns:
  assumes "iter_over es ss rs it" "i < num_restarts it"
  shows "\<exists>j<num_restarts it. restart_loop le it i = Some j"
  using assms(2)
proof (induction "unat (num_restarts it) - unat i" arbitrary: i rule: less_induct)
  case less
  show ?case
  proof (cases "i + 1 < num_restarts it")
    case False
    then show ?thesis using less.prems by (simp add: restart_loop.simps [of le it i])
  next
    case True
    have "unat i + 1 < 2 ^ 32" using less.prems unsigned_less [of "num_restarts it", where 'a = nat] by (simp add: word_less_nat_alt)
    then have u: "unat (i + 1) = Suc (unat i)" by (simp add: unat_word_ariths)
    have "GetRestartPoint le it (i + 1) \<noteq> None"
      using GetRestartPoint_laid_out(1) [of "iter_data it" es ss rs it "i + 1"] assms(1) True by (simp add: iter_over_def word_less_nat_alt)
    moreover have "unat (num_restarts it) - unat (i + 1) < unat (num_restarts it) - unat i"
      using True u by (simp add: word_less_nat_alt)
    ultimately show ?thesis using less.hyps [of "i + 1"] True less.prems by (subst restart_loop.simps) auto
  qed
qed

lemma iter_over_upd [simp]:
  "iter_over es ss rs (it\<lparr>current := c\<rparr>) = iter_over es ss rs it" "iter_over es ss rs (it\<lparr>restart_index := i\<rparr>) = iter_over es ss rs it"
  "iter_over es ss rs (it\<lparr>iter_key := k\<rparr>) = iter_over es ss rs it" "iter_over es ss rs (it\<lparr>iter_value := v\<rparr>) = iter_over es ss rs it"
  by (simp_all add: iter_over_def)

lemma ParseNextKey_spec:
  assumes "before_entry es ss rs n it"
  shows "\<exists>it'. ParseNextKey le it = Some (n < length es, it') \<and> at_entry es ss rs n it'"
proof -
  have over: "iter_over es ss rs it" and n: "n \<le> length es" using assms by (simp_all add: before_entry_def)
  obtain v l where v: "iter_value it = Some (v, l)" "v + l = pos es ss n" using assms by (auto simp: before_entry_def)
  have laid: "laid_out (iter_data it) es ss rs" and lim: "unat (iter_restarts it) = pos es ss (length es)"
    using over by (simp_all add: iter_over_def)
  note sz = laid_out_size [OF laid]
  have "pos es ss n \<le> pos es ss (length es)" by (rule pos_mono [OF sz(3) n])
  then have "pos es ss n < 2 ^ 32" using sz by simp
  then have cur: "unat (word_of_nat (pos es ss n) :: u32) = pos es ss n" by (simp add: unsigned_of_nat take_bit_nat_eq_self)
  have nxt: "NextEntryOffset it = Some (word_of_nat (pos es ss n))" using v by (simp add: NextEntryOffset_def del: of_nat_add)
  show ?thesis
  proof (cases "n < length es")
    case False
    then have "n = length es" using n by simp
    then show ?thesis using over lim cur nxt by (simp add: ParseNextKey_def at_entry_def)
  next
    case True
    obtain p where p:
      "DecodeEntry (iter_data it) (pos es ss n) (pos es ss (length es)) =
        Some (word_of_nat (ss ! n), word_of_nat (length (fst (es ! n)) - ss ! n), word_of_nat (length (snd (es ! n))), p)"
      "take (length (fst (es ! n)) - ss ! n) (drop p (iter_data it)) = drop (ss ! n) (fst (es ! n))"
      "p + (length (fst (es ! n)) - ss ! n) + length (snd (es ! n)) = pos es ss (Suc n)"
      "take (length (snd (es ! n))) (drop (p + (length (fst (es ! n)) - ss ! n)) (iter_data it)) = snd (es ! n)"
      "pos es ss n < p" "pos es ss (Suc n) \<le> pos es ss (length es)"
      by (rule laid_out_entry [OF laid True])
    let ?k = "fst (es ! n)" and ?v = "snd (es ! n)" and ?s = "ss ! n"
    have key: "?s \<le> length (iter_key it)" "take ?s (iter_key it) = take ?s ?k" "restart_index it < num_restarts it"
      using assms True by (simp_all add: before_entry_def)
    have sk: "?s \<le> length ?k" using laid True by (simp add: laid_out_def shares_ok_def)
    have small: "length ?k - ?s < 2 ^ 32" "length ?v < 2 ^ 32" using p(3,6) sz by simp_all
    have "?s \<le> length (fst (es ! n))" "length (fst (es ! n)) \<le> pos es ss (Suc n)" using sk key_size [OF laid True] by simp_all
    then have "?s < 2 ^ 32" using p(6) sz by simp
    then have u: "unat (word_of_nat ?s :: u32) = ?s" "unat (word_of_nat (length ?k - ?s) :: u32) = length ?k - ?s"
      "unat (word_of_nat (length ?v) :: u32) = length ?v"
      using small by (simp_all add: unat_of_nat_32 del: of_nat_diff)
    define it1 where "it1 = it\<lparr>current := word_of_nat (pos es ss n), iter_key := ?k, iter_value := Some (p + (length ?k - ?s), length ?v)\<rparr>"
    have "iter_over es ss rs it1" "restart_index it1 < num_restarts it1" using over key(3) by (simp_all add: it1_def)
    then obtain j where j: "j < num_restarts it1" "restart_loop le it1 (restart_index it1) = Some j"
      using restart_loop_returns by blast
    have "ParseNextKey le it = Some (True, it1\<lparr>restart_index := j\<rparr>)"
    proof -
      have "NextEntryOffset (it\<lparr>current := word_of_nat (pos es ss n)\<rparr>) = NextEntryOffset it" by (simp add: NextEntryOffset_def)
      have k: "take ?s (iter_key it) @ take (length ?k - ?s) (drop p (iter_data it)) = ?k" using p(2) key(2) by simp
      have "\<not> length (iter_data it) < p + (length ?k - ?s)" using p(3,6) sz by simp
      moreover have "\<not> pos es ss (length es) \<le> pos es ss n" using p(3,5,6) by simp
      ultimately show ?thesis
        using p(1) key(1) u j k by (simp add: ParseNextKey_def nxt cur lim it1_def)
    qed
    moreover have "at_entry es ss rs n (it1\<lparr>restart_index := j\<rparr>)"
    proof -
      have "pos es ss (Suc n) - length ?v = p + (length ?k - ?s)" "length ?v \<le> pos es ss (Suc n)" using p(3) by simp_all
      then show ?thesis using True over p(4) j cur by (simp add: at_entry_def it1_def)
    qed
    ultimately show ?thesis using True by auto
  qed
qed

lemma at_before: "at_entry es ss rs n it \<Longrightarrow> n < length es \<Longrightarrow> before_entry es ss rs (Suc n) it"
proof -
  assume a: "at_entry es ss rs n it" "n < length es"
  have over: "iter_over es ss rs it" and key: "iter_key it = fst (es ! n)" and idx: "restart_index it < num_restarts it"
    and val: "iter_value it = Some (pos es ss (Suc n) - length (snd (es ! n)), length (snd (es ! n)))" "length (snd (es ! n)) \<le> pos es ss (Suc n)"
    using a by (simp_all add: at_entry_def)
  have sh: "shares_ok es ss" using over by (simp add: iter_over_def laid_out_def)
  have "ss ! Suc n \<le> length (fst (es ! n)) \<and> take (ss ! Suc n) (fst (es ! n)) = take (ss ! Suc n) (fst (es ! Suc n))" if "Suc n < length es"
    using sh that by (cases "ss ! Suc n = 0") (auto simp: shares_ok_def dest!: spec [of _ "Suc n"])
  then show ?thesis using a(2) over key idx val by (auto simp: before_entry_def)
qed

lemma SeekToRestartPoint_spec:
  assumes over: "iter_over es ss rs it" and i: "unat i < length rs"
  shows "\<exists>it'. SeekToRestartPoint le i it = Some it' \<and> before_entry es ss rs (if es = [] then 0 else rs ! unat i) it'"
proof -
  have laid: "laid_out (iter_data it) es ss rs" and lim: "unat (iter_restarts it) = pos es ss (length es)" and num: "unat (num_restarts it) = length rs"
    using over by (simp_all add: iter_over_def)
  note g = GetRestartPoint_laid_out [OF laid refl lim i]
  have "points_ok es ss rs" using laid by (simp add: laid_out_def)
  then have r: "rs ! unat i = 0 \<or> rs ! unat i < length es" "rs ! unat i < length es \<longrightarrow> ss ! (rs ! unat i) = 0"
    using nth_mem [OF i] unfolding points_ok_def by auto
  have "i < num_restarts it" using i num by (simp add: word_less_nat_alt)
  moreover have "es = [] \<Longrightarrow> rs ! unat i = 0" using r(1) by simp
  ultimately show ?thesis
    using over r g unat_of_nat_32 by (auto simp: SeekToRestartPoint_def before_entry_def)
qed

subsection \<open>Searching\<close>

lemma linear_loop_spec:
  assumes "before_entry es ss rs n it"
  shows "\<exists>it'. linear_loop le target it = Some it' \<and> at_entry es ss rs (n + lower_bound target (drop n es)) it'"
  using assms
proof (induction "length es - n" arbitrary: n it rule: less_induct)
  case less
  obtain it1 where p: "ParseNextKey le it = Some (n < length es, it1)" "at_entry es ss rs n it1"
    using ParseNextKey_spec [OF less.prems] by blast
  show ?case
  proof (cases "n < length es \<and> fst (es ! n) < target")
    case True
    then have d: "drop n es = es ! n # drop (Suc n) es" by (simp add: Cons_nth_drop_Suc)
    have "iter_key it1 = fst (es ! n)" using p(2) True by (simp add: at_entry_def)
    moreover obtain it' where "linear_loop le target it1 = Some it'" "at_entry es ss rs (Suc n + lower_bound target (drop (Suc n) es)) it'"
      using less.hyps [OF _ at_before [OF p(2)]] True by (auto intro: diff_less_mono2)
    ultimately show ?thesis using True p(1) by (subst linear_loop.simps) (simp add: d lower_bound_def compare_sign)
  next
    case False
    then have z: "lower_bound target (drop n es) = 0"
      by (cases "n < length es") (auto simp: lower_bound_def Cons_nth_drop_Suc [symmetric])
    show ?thesis
    proof (cases "n < length es")
      case True
      then have "iter_key it1 = fst (es ! n)" using p(2) by (simp add: at_entry_def)
      then show ?thesis using False True p z by (subst linear_loop.simps) (simp add: compare_sign)
    qed (use p z in \<open>subst linear_loop.simps, simp\<close>)
  qed
qed

lemma seek_loop_spec:
  assumes over: "iter_over es ss rs it" and "left \<le> right" "right < num_restarts it" "left = 0 \<or> fst (es ! (rs ! unat left)) < target" "es \<noteq> []"
  shows "\<exists>l<num_restarts it. seek_loop le it target left right = Some (Some l) \<and> (l = 0 \<or> fst (es ! (rs ! unat l)) < target)"
  using assms(2-4)
proof (induction "unat right - unat left" arbitrary: left right rule: less_induct)
  case less
  have laid: "laid_out (iter_data it) es ss rs" and lim: "unat (iter_restarts it) = pos es ss (length es)" and num: "unat (num_restarts it) = length rs"
    using over by (simp_all add: iter_over_def)
  note sz = laid_out_size [OF laid]
  show ?case
  proof (cases "left < right")
    case False
    then have "left < num_restarts it" using less.prems(1,2) by (metis order.strict_trans1 order.trans)
    then show ?thesis using False less.prems(3) by (subst seek_loop.simps) simp
  next
    case True
    define mid where "mid = (left + right + 1) div 2"
    have small: "unat left < unat right" "unat right < length rs" "length rs < 2 ^ 30"
      using True less.prems(2) sz num by (simp_all add: word_less_nat_alt)
    then have um: "unat mid = (unat left + unat right + 1) div 2"
      by (simp add: mid_def unat_div unat_word_ariths)
    then have m: "unat left < unat mid" "unat mid \<le> unat right" using small by linarith+
    have i: "unat mid < length rs" using m small by linarith
    let ?r = "rs ! unat mid"
    have "points_ok es ss rs" using laid by (simp add: laid_out_def)
    then have r: "?r < length es" "ss ! ?r = 0" using nth_mem [OF i] assms(5) unfolding points_ok_def by auto
    note g = GetRestartPoint_laid_out [OF laid refl lim i]
    obtain p where p:
      "DecodeEntry (iter_data it) (pos es ss ?r) (pos es ss (length es)) =
        Some (word_of_nat (ss ! ?r), word_of_nat (length (fst (es ! ?r)) - ss ! ?r), word_of_nat (length (snd (es ! ?r))), p)"
      "take (length (fst (es ! ?r)) - ss ! ?r) (drop p (iter_data it)) = drop (ss ! ?r) (fst (es ! ?r))"
      "p + (length (fst (es ! ?r)) - ss ! ?r) + length (snd (es ! ?r)) = pos es ss (Suc ?r)" "pos es ss (Suc ?r) \<le> pos es ss (length es)"
      by (rule laid_out_entry [OF laid r(1)])
    have "length (fst (es ! ?r)) < 2 ^ 32" using key_size [OF laid r(1)] p(4) sz by simp
    then have u: "unat (word_of_nat (length (fst (es ! ?r))) :: u32) = length (fst (es ! ?r))" by (rule unat_of_nat_32)
    have "\<not> length (iter_data it) < p + length (fst (es ! ?r))" using p(3,4) sz r(2) by simp
    then have step: "seek_loop le it target left right =
        (if fst (es ! ?r) < target then seek_loop le it target mid right else seek_loop le it target left (mid - 1))"
      using True g p(1,2) r(2) u unat_of_nat_32 [OF g(2)] lim
      by (subst seek_loop.simps) (simp add: mid_def [symmetric] compare_sign Let_def)
    show ?thesis
    proof (cases "fst (es ! ?r) < target")
      case True
      then show ?thesis using less.hyps [of right mid] less.prems(2) m small step by (auto simp: word_le_nat_alt)
    next
      case False
      have "unat (mid - 1) = unat mid - 1" using m(1) by (intro unat_minus_one) auto
      then show ?thesis using False less.hyps [of "mid - 1" left] less.prems m small step num by (auto simp: word_le_nat_alt word_less_nat_alt)
    qed
  qed
qed

lemma iter_Seek_spec:
  assumes over: "iter_over es ss rs it" and sorted: "keys_sorted es"
  shows "\<exists>it'. iter_Seek le target it = Some it' \<and> at_entry es ss rs (lower_bound target es) it'"
proof -
  have laid: "laid_out (iter_data it) es ss rs" and num: "unat (num_restarts it) = length rs"
    using over by (simp_all add: iter_over_def)
  have points: "points_ok es ss rs" using laid by (simp add: laid_out_def)
  have "num_restarts it \<noteq> 0" using num laid_out_size(4) [OF laid] by auto
  then have last: "num_restarts it - 1 < num_restarts it" by (simp add: word_less_nat_alt unat_minus_one unat_gt_0)
  obtain l where l: "l < num_restarts it" "seek_loop le it target 0 (num_restarts it - 1) = Some (Some l)"
    "l = 0 \<or> es \<noteq> [] \<and> fst (es ! (rs ! unat l)) < target"
  proof (cases "es = []")
    case True
    then have "length rs = 1" using points by (auto simp: points_ok_def)
    then have "unat (num_restarts it) = 1" using num by simp
    then have "num_restarts it = 1" by (simp add: word_unat_eq_iff)
    then show thesis using that [of 0] by (simp add: seek_loop.simps)
  next
    case False
    then show thesis using seek_loop_spec [OF over _ last, of 0 target le] that by auto
  qed
  let ?n = "if es = [] then 0 else rs ! unat l"
  have i: "unat l < length rs" using l(1) num by (simp add: word_less_nat_alt)
  obtain it1 where it1: "SeekToRestartPoint le l it = Some it1" "before_entry es ss rs ?n it1"
    using SeekToRestartPoint_spec [OF over i] by blast
  obtain it' where it': "linear_loop le target it1 = Some it'" "at_entry es ss rs (?n + lower_bound target (drop ?n es)) it'"
    using linear_loop_spec [OF it1(2)] by blast
  have n: "?n \<le> length es" using it1(2) by (simp add: before_entry_def)
  have "fst (es ! j) < target" if j: "j < ?n" for j
  proof (cases "l = 0")
    case True
    then have "?n = 0" using points by (auto simp: points_ok_def)
    then show ?thesis using j by simp
  next
    case False
    then have es: "es \<noteq> []" "fst (es ! (rs ! unat l)) < target" using l(3) by simp_all
    have "\<forall>r\<in>set rs. r = 0 \<or> r < length es" using points by (simp add: points_ok_def)
    then have "rs ! unat l = 0 \<or> rs ! unat l < length es" using nth_mem [OF i] by (rule bspec)
    then have n: "?n < length es" and less: "fst (es ! ?n) < target" using es by auto
    show ?thesis by (rule less_trans [OF keys_sorted_less [OF sorted j n] less])
  qed
  then have "lower_bound target es = ?n + lower_bound target (drop ?n es)" using n by (intro lower_bound_drop) auto
  then show ?thesis using it1(1) it' l(2) by (simp add: iter_Seek_def)
qed

lemma iter_SeekToFirst_spec:
  assumes over: "iter_over es ss rs it"
  shows "\<exists>it'. iter_SeekToFirst le it = Some it' \<and> at_entry es ss rs 0 it'"
proof -
  have laid: "laid_out (iter_data it) es ss rs" using over by (simp add: iter_over_def)
  then have "0 < length rs" "rs ! 0 = 0" using laid_out_size(4) [OF laid] by (auto simp: laid_out_def points_ok_def)
  then obtain it1 where "SeekToRestartPoint le 0 it = Some it1" "before_entry es ss rs 0 it1"
    using SeekToRestartPoint_spec [OF over, of 0 le] by (auto split: if_splits)
  then show ?thesis using ParseNextKey_spec [of es ss rs 0 it1 le] by (auto simp: iter_SeekToFirst_def)
qed

subsection \<open>The interface\<close>

definition block_over :: "entry list \<Rightarrow> iterator \<Rightarrow> bool" where
  "block_over es i \<longleftrightarrow> (\<exists>it ss rs. i = BlockIter it \<and> iter_over es ss rs it)"

definition block_at :: "entry list \<Rightarrow> nat \<Rightarrow> iterator \<Rightarrow> bool" where
  "block_at es n i \<longleftrightarrow> (\<exists>it ss rs. i = BlockIter it \<and> at_entry es ss rs n it)"

interpretation blk: sorted_iterator Valid it_key it_value "Next le" "Seek le" "SeekToFirst le" "\<lambda>i. iterator_status i = OK"
  block_over block_at for le
proof
  fix es n i assume "block_at es n i"
  then obtain it ss rs where i: "i = BlockIter it" "at_entry es ss rs n it" by (auto simp: block_at_def)
  then have over: "iter_over es ss rs it" by (simp add: at_entry_def)
  have laid: "laid_out (iter_data it) es ss rs" and lim: "unat (iter_restarts it) = pos es ss (length es)"
    using over by (simp_all add: iter_over_def)
  note sz = laid_out_size [OF laid]
  show "block_over es i" using i(1) over by (auto simp: block_over_def)
  have "pos es ss n < pos es ss (length es)" if "n < length es"
    using pos_mono [OF sz(3), of "Suc n" "length es"] that
      pos_Suc [OF sz(3) that] entry_header_nonempty [of "ss ! n" "fst (es ! n)" "snd (es ! n)"]
    unfolding chunks_nth [OF sz(3) that] entry_bytes_def length_append by linarith
  then show "n \<le> length es \<and> (Valid i \<longleftrightarrow> n < length es) \<and> iterator_status i = OK"
    using i over lim by (auto simp: at_entry_def iter_Valid_def word_less_nat_alt iter_over_def split: if_splits)
  assume n: "n < length es"
  have "pos es ss (Suc n) \<le> length (iter_data it)" using pos_mono [OF sz(3), of "Suc n" "length es"] n sz(1) by simp
  then show "it_key i = Some (fst (es ! n)) \<and> it_value i = Some (snd (es ! n))" using i n by (simp add: at_entry_def)
  obtain it' where "ParseNextKey le it = Some (Suc n < length es, it')" "at_entry es ss rs (Suc n) it'"
    using ParseNextKey_spec [OF at_before [OF i(2) n]] by blast
  then show "\<exists>i'. Next le i = Some i' \<and> block_at es (Suc n) i'" using i(1) by (auto simp: iter_Next_def block_at_def)
next
  fix es i assume "block_over es i"
  then obtain it ss rs where i: "i = BlockIter it" "iter_over es ss rs it" by (auto simp: block_over_def)
  then show "\<exists>i'. SeekToFirst le i = Some i' \<and> block_at es 0 i'"
    using iter_SeekToFirst_spec [OF i(2)] by (fastforce simp: block_at_def)
  show "\<exists>i'. Seek le target i = Some i' \<and> block_at es (lower_bound target es) i'" if "keys_sorted es" for target
    using iter_Seek_spec [OF i(2) that] i(1) by (fastforce simp: block_at_def)
qed

text \<open>Opening a finished block.\<close>

lemma open_block:
  assumes b: "builder_ok b es ss rs" and size: "length (fst (Finish le b)) < 2 ^ 32"
  shows "\<exists>blk i. Block le' (fst (Finish le b)) = Some blk \<and> NewIterator le' blk = Some i \<and> block_over es i"
proof -
  define data where "data = fst (Finish le b)"
  have bytes: "data = block_bytes es ss rs" by (simp add: data_def Finish_bytes [OF b])
  then have laid: "laid_out data es ss rs" using b size by (simp add: laid_out_def builder_ok_def data_def)
  note sz = laid_out_size [OF laid]
  have num: "DecodeFixed32 le' (drop (length data - 4) data) = Some (word_of_nat (length rs))"
  proof -
    have "drop (length data - 4) data = EncodeFixed32 True (word_of_nat (length rs))" by (simp add: bytes block_bytes_def)
    then show ?thesis using fixed_decode(2) [of le' True _ "[]"] by simp
  qed
  have u: "unat (word_of_nat (length rs) :: u32) = length rs" using sz by (intro unat_of_nat_32) simp
  have u1: "unat (1 + word_of_nat (length rs) :: u32) = Suc (length rs)"
    using unat_of_nat_32 [of "Suc (length rs)"] sz by simp
  have off: "unat (word_of_nat (length data - Suc (length rs) * 4) :: u32) = pos es ss (length es)"
    using sz by (subst unat_of_nat_32) simp_all
  define blk where "blk = \<lparr>block_data = data, block_size = length data, restart_offset = word_of_nat (length data - Suc (length rs) * 4)\<rparr>"
  have "Block le' data = Some blk"
    using sz num u u1 by (simp add: Block_def NumRestarts_def Let_def blk_def del: of_nat_diff of_nat_Suc)
  moreover have "(word_of_nat (length rs) :: u32) \<noteq> 0" using u sz(4) by auto
  then have "NewIterator le' blk = Some (BlockIter (Iter data (restart_offset blk) (word_of_nat (length rs))))"
    using sz num by (simp add: NewIterator_def NumRestarts_def blk_def)
  moreover have "iter_over es ss rs (Iter data (restart_offset blk) (word_of_nat (length rs)))"
    using laid off u by (simp add: iter_over_def Iter_def blk_def)
  ultimately show ?thesis unfolding data_def [symmetric] block_over_def by blast
qed

end
