(* ===== verification/BlockProps.thy ===== *)
theory BlockProps
  imports BlockIter
begin

text \<open>
  What holds of blocks: building and iterating, building and searching, and the entry whose lengths wrap around.
\<close>

definition build_block :: "bool \<Rightarrow> int \<Rightarrow> entry list \<Rightarrow> u8 list" where
  "build_block le interval es = fst (Finish le (foldl (\<lambda>b (k, v). Add interval k v b) BlockBuilder es))"

lemma build_block_opens:
  assumes "length (build_block le interval es) < 2 ^ 32"
  shows "\<exists>b i. Block le' (build_block le interval es) = Some b \<and> NewIterator le' b = Some i \<and> block_over es i"
proof -
  obtain ss rs where "builder_ok (foldl (\<lambda>b (k, v). Add interval k v b) BlockBuilder es) es ss rs" using build_ok by blast
  from open_block [OF this] assms show ?thesis unfolding build_block_def by blast
qed

text \<open>What is put into a block comes out of it: whatever the keys, the restart interval and the byte orders of the writing and the
  reading host, iterating over the block that was built yields exactly the entries that were added, in order.\<close>

theorem block_roundtrip:
  assumes "length (build_block le interval es) < 2 ^ 32"
  shows "\<exists>b i i'. Block le' (build_block le interval es) = Some b \<and> NewIterator le' b = Some i \<and> SeekToFirst le' i = Some i' \<and>
    scan Valid it_key it_value (Next le') (Suc (length es)) i' = Some es"
proof -
  obtain b i where "Block le' (build_block le interval es) = Some b" "NewIterator le' b = Some i" "block_over es i"
    using build_block_opens [OF assms] by blast
  then show ?thesis using blk.scan_all [of es i "Suc (length es)" le'] by auto
qed

text \<open>C12: Searching a block whose keys were added in increasing order finds a key if and only if it was added, and then its value: the binary
  search over the restart points and the linear search behind it refine the lookup in the finite map of the entries. The
  search ends and reports no corruption.\<close>

theorem block_lookup:
  assumes "length (build_block le interval es) < 2 ^ 32" "keys_sorted es"
  shows "\<exists>b i i'. Block le' (build_block le interval es) = Some b \<and> NewIterator le' b = Some i \<and> Seek le' target i = Some i' \<and>
    iterator_status i' = OK \<and> map_of es target = (if Valid i' \<and> it_key i' = Some target then it_value i' else None)"
proof -
  obtain b i where "Block le' (build_block le interval es) = Some b" "NewIterator le' b = Some i" "block_over es i"
    using build_block_opens [OF assms(1)] by blast
  then show ?thesis using blk.seek_lookup [OF _ assms(2), of i le' target] by auto
qed

definition sample_entries :: "entry list" where
  "sample_entries = [([1, 2], [7]), ([1, 3], [])]"

lemma sample_block: "length (build_block True 16 sample_entries) = 18"
  by (simp add: build_block_def sample_entries_def Finish_def BlockBuilder_def Add_def Let_def PutVarint32_def PutFixed32_def EncodeVarint32_def)

theorem block_roundtrip_witness:
  "\<exists>b i i'. Block False (build_block True 16 sample_entries) = Some b \<and> NewIterator False b = Some i \<and> SeekToFirst False i = Some i' \<and>
    scan Valid it_key it_value (Next False) 3 i' = Some sample_entries"
  using block_roundtrip [of True 16 sample_entries False] sample_block by (simp add: sample_entries_def numeral_3_eq_3)

theorem block_lookup_witness:
  "\<exists>b i i'. Block False (build_block True 16 sample_entries) = Some b \<and> NewIterator False b = Some i \<and> Seek False [1, 2] i = Some i' \<and>
    it_value i' = Some [7]"
proof -
  have "keys_sorted sample_entries" "map_of sample_entries [1, 2] = Some [7]" by (simp_all add: keys_sorted_def sample_entries_def)
  then show ?thesis using block_lookup [of True 16 sample_entries False "[1, 2]"] sample_block by (auto split: if_splits)
qed



end
