(* ===== verification/TensorShape.thy ===== *)
theory TensorShape
  imports C_Prelude
begin

text \<open>
  \<open>core/framework/tensor_shape.h\<close> and \<open>.cc\<close>: a shape keeps its dimensions in one of three packed
  representations and changes representation when a dimension does not fit. Sizes and element
  counts are \<open>int64\<close>; a product is wrapped to 64 bits (\<open>wrap64\<close>). A failing \<open>CHECK\<close> ends the process
  (\<open>None\<close>). The abstraction of a shape is the list of its dimensions, \<open>dim_sizes\<close>. What the unused
  part of the 16-byte buffer holds is of no consequence and is 0 after a change of representation.
\<close>

definition wrap64 :: "int \<Rightarrow> int" where
  "wrap64 n = (n + 2 ^ 63) mod 2 ^ 64 - 2 ^ 63"

lemma wrap64_id [simp]: "int64_range n \<Longrightarrow> wrap64 n = n"
  by (simp add: wrap64_def int64_range_def)

lemma wrap64_mult: "wrap64 (wrap64 a * b) = wrap64 (a * b)"
proof -
  have "(wrap64 a * b + 2 ^ 63) mod 2 ^ 64 = (a * b + 2 ^ 63) mod 2 ^ 64"
  proof -
    have "wrap64 a mod 2 ^ 64 = a mod 2 ^ 64" by (simp add: wrap64_def mod_diff_left_eq)
    then have "wrap64 a * b mod 2 ^ 64 = a * b mod 2 ^ 64" by (metis mod_mult_left_eq)
    then show ?thesis by (metis mod_add_left_eq)
  qed
  then show ?thesis by (simp add: wrap64_def)
qed

subsection \<open>The representation\<close>

datatype rep = Rep16 "16 word list" | Rep32 "32 word list" | RepOutOfLine "int list"

record tensor_shape =
  rep :: rep
  ndims_byte :: nat
  data_type :: nat
  num_elements :: int

definition kMaxElements :: int where "kMaxElements = push_bit 40 1"
definition MaxDimensions :: nat where "MaxDimensions = 255"
definition kMaxRep16 :: int where "kMaxRep16 = 32768"
definition kMaxRep32 :: int where "kMaxRep32 = push_bit 31 1 - 1"

definition DT_INVALID :: nat where "DT_INVALID = 0"

definition EmptyShape :: tensor_shape where
  "EmptyShape = \<lparr>rep = Rep16 (replicate 6 0), ndims_byte = 0, data_type = DT_INVALID, num_elements = 1\<rparr>"

definition dims :: "tensor_shape \<Rightarrow> nat" where
  "dims s = ndims_byte s"

definition dim_size :: "tensor_shape \<Rightarrow> nat \<Rightarrow> int" where
  "dim_size s d =
     (case rep s of
        Rep16 ds \<Rightarrow> sint (ds ! d)
      | Rep32 ds \<Rightarrow> sint (ds ! d)
      | RepOutOfLine ds \<Rightarrow> ds ! d)"

definition dim_sizes :: "tensor_shape \<Rightarrow> int list" where
  "dim_sizes s = map (dim_size s) [0..<dims s]"

definition AppendTo :: "tensor_shape \<Rightarrow> int list \<Rightarrow> int list" where
  "AppendTo s vals = vals @ dim_sizes s"

definition ClearAllButDataType :: "tensor_shape \<Rightarrow> tensor_shape" where
  "ClearAllButDataType s = s\<lparr>rep := Rep16 (replicate 6 0), ndims_byte := 0, num_elements := 1\<rparr>"

definition Clear :: "tensor_shape \<Rightarrow> tensor_shape" where
  "Clear s = (ClearAllButDataType s)\<lparr>data_type := DT_INVALID\<rparr>"

subsection \<open>Operations\<close>

definition change_rep :: "tensor_shape \<Rightarrow> int \<Rightarrow> rep" where
  "change_rep s sz =
     (let vals = AppendTo s [] @ [sz];
          can_be_rep32 = (length vals \<le> 3 \<and> list_all (\<lambda>v. \<not> v \<ge> kMaxRep32) vals)
      in if can_be_rep32 then Rep32 (map word_of_int vals @ replicate (3 - length vals) 0)
         else RepOutOfLine vals)"

definition AddDim :: "int \<Rightarrow> tensor_shape \<Rightarrow> tensor_shape option" where
  "AddDim sz s =
     (let nd = ndims_byte s in
      if \<not> sz \<ge> 0 \<or> \<not> nd < MaxDimensions then None
      else
        let r = (case rep s of
                   Rep16 ds \<Rightarrow> if nd < 6 \<and> sz < kMaxRep16 then Rep16 (ds[nd := word_of_int sz]) else change_rep s sz
                 | Rep32 ds \<Rightarrow> if nd < 3 \<and> sz < kMaxRep32 then Rep32 (ds[nd := word_of_int sz]) else change_rep s sz
                 | RepOutOfLine ds \<Rightarrow> RepOutOfLine (ds @ [sz]));
            n = wrap64 (num_elements s * sz)
        in if 0 \<le> n \<and> n \<le> kMaxElements then Some (s\<lparr>rep := r, ndims_byte := nd + 1, num_elements := n\<rparr>) else None)"

fun AddDims :: "int list \<Rightarrow> tensor_shape \<Rightarrow> tensor_shape option" where
  "AddDims [] s = Some s"
| "AddDims (d # ds) s = (case AddDim d s of None \<Rightarrow> None | Some s \<Rightarrow> AddDims ds s)"

definition MkTensorShape :: "int list \<Rightarrow> tensor_shape option" where
  "MkTensorShape sizes = AddDims sizes EmptyShape"

definition AppendShape :: "tensor_shape \<Rightarrow> tensor_shape \<Rightarrow> tensor_shape option" where
  "AppendShape shape s = AddDims (dim_sizes shape) s"

definition InsertDim :: "int \<Rightarrow> int \<Rightarrow> tensor_shape \<Rightarrow> tensor_shape option" where
  "InsertDim d sz s =
     (if \<not> d \<ge> 0 \<or> \<not> d \<le> int (dims s) \<or> \<not> sz \<ge> 0 \<or> \<not> dims s < MaxDimensions then None
      else let vals = AppendTo s [];
               vals = take (nat d) vals @ sz # drop (nat d) vals
           in AddDims vals (ClearAllButDataType s))"

fun recompute_loop :: "int list \<Rightarrow> int \<Rightarrow> int option" where
  "recompute_loop [] n = Some n"
| "recompute_loop (v # vs) n =
     (let n = wrap64 (n * v) in if 0 \<le> n \<and> n \<le> kMaxElements then recompute_loop vs n else None)"

definition RecomputeNumElements :: "tensor_shape \<Rightarrow> tensor_shape option" where
  "RecomputeNumElements s =
     (case recompute_loop (dim_sizes s) 1 of None \<Rightarrow> None | Some n \<Rightarrow> Some (s\<lparr>num_elements := n\<rparr>))"

definition set_dim :: "int \<Rightarrow> int \<Rightarrow> tensor_shape \<Rightarrow> tensor_shape option" where
  "set_dim d sz s =
     (if \<not> d \<ge> 0 \<or> \<not> d < int (dims s) \<or> \<not> sz \<ge> 0 then None
      else
        let i = nat d;
            upgrade = AddDims ((AppendTo s [])[i := sz]) (ClearAllButDataType s)
        in case (case rep s of
                   Rep16 ds \<Rightarrow> if sz < kMaxRep16 then Some (s\<lparr>rep := Rep16 (ds[i := word_of_int sz])\<rparr>) else upgrade
                 | Rep32 ds \<Rightarrow> if sz < kMaxRep32 then Some (s\<lparr>rep := Rep32 (ds[i := word_of_int sz])\<rparr>) else upgrade
                 | RepOutOfLine ds \<Rightarrow> Some (s\<lparr>rep := RepOutOfLine (ds[i := sz])\<rparr>)) of
             None \<Rightarrow> None
           | Some s \<Rightarrow> RecomputeNumElements s)"

definition RemoveDim :: "int \<Rightarrow> tensor_shape \<Rightarrow> tensor_shape option" where
  "RemoveDim d s =
     (if \<not> d \<ge> 0 \<or> \<not> d < int (dims s) then None
      else let vals = AppendTo s [];
               vals = take (nat d) vals @ drop (nat d + 1) vals
           in case AddDims vals (ClearAllButDataType s) of None \<Rightarrow> None | Some s \<Rightarrow> RecomputeNumElements s)"

fun same_dims :: "nat list \<Rightarrow> tensor_shape \<Rightarrow> tensor_shape \<Rightarrow> bool" where
  "same_dims [] s b = True"
| "same_dims (d # ds) s b = (if dim_size s d \<noteq> dim_size b d then False else same_dims ds s b)"

definition IsSameSize :: "tensor_shape \<Rightarrow> tensor_shape \<Rightarrow> bool" where
  "IsSameSize s b = (if dims b \<noteq> dims s then False else same_dims [0..<dims s] s b)"

definition StartsWith :: "tensor_shape \<Rightarrow> tensor_shape \<Rightarrow> bool" where
  "StartsWith shape prefix = (if dims shape < dims prefix then False else same_dims [0..<dims prefix] shape prefix)"

text \<open>The sizes of a \<open>TensorShapeProto\<close> are a list.\<close>

fun is_valid_loop :: "int list \<Rightarrow> int \<Rightarrow> bool" where
  "is_valid_loop [] n = True"
| "is_valid_loop (d # ds) n =
     (if d < 0 then False
      else let n = wrap64 (n * d) in if n > kMaxElements then False else is_valid_loop ds n)"

definition IsValid :: "int list \<Rightarrow> bool" where
  "IsValid proto = (if length proto > MaxDimensions then False else is_valid_loop proto 1)"

fun make_shape_loop :: "int list \<Rightarrow> tensor_shape \<Rightarrow> (bool \<times> tensor_shape) option" where
  "make_shape_loop [] out = Some (True, out)"
| "make_shape_loop (dim # ds) out =
     (if dim \<ge> 0 then (case AddDim dim out of None \<Rightarrow> None | Some out \<Rightarrow> make_shape_loop ds out)
      else Some (False, out))"

text \<open>\<open>MakeShape\<close>: the status (true: OK, false: \<open>InvalidArgument\<close>) and the shape.\<close>

definition MakeShape :: "int list \<Rightarrow> (bool \<times> tensor_shape) option" where
  "MakeShape ds = (if length ds > MaxDimensions then Some (False, EmptyShape) else make_shape_loop ds EmptyShape)"

definition AsEigenDSizesWithPadding :: "nat \<Rightarrow> tensor_shape \<Rightarrow> int list option" where
  "AsEigenDSizesWithPadding NDIMS s =
     (if \<not> NDIMS \<ge> dims s then None else Some (dim_sizes s @ replicate (NDIMS - dims s) 1))"


subsection \<open>The abstraction: the list of dimensions\<close>

definition wf_shape :: "tensor_shape \<Rightarrow> bool" where
  "wf_shape s \<longleftrightarrow> dims s \<le> MaxDimensions \<and>
     (case rep s of
        Rep16 ds \<Rightarrow> length ds = 6 \<and> dims s \<le> 6
      | Rep32 ds \<Rightarrow> length ds = 3 \<and> dims s \<le> 3
      | RepOutOfLine ds \<Rightarrow> length ds = dims s) \<and>
     (\<forall>d \<in> set (dim_sizes s). 0 \<le> d)"

lemma length_dim_sizes [simp]: "length (dim_sizes s) = dims s"
  by (simp add: dim_sizes_def)

lemma dim_sizes_EmptyShape [simp]: "dim_sizes EmptyShape = []" "dims EmptyShape = 0" "wf_shape EmptyShape"
  by (simp_all add: EmptyShape_def dim_sizes_def dims_def wf_shape_def)

lemma dim_sizes_Clear [simp]: "dim_sizes (ClearAllButDataType s) = []" "wf_shape (ClearAllButDataType s)"
  "num_elements (ClearAllButDataType s) = 1" "dims (ClearAllButDataType s) = 0" "dim_sizes (Clear s) = []"
  by (simp_all add: ClearAllButDataType_def Clear_def dim_sizes_def dims_def wf_shape_def)

lemma sint16: "0 \<le> n \<Longrightarrow> n < kMaxRep16 \<Longrightarrow> sint (word_of_int n :: 16 word) = n"
  by (simp add: kMaxRep16_def signed_of_int signed_take_bit_int_eq_self)

lemma sint32: "0 \<le> n \<Longrightarrow> n < kMaxRep32 \<Longrightarrow> sint (word_of_int n :: 32 word) = n"
  by (simp add: kMaxRep32_def signed_of_int signed_take_bit_int_eq_self)

lemma map_nth_take: "n \<le> length xs \<Longrightarrow> map (\<lambda>d. f (xs ! d)) [0..<n] = map f (take n xs)"
  by (induction n) (simp_all add: take_Suc_conv_app_nth)

definition rep_dims :: "rep \<Rightarrow> nat \<Rightarrow> int list" where
  "rep_dims r n = (case r of Rep16 ds \<Rightarrow> map sint (take n ds) | Rep32 ds \<Rightarrow> map sint (take n ds) | RepOutOfLine ds \<Rightarrow> take n ds)"

definition rep_ok :: "rep \<Rightarrow> nat \<Rightarrow> bool" where
  "rep_ok r n \<longleftrightarrow> (case r of Rep16 ds \<Rightarrow> length ds = 6 \<and> n \<le> 6 | Rep32 ds \<Rightarrow> length ds = 3 \<and> n \<le> 3
      | RepOutOfLine ds \<Rightarrow> length ds = n)"

lemma dim_sizes_rep: "rep_ok (rep s) (dims s) \<Longrightarrow> dim_sizes s = rep_dims (rep s) (dims s)"
  by (cases "rep s")
    (simp_all add: dim_sizes_def dim_size_def [abs_def] rep_ok_def rep_dims_def map_nth_take, metis map_nth)

lemma wf_shape_iff:
  "wf_shape s \<longleftrightarrow> dims s \<le> MaxDimensions \<and> rep_ok (rep s) (dims s) \<and> (\<forall>d \<in> set (dim_sizes s). 0 \<le> d)"
  by (simp add: wf_shape_def rep_ok_def)

lemma change_rep_sizes:
  assumes "\<forall>v\<in>set (dim_sizes s). 0 \<le> v" "0 \<le> x"
  shows "rep_dims (change_rep s x) (Suc (dims s)) = dim_sizes s @ [x] \<and> rep_ok (change_rep s x) (Suc (dims s))"
proof (cases "Suc (dims s) \<le> 3 \<and> list_all (\<lambda>v. \<not> v \<ge> kMaxRep32) (dim_sizes s @ [x])")
  case True
  then have "\<forall>v\<in>set (dim_sizes s). sint (word_of_int v :: 32 word) = v" "sint (word_of_int x :: 32 word) = x"
    using assms by (auto intro!: sint32 simp: list_all_iff)
  then have "map (sint \<circ> (word_of_int :: int \<Rightarrow> 32 word)) (dim_sizes s) = dim_sizes s"
    by (intro map_idI) simp
  then show ?thesis using True \<open>sint (word_of_int x :: 32 word) = x\<close>
    by (simp add: change_rep_def AppendTo_def Let_def rep_dims_def rep_ok_def)
next
  case False
  then show ?thesis
    by (auto simp: change_rep_def AppendTo_def Let_def rep_dims_def rep_ok_def)
qed

definition add_rep :: "tensor_shape \<Rightarrow> int \<Rightarrow> rep" where
  "add_rep s sz = (let nd = ndims_byte s in case rep s of
                   Rep16 ds \<Rightarrow> if nd < 6 \<and> sz < kMaxRep16 then Rep16 (ds[nd := word_of_int sz]) else change_rep s sz
                 | Rep32 ds \<Rightarrow> if nd < 3 \<and> sz < kMaxRep32 then Rep32 (ds[nd := word_of_int sz]) else change_rep s sz
                 | RepOutOfLine ds \<Rightarrow> RepOutOfLine (ds @ [sz]))"

lemma add_rep_sizes:
  assumes "wf_shape s" "0 \<le> x"
  shows "rep_dims (add_rep s x) (Suc (dims s)) = dim_sizes s @ [x] \<and> rep_ok (add_rep s x) (Suc (dims s))"
proof -
  have w: "rep_ok (rep s) (dims s)" "\<forall>v\<in>set (dim_sizes s). 0 \<le> v" using assms(1) by (simp_all add: wf_shape_iff)
  note ch = change_rep_sizes [OF w(2) assms(2)]
  show ?thesis
  proof (cases "rep s")
    case (Rep16 ds)
    then show ?thesis using ch w dim_sizes_rep [OF w(1)] assms(2)
      by (auto simp: add_rep_def Let_def dims_def rep_ok_def rep_dims_def take_Suc_conv_app_nth sint16)
  next
    case (Rep32 ds)
    then show ?thesis using ch w dim_sizes_rep [OF w(1)] assms(2)
      by (auto simp: add_rep_def Let_def dims_def rep_ok_def rep_dims_def take_Suc_conv_app_nth sint32)
  next
    case (RepOutOfLine ds)
    then show ?thesis using w dim_sizes_rep [OF w(1)]
      by (simp add: add_rep_def Let_def dims_def rep_ok_def rep_dims_def)
  qed
qed

text \<open>The element count a dimension leads to, when the checks accept it.\<close>

definition accept :: "int \<Rightarrow> int \<Rightarrow> bool" where
  "accept n x \<longleftrightarrow> 0 \<le> x \<and> 0 \<le> wrap64 (n * x) \<and> wrap64 (n * x) \<le> kMaxElements"

lemma AddDim_eq:
  "AddDim x s = (if accept (num_elements s) x \<and> dims s < MaxDimensions
     then Some (s\<lparr>rep := add_rep s x, ndims_byte := Suc (dims s), num_elements := wrap64 (num_elements s * x)\<rparr>) else None)"
  by (simp add: AddDim_def add_rep_def accept_def Let_def dims_def)

lemma AddDim_dims:
  assumes "wf_shape s" "AddDim x s = Some s'"
  shows "dim_sizes s' = dim_sizes s @ [x] \<and> wf_shape s' \<and> num_elements s' = wrap64 (num_elements s * x)
    \<and> dims s' = Suc (dims s) \<and> data_type s' = data_type s"
proof -
  have x: "0 \<le> x" "dims s < MaxDimensions" using assms(2) by (auto simp: AddDim_eq accept_def split: if_splits)
  note add = add_rep_sizes [OF assms(1) x(1)]
  have s': "rep s' = add_rep s x" "dims s' = Suc (dims s)" "num_elements s' = wrap64 (num_elements s * x)" "data_type s' = data_type s"
    using assms(2) by (auto simp: AddDim_eq dims_def split: if_splits)
  then have "dim_sizes s' = dim_sizes s @ [x]" using add dim_sizes_rep [of s'] by simp
  moreover from this have "wf_shape s'"
    using s' add x assms(1) unfolding wf_shape_iff by auto
  ultimately show ?thesis using s' by simp
qed

text \<open>The list of dimensions a fresh shape can be given: every prefix product passes the checks.\<close>

fun accepted :: "int \<Rightarrow> int list \<Rightarrow> bool" where
  "accepted n [] \<longleftrightarrow> True"
| "accepted n (x # xs) \<longleftrightarrow> accept n x \<and> accepted (wrap64 (n * x)) xs"

lemma AddDims_dims:
  assumes "wf_shape s"
  shows "(case AddDims xs s of
      None \<Rightarrow> \<not> (accepted (num_elements s) xs \<and> dims s + length xs \<le> MaxDimensions)
    | Some s' \<Rightarrow> accepted (num_elements s) xs \<and> dims s + length xs \<le> MaxDimensions \<and>
        dim_sizes s' = dim_sizes s @ xs \<and> wf_shape s' \<and> num_elements s' = foldl (\<lambda>n x. wrap64 (n * x)) (num_elements s) xs
        \<and> data_type s' = data_type s)"
  using assms
proof (induction xs arbitrary: s)
  case Nil
  then show ?case by (simp add: wf_shape_iff)
next
  case (Cons x xs)
  show ?case
  proof (cases "AddDim x s")
    case None
    then show ?thesis by (auto simp: AddDim_eq split: if_splits)
  next
    case (Some s1)
    note a = AddDim_dims [OF Cons.prems Some]
    have "accept (num_elements s) x" using Some by (auto simp: AddDim_eq split: if_splits)
    then show ?thesis using Cons.IH [of s1] a Some by (auto split: option.splits)
  qed
qed


definition count :: "int \<Rightarrow> int list \<Rightarrow> int" where
  "count n xs = foldl (\<lambda>n x. wrap64 (n * x)) n xs"

lemma accepted_append: "accepted n (xs @ ys) \<longleftrightarrow> accepted n xs \<and> accepted (count n xs) ys"
  by (induction xs arbitrary: n) (auto simp: count_def)

lemma count_append: "count n (xs @ ys) = count (count n xs) ys"
  by (simp add: count_def)

lemma accepted_nonneg: "accepted n xs \<Longrightarrow> x \<in> set xs \<Longrightarrow> 0 \<le> x"
  by (induction xs arbitrary: n) (auto simp: accept_def)

lemma count_prod: "count (wrap64 n) xs = wrap64 (n * prod_list xs)"
  by (induction xs arbitrary: n) (simp_all add: count_def wrap64_mult mult.assoc)

lemma count_1: "count 1 xs = wrap64 (prod_list xs)"
  using count_prod [of 1 xs] by (simp add: int64_range_def)

text \<open>The invariant of every shape a client can build.\<close>

definition shape_inv :: "tensor_shape \<Rightarrow> bool" where
  "shape_inv s \<longleftrightarrow> wf_shape s \<and> accepted 1 (dim_sizes s) \<and> num_elements s = wrap64 (prod_list (dim_sizes s))"

lemma shape_inv_Empty [simp]: "shape_inv EmptyShape"
  by (simp add: shape_inv_def) (simp add: EmptyShape_def int64_range_def)

lemma AddDims_inv:
  assumes "shape_inv s"
  shows "case AddDims xs s of
      None \<Rightarrow> \<not> (accepted 1 (dim_sizes s @ xs) \<and> dims s + length xs \<le> MaxDimensions)
    | Some s' \<Rightarrow> accepted 1 (dim_sizes s @ xs) \<and> dims s + length xs \<le> MaxDimensions \<and>
        shape_inv s' \<and> dim_sizes s' = dim_sizes s @ xs \<and> data_type s' = data_type s"
proof -
  have c: "count 1 (dim_sizes s) = num_elements s" using assms by (simp add: shape_inv_def count_1)
  then have a: "accepted 1 (dim_sizes s @ xs) \<longleftrightarrow> accepted (num_elements s) xs"
    using assms by (simp add: accepted_append shape_inv_def)
  have n: "foldl (\<lambda>n x. wrap64 (n * x)) (wrap64 (prod_list (dim_sizes s))) xs = wrap64 (prod_list (dim_sizes s) * prod_list xs)"
    using count_prod [of "prod_list (dim_sizes s)" xs] by (simp add: count_def)
  show ?thesis using AddDims_dims [of s xs] assms unfolding a
    by (auto simp: shape_inv_def a n split: option.splits) 
qed

lemma AddDims_fresh:
  "case AddDims xs (ClearAllButDataType s) of
      None \<Rightarrow> \<not> (accepted 1 xs \<and> length xs \<le> MaxDimensions)
    | Some s' \<Rightarrow> accepted 1 xs \<and> length xs \<le> MaxDimensions \<and> shape_inv s' \<and> dim_sizes s' = xs \<and> data_type s' = data_type s"
proof -
  have "shape_inv (ClearAllButDataType s)" by (simp add: shape_inv_def int64_range_def)
  from AddDims_inv [OF this, of xs] show ?thesis
    by (auto split: option.splits) (simp_all add: ClearAllButDataType_def)
qed

lemma recompute_loop_eq:
  "\<forall>x\<in>set xs. 0 \<le> x \<Longrightarrow> recompute_loop xs n = (if accepted n xs then Some (count n xs) else None)"
  by (induction xs arbitrary: n) (auto simp: accept_def count_def Let_def)

lemma Recompute_inv:
  assumes "wf_shape s"
  shows "case RecomputeNumElements s of
      None \<Rightarrow> \<not> accepted 1 (dim_sizes s)
    | Some s' \<Rightarrow> accepted 1 (dim_sizes s) \<and> shape_inv s' \<and> dim_sizes s' = dim_sizes s \<and> data_type s' = data_type s"
proof -
  have d: "dims (s\<lparr>num_elements := n\<rparr>) = dims s" for n by (simp add: dims_def)
  then have "dim_sizes (s\<lparr>num_elements := n\<rparr>) = dim_sizes s" for n
    by (simp add: dim_sizes_def dim_size_def [abs_def])
  moreover from this have "wf_shape (s\<lparr>num_elements := n\<rparr>) = wf_shape s" for n
    by (simp add: wf_shape_iff d)
  ultimately show ?thesis using assms
    by (simp add: RecomputeNumElements_def recompute_loop_eq wf_shape_iff shape_inv_def count_1)
qed

lemma AddDims_recompute:
  assumes "length l \<le> MaxDimensions"
  shows "case (case AddDims l (ClearAllButDataType s) of None \<Rightarrow> None | Some s \<Rightarrow> RecomputeNumElements s) of
      None \<Rightarrow> \<not> accepted 1 l
    | Some s' \<Rightarrow> accepted 1 l \<and> shape_inv s' \<and> dim_sizes s' = l"
proof (cases "AddDims l (ClearAllButDataType s)")
  case None
  then show ?thesis using AddDims_fresh [of l s] assms by simp
next
  case (Some s')
  then have s': "accepted 1 l" "wf_shape s'" "dim_sizes s' = l"
    using AddDims_fresh [of l s] by (simp_all add: shape_inv_def)
  then show ?thesis using Some Recompute_inv [OF s'(2)] by (simp split: option.splits)
qed

lemma set_rep_sizes:
  assumes "wf_shape s" "d < dims s" "0 \<le> x"
  shows "rep s = Rep16 ds \<Longrightarrow> x < kMaxRep16 \<Longrightarrow>
      wf_shape (s\<lparr>rep := Rep16 (ds[d := word_of_int x])\<rparr>) \<and> dim_sizes (s\<lparr>rep := Rep16 (ds[d := word_of_int x])\<rparr>) = (dim_sizes s)[d := x]"
    and "rep s = Rep32 ds' \<Longrightarrow> x < kMaxRep32 \<Longrightarrow>
      wf_shape (s\<lparr>rep := Rep32 (ds'[d := word_of_int x])\<rparr>) \<and> dim_sizes (s\<lparr>rep := Rep32 (ds'[d := word_of_int x])\<rparr>) = (dim_sizes s)[d := x]"
    and "rep s = RepOutOfLine ds'' \<Longrightarrow>
      wf_shape (s\<lparr>rep := RepOutOfLine (ds''[d := x])\<rparr>) \<and> dim_sizes (s\<lparr>rep := RepOutOfLine (ds''[d := x])\<rparr>) = (dim_sizes s)[d := x]"
proof -
  have w: "rep_ok (rep s) (dims s)" "dims s \<le> MaxDimensions" "\<forall>v\<in>set (dim_sizes s). 0 \<le> v"
    using assms(1) by (simp_all add: wf_shape_iff)
  have nn: "\<forall>v\<in>set ((dim_sizes s)[d := x]). 0 \<le> v" using w(3) assms(3) 
    by (auto dest!: subsetD [OF set_update_subset_insert])
  have go: "wf_shape s' \<and> dim_sizes s' = (dim_sizes s)[d := x]"
    if "rep_ok (rep s') (dims s)" "dims s' = dims s" "rep_dims (rep s') (dims s) = (rep_dims (rep s) (dims s))[d := x]" for s'
    using that dim_sizes_rep [of s'] dim_sizes_rep [OF w(1)] w(2) nn by (simp add: wf_shape_iff)
  show "rep s = Rep16 ds \<Longrightarrow> x < kMaxRep16 \<Longrightarrow>
      wf_shape (s\<lparr>rep := Rep16 (ds[d := word_of_int x])\<rparr>) \<and> dim_sizes (s\<lparr>rep := Rep16 (ds[d := word_of_int x])\<rparr>) = (dim_sizes s)[d := x]"
    by (rule go) (use w assms in \<open>auto simp: rep_ok_def rep_dims_def dims_def take_update_swap map_update sint16\<close>)
  show "rep s = Rep32 ds' \<Longrightarrow> x < kMaxRep32 \<Longrightarrow>
      wf_shape (s\<lparr>rep := Rep32 (ds'[d := word_of_int x])\<rparr>) \<and> dim_sizes (s\<lparr>rep := Rep32 (ds'[d := word_of_int x])\<rparr>) = (dim_sizes s)[d := x]"
    by (rule go) (use w assms in \<open>auto simp: rep_ok_def rep_dims_def dims_def take_update_swap map_update sint32\<close>)
  show "rep s = RepOutOfLine ds'' \<Longrightarrow>
      wf_shape (s\<lparr>rep := RepOutOfLine (ds''[d := x])\<rparr>) \<and> dim_sizes (s\<lparr>rep := RepOutOfLine (ds''[d := x])\<rparr>) = (dim_sizes s)[d := x]"
    by (rule go) (use w assms in \<open>auto simp: rep_ok_def rep_dims_def dims_def\<close>)
qed


lemma set_dim_inv:
  assumes "shape_inv s"
  shows "case set_dim d x s of
      None \<Rightarrow> \<not> (0 \<le> d \<and> d < int (dims s) \<and> 0 \<le> x \<and> accepted 1 ((dim_sizes s)[nat d := x]))
    | Some s' \<Rightarrow> 0 \<le> d \<and> d < int (dims s) \<and> 0 \<le> x \<and> accepted 1 ((dim_sizes s)[nat d := x]) \<and>
        shape_inv s' \<and> dim_sizes s' = (dim_sizes s)[nat d := x]"
proof (cases "0 \<le> d \<and> d < int (dims s) \<and> 0 \<le> x")
  case True
  let ?l = "(dim_sizes s)[nat d := x]"
  have wf: "wf_shape s" using assms by (simp add: shape_inv_def)
  have dd: "nat d < dims s" "length ?l \<le> MaxDimensions" using True wf by (linarith, simp add: wf_shape_iff)
  have x0: "0 \<le> x" using True by simp
  note rs = set_rep_sizes [OF wf dd(1) x0]
  have rec: "case RecomputeNumElements s' of None \<Rightarrow> \<not> accepted 1 ?l
      | Some s'' \<Rightarrow> accepted 1 ?l \<and> shape_inv s'' \<and> dim_sizes s'' = ?l"
    if "wf_shape s' \<and> dim_sizes s' = ?l" for s'
    using Recompute_inv [of s'] that by (auto split: option.splits)
  note up = AddDims_recompute [OF dd(2), of s]
  have "case set_dim d x s of None \<Rightarrow> \<not> accepted 1 ?l | Some s' \<Rightarrow> accepted 1 ?l \<and> shape_inv s' \<and> dim_sizes s' = ?l"
  proof (cases "rep s")
    case (Rep16 ds)
    show ?thesis
    proof (cases "x < kMaxRep16")
      case small: True
      show ?thesis using True small rs(1) [OF Rep16 small, THEN rec] by (simp add: set_dim_def Rep16 Let_def)
    next
      case False
      then show ?thesis using True up by (simp add: set_dim_def Rep16 AppendTo_def Let_def)
    qed
  next
    case (Rep32 ds)
    show ?thesis
    proof (cases "x < kMaxRep32")
      case small: True
      show ?thesis using True small rs(2) [OF Rep32 small, THEN rec] by (simp add: set_dim_def Rep32 Let_def)
    next
      case False
      then show ?thesis using True up by (simp add: set_dim_def Rep32 AppendTo_def Let_def)
    qed
  next
    case (RepOutOfLine ds)
    show ?thesis using True rs(3) [OF RepOutOfLine, THEN rec] by (simp add: set_dim_def RepOutOfLine Let_def)
  qed
  then show ?thesis using True by (auto split: option.splits)
qed (auto simp: set_dim_def)

lemma InsertDim_inv:
  assumes "shape_inv s"
  shows "case InsertDim d x s of
      None \<Rightarrow> \<not> (0 \<le> d \<and> d \<le> int (dims s) \<and> dims s < MaxDimensions \<and> accepted 1 (take (nat d) (dim_sizes s) @ x # drop (nat d) (dim_sizes s)))
    | Some s' \<Rightarrow> 0 \<le> d \<and> d \<le> int (dims s) \<and> dims s < MaxDimensions \<and> accepted 1 (take (nat d) (dim_sizes s) @ x # drop (nat d) (dim_sizes s)) \<and>
        shape_inv s' \<and> dim_sizes s' = take (nat d) (dim_sizes s) @ x # drop (nat d) (dim_sizes s)"
proof -
  let ?l = "take (nat d) (dim_sizes s) @ x # drop (nat d) (dim_sizes s)"
  have "0 \<le> x" if "accepted 1 ?l" using accepted_nonneg [OF that, of x] by simp
  then show ?thesis
    using AddDims_fresh [of ?l s]
    by (auto simp: InsertDim_def AppendTo_def Let_def split: option.splits)
qed

lemma RemoveDim_inv:
  assumes "shape_inv s"
  shows "case RemoveDim d s of
      None \<Rightarrow> \<not> (0 \<le> d \<and> d < int (dims s) \<and> accepted 1 (take (nat d) (dim_sizes s) @ drop (nat d + 1) (dim_sizes s)))
    | Some s' \<Rightarrow> 0 \<le> d \<and> d < int (dims s) \<and> accepted 1 (take (nat d) (dim_sizes s) @ drop (nat d + 1) (dim_sizes s)) \<and>
        shape_inv s' \<and> dim_sizes s' = take (nat d) (dim_sizes s) @ drop (nat d + 1) (dim_sizes s)"
proof (cases "0 \<le> d \<and> d < int (dims s)")
  case True
  let ?l = "take (nat d) (dim_sizes s) @ drop (nat d + 1) (dim_sizes s)"
  have "length ?l \<le> dims s" using True by simp
  then have "length ?l \<le> MaxDimensions" using assms by (simp add: shape_inv_def wf_shape_iff)
  from AddDims_recompute [OF this, of s]
  have "case RemoveDim d s of None \<Rightarrow> \<not> accepted 1 ?l | Some s' \<Rightarrow> accepted 1 ?l \<and> shape_inv s' \<and> dim_sizes s' = ?l"
    using True by (simp add: RemoveDim_def AppendTo_def Let_def)
  then show ?thesis using True by (auto split: option.splits)
qed (auto simp: RemoveDim_def)

lemma same_dims_iff: "same_dims ds s b \<longleftrightarrow> (\<forall>d\<in>set ds. dim_size s d = dim_size b d)"
  by (induction ds) auto

lemma IsSameSize_iff: "IsSameSize s b \<longleftrightarrow> dim_sizes s = dim_sizes b"
  by (auto simp: IsSameSize_def same_dims_iff dim_sizes_def dest: arg_cong [of _ _ length])

lemma is_valid_loop_accepted: "accepted n xs \<Longrightarrow> is_valid_loop xs n"
  by (induction xs arbitrary: n) (auto simp: accept_def Let_def)

lemma MakeShape_eq:
  "MakeShape xs = (if length xs > MaxDimensions then Some (False, EmptyShape) else make_shape_loop xs EmptyShape)"
  by (simp add: MakeShape_def)

subsection \<open>Properties\<close>

text \<open>C21: The packed shape implements a plain list of dimensions: on every shape a client can build, appending,
  inserting, changing and removing a dimension succeed exactly when the index is in range, the rank stays
  within 255 and every prefix product (wrapped to 64 bits) passes the element-count checks, and the
  result holds exactly the edited list, whichever of the three representations is used before and after.\<close>

theorem shape_refines_list:
  assumes "shape_inv s"
  shows "map_option dim_sizes (AddDim x s) =
      (if accepted 1 (dim_sizes s @ [x]) \<and> dims s < MaxDimensions then Some (dim_sizes s @ [x]) else None) \<and>
    map_option dim_sizes (InsertDim d x s) =
      (let l = take (nat d) (dim_sizes s) @ x # drop (nat d) (dim_sizes s)
       in if 0 \<le> d \<and> d \<le> int (dims s) \<and> dims s < MaxDimensions \<and> accepted 1 l then Some l else None) \<and>
    map_option dim_sizes (set_dim d x s) =
      (let l = (dim_sizes s)[nat d := x]
       in if 0 \<le> d \<and> d < int (dims s) \<and> 0 \<le> x \<and> accepted 1 l then Some l else None) \<and>
    map_option dim_sizes (RemoveDim d s) =
      (let l = take (nat d) (dim_sizes s) @ drop (nat d + 1) (dim_sizes s)
       in if 0 \<le> d \<and> d < int (dims s) \<and> accepted 1 l then Some l else None)"
proof (intro conjI)
  show "map_option dim_sizes (AddDim x s) =
      (if accepted 1 (dim_sizes s @ [x]) \<and> dims s < MaxDimensions then Some (dim_sizes s @ [x]) else None)"
    using AddDims_inv [OF assms, of "[x]"] by (auto split: option.splits)
qed (use InsertDim_inv [OF assms, of d x] set_dim_inv [OF assms, of d x] RemoveDim_inv [OF assms, of d]
     in \<open>auto simp: Let_def split: option.splits\<close>)

theorem shape_refines_list_witness:
  "map_option dim_sizes (AddDim 40000 EmptyShape) = Some [40000]"
  using shape_refines_list [of EmptyShape 40000 0]
  by (simp add: accept_def int64_range_def kMaxElements_def MaxDimensions_def)

text \<open>C22: No operation breaks a shape: every shape reached from the empty one by any operations keeps the
  representation invariant, non-negative dimensions, and an element count equal to the product of the dimensions
  modulo \<open>2 ^ 64\<close>.\<close>

theorem shape_invariant:
  assumes "shape_inv s"
    and "AddDim x s = Some s' \<or> InsertDim d x s = Some s' \<or> set_dim d x s = Some s' \<or> RemoveDim d s = Some s' \<or>
      AppendShape t s = Some s' \<or> Clear s = s' \<or> s' = EmptyShape"
  shows "shape_inv s' \<and> num_elements s' = wrap64 (prod_list (dim_sizes s'))"
proof -
  have "shape_inv (Clear s)"
    by (simp add: shape_inv_def wf_shape_iff) (simp add: Clear_def ClearAllButDataType_def rep_ok_def dims_def int64_range_def)
  moreover have "shape_inv s'" if "AddDims l s = Some s'" for l using AddDims_inv [OF assms(1), of l] that by simp
  moreover have "AddDims [x] s = AddDim x s" by (simp split: option.split)
  moreover have "shape_inv s'" if "InsertDim d x s = Some s'" using InsertDim_inv [OF assms(1), of d x] that by simp
  moreover have "shape_inv s'" if "set_dim d x s = Some s'" using set_dim_inv [OF assms(1), of d x] that by simp
  moreover have "shape_inv s'" if "RemoveDim d s = Some s'" using RemoveDim_inv [OF assms(1), of d] that by simp
  ultimately have "shape_inv s'" using assms(2) shape_inv_Empty unfolding AppendShape_def by metis
  then show ?thesis by (simp add: shape_inv_def)
qed

theorem shape_invariant_witness:
  "\<exists>s'. AddDim 7 EmptyShape = Some s' \<and> num_elements s' = 7"
proof -
  obtain s' where s': "AddDim 7 EmptyShape = Some s'" "dim_sizes s' = [7]"
    using AddDims_inv [of EmptyShape "[7]"]
    by (auto simp: accept_def int64_range_def kMaxElements_def MaxDimensions_def split: option.splits)
  then have "num_elements s' = 7"
    using shape_invariant [of EmptyShape 7 s' 0 EmptyShape] by (simp add: int64_range_def)
  with s' show ?thesis by blast
qed

text \<open>C23: The size limit can be passed by wrapping around: the checks of \<open>IsValid\<close> and of \<open>AddDim\<close> look at a product that
  has already been reduced modulo \<open>2 ^ 64\<close>, so a shape of \<open>2 ^ 64\<close> elements is accepted with a count of 0, and
  \<open>IsValid\<close> accepts dimensions (product \<open>2 ^ 63\<close>) on which the constructor it guards aborts the process.\<close>

theorem shape_overflow_accepted:
  "IsValid [2 ^ 40, 2 ^ 24] \<and> (\<exists>s. MkTensorShape [2 ^ 40, 2 ^ 24] = Some s \<and> num_elements s = 0 \<and> dim_sizes s = [2 ^ 40, 2 ^ 24]) \<and>
   IsValid [2 ^ 40, 2 ^ 23] \<and> MkTensorShape [2 ^ 40, 2 ^ 23] = None"
proof -
  have w: "wrap64 (2 ^ 40) = 2 ^ 40" "wrap64 (2 ^ 40 * 2 ^ 24) = 0" "wrap64 (2 ^ 40 * 2 ^ 23) = - (2 ^ 63)"
    by (simp_all add: wrap64_def)
  have a: "accepted 1 [2 ^ 40, 2 ^ 24]" "\<not> accepted 1 [2 ^ 40, 2 ^ 23]"
    using w by (simp_all add: accept_def kMaxElements_def)
  have v: "IsValid [2 ^ 40, 2 ^ 24]" "IsValid [2 ^ 40, 2 ^ 23]"
    using w by (simp_all add: IsValid_def kMaxElements_def MaxDimensions_def Let_def)
  from AddDims_inv [of EmptyShape "[2 ^ 40, 2 ^ 24]"] a(1)
  obtain s where s: "MkTensorShape [2 ^ 40, 2 ^ 24] = Some s" "dim_sizes s = [2 ^ 40, 2 ^ 24]" "shape_inv s"
    by (auto simp: MkTensorShape_def MaxDimensions_def split: option.splits)
  then have "num_elements s = 0" using w by (simp add: shape_inv_def)
  moreover have "MkTensorShape [2 ^ 40, 2 ^ 23] = None"
    using AddDims_inv [of EmptyShape "[2 ^ 40, 2 ^ 23]"] a(2) by (auto simp: MkTensorShape_def split: option.splits)
  ultimately show ?thesis using s v by blast
qed

end
