(* ===== verification/Numbers.thy ===== *)
theory Numbers
  imports C_Prelude "HOL-Library.Char_ord"
begin

text \<open>
  Decimal and hexadecimal text of machine integers (\<open>core/lib/strings/numbers.cc\<close>). A formatter writes into a
  buffer and returns its end: the model is the text between the two. A parser takes a string piece and reports
  failure: the model is an option. The parsers accumulate in 64 bits; \<open>vlimit\<close> and \<open>vmax\<close> keep the
  source's checks, which the lemmas show to be exact range checks on the number that was written.
\<close>

subsection \<open>Formatting\<close>

text \<open>The do loop that stores the digits from the least significant one, and the reversal that follows it.\<close>

fun digits_loop :: "nat \<Rightarrow> string" where
  "digits_loop i = (let c = char_of (i mod 10 + 48); i' = i div 10 in if i' > 0 then c # digits_loop i' else [c])"

declare digits_loop.simps [simp del]

definition FastUInt32ToBufferLeft :: "u32 \<Rightarrow> string" where
  "FastUInt32ToBufferLeft i = rev (digits_loop (unat i))"

definition FastInt32ToBufferLeft :: "u32 \<Rightarrow> string" where
  "FastInt32ToBufferLeft i =
    (let u = i in if i <s 0 then CHR ''-'' # FastUInt32ToBufferLeft (0 - u) else FastUInt32ToBufferLeft u)"

definition FastUInt64ToBufferLeft :: "u64 \<Rightarrow> string" where
  "FastUInt64ToBufferLeft i = rev (digits_loop (unat i))"

definition FastInt64ToBufferLeft :: "u64 \<Rightarrow> string" where
  "FastInt64ToBufferLeft i =
    (let u = i in if i <s 0 then CHR ''-'' # FastUInt64ToBufferLeft (0 - u) else FastUInt64ToBufferLeft u)"

subsection \<open>Parsing\<close>

text \<open>\<open>isspace\<close> and \<open>isdigit\<close> of the C locale.\<close>

definition isspace :: "char \<Rightarrow> bool" where
  "isspace c \<longleftrightarrow> c = CHR '' '' \<or> 9 \<le> (of_char c :: nat) \<and> (of_char c :: nat) \<le> 13"

definition isdigit :: "char \<Rightarrow> bool" where
  "isdigit c \<longleftrightarrow> 48 \<le> (of_char c :: nat) \<and> (of_char c :: nat) \<le> 57"

definition SafeFirstChar :: "string \<Rightarrow> char" where
  "SafeFirstChar str = (case str of [] \<Rightarrow> CHR 0x00 | c # _ \<Rightarrow> c)"

definition digit_at :: "string \<Rightarrow> int" where
  "digit_at str = int (of_char (SafeFirstChar str)) - 48"

lemma isspace_nul [simp]: "\<not> isspace (CHR 0x00)" and isdigit_nul [simp]: "\<not> isdigit (CHR 0x00)"
  by (simp_all add: isspace_def isdigit_def)

lemma SafeFirstChar_simps [simp]: "SafeFirstChar [] = CHR 0x00" "SafeFirstChar (c # s) = c"
  by (simp_all add: SafeFirstChar_def)

function SkipSpaces :: "string \<Rightarrow> string" where
  "SkipSpaces str = (if isspace (SafeFirstChar str) then SkipSpaces (drop 1 str) else str)"
  by auto
termination
proof (relation "measure length")
  show "isspace (SafeFirstChar str) \<Longrightarrow> (drop 1 str, str) \<in> measure length" for str
    by (cases str) auto
qed simp

text \<open>\<open>str.Consume("-")\<close>: the rest after the prefix, when it is there.\<close>

definition Consume_minus :: "string \<Rightarrow> string option" where
  "Consume_minus str = (case str of [] \<Rightarrow> None | c # r \<Rightarrow> if c = CHR ''-'' then Some r else None)"

text \<open>The digit loops. Their bodies run at least once, on a digit; \<open>ok\<close> is the overflow check of each of them and
  \<open>next\<close> the accumulation.\<close>

function digit_loop :: "('n \<Rightarrow> int \<Rightarrow> 'n option) \<Rightarrow> string \<Rightarrow> 'n \<Rightarrow> (string \<times> 'n) option" where
  "digit_loop body str result =
    (case body result (digit_at str) of None \<Rightarrow> None
     | Some result \<Rightarrow>
        let str = drop 1 str in
        if isdigit (SafeFirstChar str) then digit_loop body str result else Some (str, result))"
  by auto
termination
proof (relation "measure (\<lambda>(body, str, result). length str)")
  show "x = drop 1 str \<Longrightarrow> isdigit (SafeFirstChar x) \<Longrightarrow>
      ((body, x, r), body, str, result) \<in> measure (\<lambda>(body, str, result). length str)" for body str result x r
    by (cases str) auto
qed simp

declare digit_loop.simps [simp del]

text \<open>C's division rounds to zero.\<close>

definition cdiv :: "int \<Rightarrow> int \<Rightarrow> int" where
  "cdiv a b = sgn a * sgn b * (\<bar>a\<bar> div \<bar>b\<bar>)"

definition kint64max :: int where "kint64max = 2 ^ 63 - 1"
definition kint64min :: int where "kint64min = - (2 ^ 63)"
definition kint32max :: int where "kint32max = 2 ^ 31 - 1"
definition kuint32max :: int where "kuint32max = 2 ^ 32 - 1"
definition kuint64max :: u64 where "kuint64max = - 1"

definition strto64_pos :: "int \<Rightarrow> int \<Rightarrow> int \<Rightarrow> int option" where
  "strto64_pos vlimit result digit =
    (if cdiv (vlimit - digit) 10 < result then None else Some (result * 10 + digit))"

definition strto64_neg :: "int \<Rightarrow> int \<Rightarrow> int \<Rightarrow> int option" where
  "strto64_neg vlimit result digit =
    (if cdiv (vlimit + digit) 10 > result then None else Some (result * 10 - digit))"

definition safe_strto64 :: "string \<Rightarrow> int option" where
  "safe_strto64 str =
    (let str = SkipSpaces str;
         (vlimit, sign, str) = (case Consume_minus str of Some r \<Rightarrow> (kint64min, - 1, r) | None \<Rightarrow> (kint64max, 1 :: int, str))
     in if \<not> isdigit (SafeFirstChar str) then None else
        case digit_loop (if sign = 1 then strto64_pos vlimit else strto64_neg vlimit) str 0 of
          None \<Rightarrow> None
        | Some (str, result) \<Rightarrow> if SkipSpaces str \<noteq> [] then None else Some result)"

text \<open>The unsigned one accumulates in a signed 64-bit variable and compares and converts it as unsigned: the word
  holds the bits of both. Its multiplication can overflow the signed type; two's complement is assumed.\<close>

definition strtou64_step :: "u64 \<Rightarrow> int \<Rightarrow> u64 option" where
  "strtou64_step result digit =
    (if (kuint64max - word_of_int digit) div 10 < result then None else Some (result * 10 + word_of_int digit))"

definition safe_strtou64 :: "string \<Rightarrow> u64 option" where
  "safe_strtou64 str =
    (let str = SkipSpaces str
     in if \<not> isdigit (SafeFirstChar str) then None else
        case digit_loop strtou64_step str 0 of
          None \<Rightarrow> None
        | Some (str, result) \<Rightarrow> if SkipSpaces str \<noteq> [] then None else Some result)"

definition strto32_step :: "int \<Rightarrow> int \<Rightarrow> int \<Rightarrow> int option" where
  "strto32_step vmax result digit =
    (let result = result * 10 + digit in if result > vmax then None else Some result)"

definition safe_strto32 :: "string \<Rightarrow> int option" where
  "safe_strto32 str =
    (let str = SkipSpaces str;
         (vmax, sign, str) = (case Consume_minus str of Some r \<Rightarrow> (kint32max + 1, - 1, r) | None \<Rightarrow> (kint32max, 1, str))
     in if \<not> isdigit (SafeFirstChar str) then None else
        case digit_loop (strto32_step vmax) str 0 of
          None \<Rightarrow> None
        | Some (str, result) \<Rightarrow> if SkipSpaces str \<noteq> [] then None else Some (result * sign))"

definition safe_strtou32 :: "string \<Rightarrow> u32 option" where
  "safe_strtou32 str =
    (let str = SkipSpaces str
     in if \<not> isdigit (SafeFirstChar str) then None else
        case digit_loop (strto32_step kuint32max) str 0 of
          None \<Rightarrow> None
        | Some (str, result) \<Rightarrow> if SkipSpaces str \<noteq> [] then None else Some (word_of_int result))"

subsection \<open>Hexadecimal\<close>

definition hexdigits :: string where "hexdigits = ''0123456789abcdef''"

fun to_hex_loop :: "nat \<Rightarrow> u64 \<Rightarrow> string" where
  "to_hex_loop 0 v = []"
| "to_hex_loop (Suc i) v = to_hex_loop i (drop_bit 4 v) @ [hexdigits ! unat (v AND 15)]"

definition Uint64ToHexString :: "u64 \<Rightarrow> string" where
  "Uint64ToHexString v = to_hex_loop 16 v"

fun from_hex_loop :: "string \<Rightarrow> u64 \<Rightarrow> u64 option" where
  "from_hex_loop [] v = Some v"
| "from_hex_loop (c # s) v =
    (if CHR ''0'' \<le> c \<and> c \<le> CHR ''9'' then from_hex_loop s (push_bit 4 v + (of_char c - 48))
     else if CHR ''a'' \<le> c \<and> c \<le> CHR ''f'' then from_hex_loop s (push_bit 4 v + 10 + (of_char c - 97))
     else if CHR ''A'' \<le> c \<and> c \<le> CHR ''F'' then from_hex_loop s (push_bit 4 v + 10 + (of_char c - 65))
     else None)"

definition HexStringToUint64 :: "string \<Rightarrow> u64 option" where
  "HexStringToUint64 s = (if s = [] then None else from_hex_loop s 0)"


subsection \<open>The digit loops\<close>

text \<open>The number a digit string denotes, continued from \<open>acc\<close>.\<close>

definition dval :: "char \<Rightarrow> int" where "dval c = int (of_char c) - 48"

fun num_from :: "int \<Rightarrow> string \<Rightarrow> int" where
  "num_from acc [] = acc"
| "num_from acc (c # cs) = num_from (acc * 10 + dval c) cs"

lemma dval_digit: "isdigit c \<Longrightarrow> 0 \<le> dval c" "isdigit c \<Longrightarrow> dval c \<le> 9"
  by (simp_all add: isdigit_def dval_def)

lemma num_from_append: "num_from acc (xs @ ys) = num_from (num_from acc xs) ys"
  by (induction xs arbitrary: acc) auto

lemma num_from_ge: "0 \<le> acc \<Longrightarrow> \<forall>c\<in>set cs. isdigit c \<Longrightarrow> acc \<le> num_from acc cs"
proof (induction cs arbitrary: acc)
  case (Cons c cs)
  then have "acc \<le> acc * 10 + dval c" "0 \<le> acc * 10 + dval c" using dval_digit [of c] by auto
  then show ?case using Cons.IH [of "acc * 10 + dval c"] Cons.prems by simp
qed simp

lemma digit_loop_eq:
  assumes "isdigit (SafeFirstChar str)"
  shows "digit_loop body str x =
    map_option (Pair (dropWhile isdigit str)) (loopM (\<lambda>c x. body x (dval c)) (takeWhile isdigit str) x)"
  using assms
proof (induction str arbitrary: x)
  case (Cons c cs)
  have head: "digit_at (c # cs) = dval c" by (simp add: digit_at_def dval_def)
  show ?case
  proof (cases "isdigit (SafeFirstChar cs)")
    case True
    then show ?thesis using Cons head by (subst digit_loop.simps) (auto split: option.splits)
  next
    case False
    then have "takeWhile isdigit cs = []" "dropWhile isdigit cs = cs" by (cases cs; simp)+
    then show ?thesis using Cons.prems False head by (subst digit_loop.simps) (auto split: option.splits)
  qed
qed simp

lemma loopM_strto32:
  "0 \<le> x \<Longrightarrow> x \<le> vmax \<Longrightarrow> \<forall>c\<in>set cs. isdigit c \<Longrightarrow>
    loopM (\<lambda>c x. strto32_step vmax x (dval c)) cs x = (if num_from x cs \<le> vmax then Some (num_from x cs) else None)"
proof (induction cs arbitrary: x)
  case (Cons c cs)
  then have x': "0 \<le> x * 10 + dval c" using dval_digit [of c] by simp
  show ?case
    using Cons.IH [of "x * 10 + dval c"] x' num_from_ge [OF x', of cs] Cons.prems by (simp add: strto32_step_def Let_def)
qed simp

text \<open>Two digit loops whose bodies correspond by \<open>f\<close> on the numbers below a bound.\<close>

lemma loopM_strto_sim:
  assumes step: "\<And>x d. 0 \<le> x \<Longrightarrow> x \<le> vmax \<Longrightarrow> 0 \<le> d \<Longrightarrow> d \<le> 9 \<Longrightarrow> body (f x) d = map_option f (strto32_step vmax x d)"
  shows "0 \<le> x \<Longrightarrow> x \<le> vmax \<Longrightarrow> \<forall>c\<in>set cs. isdigit c \<Longrightarrow>
    loopM (\<lambda>c x. body x (dval c)) cs (f x) = map_option f (loopM (\<lambda>c x. strto32_step vmax x (dval c)) cs x)"
proof (induction cs arbitrary: x)
  case (Cons c cs)
  then have d: "0 \<le> dval c" "dval c \<le> 9" using dval_digit [of c] by simp_all
  show ?case
  proof (cases "strto32_step vmax x (dval c)")
    case None
    then show ?thesis using step [OF Cons.prems(1,2) d] by simp
  next
    case (Some y)
    then have "0 \<le> y" "y \<le> vmax" using Cons.prems d by (auto simp: strto32_step_def Let_def split: if_splits)
    then show ?thesis using step [OF Cons.prems(1,2) d] Some Cons.IH [of y] Cons.prems by simp
  qed
qed simp

lemma strto64_pos_eq:
  assumes "0 \<le> x" "0 \<le> d" "d \<le> 9" "9 \<le> vlimit"
  shows "strto64_pos vlimit x d = strto32_step vlimit x d"
proof -
  have "cdiv (vlimit - d) 10 = (vlimit - d) div 10"
    using assms by (cases "vlimit = d") (simp_all add: cdiv_def sgn_if)
  moreover have "(vlimit - d) div 10 < x \<longleftrightarrow> x * 10 + d > vlimit" by linarith
  ultimately show ?thesis by (simp add: strto64_pos_def strto32_step_def Let_def)
qed

lemma strto64_neg_eq:
  assumes "0 \<le> x" "0 \<le> d" "d \<le> 9" "9 \<le> vmax"
  shows "strto64_neg (- vmax) (- x) d = map_option uminus (strto32_step vmax x d)"
proof -
  have "cdiv (- vmax + d) 10 = - ((vmax - d) div 10)"
    using assms by (cases "vmax = d") (simp_all add: cdiv_def sgn_if)
  moreover have "- ((vmax - d) div 10) > - x \<longleftrightarrow> x * 10 + d > vmax" by linarith
  ultimately show ?thesis by (simp add: strto64_neg_def strto32_step_def Let_def)
qed

lemma strtou64_eq:
  assumes "0 \<le> x" "x \<le> 2 ^ 64 - 1" "0 \<le> d" "d \<le> 9"
  shows "strtou64_step (word_of_int x) d = map_option word_of_int (strto32_step (2 ^ 64 - 1) x d)"
proof -
  have ux: "uint (word_of_int x :: u64) = x" and ud: "uint (word_of_int d :: u64) = d"
    using assms by (simp_all add: uint_word_of_int_small)
  have "uint (kuint64max - word_of_int d) = 2 ^ 64 - 1 - d"
    using assms ud by (subst uint_sub_if') (simp add: kuint64max_def uint_word_ariths word_le_def unsigned_minus_1_eq_mask mask_eq_exp_minus_1)
  then have "uint ((kuint64max - word_of_int d) div 10 :: u64) = (2 ^ 64 - 1 - d) div 10"
    by (simp add: uint_div_distrib)
  then have "(kuint64max - word_of_int d) div 10 < (word_of_int x :: u64) \<longleftrightarrow> (2 ^ 64 - 1 - d) div 10 < x"
    by (simp only: word_less_def ux)
  also have "\<dots> \<longleftrightarrow> x * 10 + d > 2 ^ 64 - 1" by linarith
  finally show ?thesis by (simp add: strtou64_step_def strto32_step_def Let_def)
qed


subsection \<open>What the parsers compute\<close>

text \<open>The reference: optional white space on both sides of a non-empty digit string, with an optional minus sign for
  the signed types; the number is read without any bound, and the bound is applied once, to the result.\<close>

definition nat_literal :: "string \<Rightarrow> int option" where
  "nat_literal str =
    (let t = dropWhile isspace str; ds = takeWhile isdigit t
     in if ds \<noteq> [] \<and> dropWhile isspace (dropWhile isdigit t) = [] then Some (num_from 0 ds) else None)"

definition int_literal :: "string \<Rightarrow> int option" where
  "int_literal str =
    (let t = dropWhile isspace str
     in if t \<noteq> [] \<and> hd t = CHR ''-'' then (if tl t \<noteq> [] \<and> isspace (hd (tl t)) then None else map_option uminus (nat_literal (tl t)))
        else nat_literal t)"

definition within :: "('a \<Rightarrow> bool) \<Rightarrow> 'a option \<Rightarrow> 'a option" where
  "within P x = (case x of None \<Rightarrow> None | Some n \<Rightarrow> if P n then Some n else None)"

lemma SkipSpaces_eq: "SkipSpaces str = dropWhile isspace str"
  by (induction str) (subst SkipSpaces.simps, simp)+

declare SkipSpaces.simps [simp del]

lemma isdigit_not_space: "isdigit c \<Longrightarrow> \<not> isspace c"
  by (auto simp: isdigit_def isspace_def)

lemma hd_dropWhile_space: "isspace (SafeFirstChar (dropWhile isspace str)) = False"
  by (induction str) auto

lemma dropWhile_space_id: "\<not> isspace (SafeFirstChar t) \<Longrightarrow> dropWhile isspace t = t"
  by (cases t) auto

text \<open>One parser core for all four: digits, trailing space, and the end of the text.\<close>

definition digits_then_end :: "('n \<Rightarrow> int \<Rightarrow> 'n option) \<Rightarrow> string \<Rightarrow> 'n \<Rightarrow> 'n option" where
  "digits_then_end body str x =
    (if \<not> isdigit (SafeFirstChar str) then None else
     case digit_loop body str x of None \<Rightarrow> None | Some (str, result) \<Rightarrow> if SkipSpaces str \<noteq> [] then None else Some result)"

lemma digits_then_end_eq:
  assumes step: "\<And>x d. 0 \<le> x \<Longrightarrow> x \<le> vmax \<Longrightarrow> 0 \<le> d \<Longrightarrow> d \<le> 9 \<Longrightarrow> body (f x) d = map_option f (strto32_step vmax x d)"
    and "0 \<le> vmax" and space: "\<not> isspace (SafeFirstChar t)"
  shows "digits_then_end body t (f 0) = map_option f (within (\<lambda>n. n \<le> vmax) (nat_literal t))"
proof (cases "isdigit (SafeFirstChar t)")
  case True
  have ds: "\<forall>c\<in>set (takeWhile isdigit t). isdigit c" by (auto dest: set_takeWhileD)
  have ne: "takeWhile isdigit t \<noteq> []" using True by (cases t) auto
  have "loopM (\<lambda>c x. body x (dval c)) (takeWhile isdigit t) (f 0) =
      map_option f (if num_from 0 (takeWhile isdigit t) \<le> vmax then Some (num_from 0 (takeWhile isdigit t)) else None)"
    using loopM_strto_sim [where f = f and body = body, OF step, of 0 "takeWhile isdigit t"]
      loopM_strto32 [of 0 vmax "takeWhile isdigit t"] ds assms(2) by simp
  then show ?thesis
    using True ne by (simp add: digits_then_end_def digit_loop_eq nat_literal_def within_def SkipSpaces_eq
        dropWhile_space_id [OF space] Let_def)
next
  case False
  then have "takeWhile isdigit t = []" by (cases t) auto
  then show ?thesis using False by (simp add: digits_then_end_def nat_literal_def within_def dropWhile_space_id [OF space] Let_def)
qed

lemma not_digit_space: "isspace (SafeFirstChar t) \<Longrightarrow> digits_then_end body t x = None"
  by (auto simp: digits_then_end_def dest: isdigit_not_space)

lemma nat_literal_trim: "nat_literal (dropWhile isspace str) = nat_literal str"
  using hd_dropWhile_space [of str] by (simp add: nat_literal_def dropWhile_space_id)

lemma num_from_nonneg: "nat_literal str = Some n \<Longrightarrow> 0 \<le> n"
  by (auto simp: nat_literal_def Let_def split: if_splits dest: set_takeWhileD intro!: num_from_ge [of 0, simplified])

lemma safe_strtou32_eq: "safe_strtou32 str = map_option word_of_int (within (\<lambda>n. n \<le> kuint32max) (nat_literal str))"
proof -
  have "safe_strtou32 str = map_option word_of_int (digits_then_end (strto32_step kuint32max) (dropWhile isspace str) 0)"
    by (simp add: safe_strtou32_def digits_then_end_def SkipSpaces_eq Let_def split: option.split)
  then show ?thesis
    using digits_then_end_eq [where f = id, of kuint32max "strto32_step kuint32max" "dropWhile isspace str"]
      hd_dropWhile_space [of str] by (simp add: kuint32max_def option.map_id nat_literal_trim)
qed

lemma safe_strtou64_eq: "safe_strtou64 str = map_option word_of_int (within (\<lambda>n. n \<le> 2 ^ 64 - 1) (nat_literal str))"
proof -
  have "safe_strtou64 str = digits_then_end strtou64_step (dropWhile isspace str) (word_of_int 0)"
    by (simp add: safe_strtou64_def digits_then_end_def SkipSpaces_eq Let_def)
  then show ?thesis
    using digits_then_end_eq [where f = word_of_int, OF strtou64_eq, of "dropWhile isspace str"]
      hd_dropWhile_space [of str] by (simp add: nat_literal_trim)
qed

text \<open>The signed parsers: a minus sign switches the bound and negates.\<close>

lemma signed_literal:
  assumes "t = dropWhile isspace str"
  shows "int_literal str =
    (case Consume_minus t of Some r \<Rightarrow> if isspace (SafeFirstChar r) then None else map_option uminus (nat_literal r)
     | None \<Rightarrow> nat_literal t)"
  unfolding int_literal_def Let_def assms [symmetric]
  by (cases t) (auto simp: Consume_minus_def SafeFirstChar_def split: list.splits)

lemma safe_strto32_eq: "safe_strto32 str = within int32_range (int_literal str)"
proof -
  define t where "t = dropWhile isspace str"
  have sp: "\<not> isspace (SafeFirstChar t)" using hd_dropWhile_space [of str] by (simp add: t_def)
  have core: "digits_then_end (strto32_step v) r 0 = within (\<lambda>n. n \<le> v) (nat_literal r)"
    if "\<not> isspace (SafeFirstChar r)" "0 \<le> v" for r v
    using digits_then_end_eq [where f = id and body = "strto32_step v", of v r] that by (simp add: option.map_id)
  have "safe_strto32 str = (case Consume_minus t of
      Some r \<Rightarrow> map_option uminus (digits_then_end (strto32_step (kint32max + 1)) r 0)
    | None \<Rightarrow> digits_then_end (strto32_step kint32max) t 0)"
    by (auto simp: safe_strto32_def digits_then_end_def SkipSpaces_eq Let_def t_def split: option.split)
  then show ?thesis
    using core [OF sp, of kint32max] core [of _ "kint32max + 1"]
    by (cases "Consume_minus t")
      (auto simp: signed_literal [OF t_def] within_def int32_range_def kint32max_def not_digit_space
        split: option.splits dest: num_from_nonneg)
qed

lemma safe_strto64_eq: "safe_strto64 str = within int64_range (int_literal str)"
proof -
  define t where "t = dropWhile isspace str"
  have sp: "\<not> isspace (SafeFirstChar t)" using hd_dropWhile_space [of str] by (simp add: t_def)
  have pos: "digits_then_end (strto64_pos kint64max) t 0 = within (\<lambda>n. n \<le> kint64max) (nat_literal t)"
    using digits_then_end_eq [where f = id and body = "strto64_pos kint64max" and vmax = kint64max, of t] sp
    by (simp add: option.map_id strto64_pos_eq kint64max_def)
  have neg: "digits_then_end (strto64_neg kint64min) r 0 = map_option uminus (within (\<lambda>n. n \<le> 2 ^ 63) (nat_literal r))"
    if "\<not> isspace (SafeFirstChar r)" for r
    using digits_then_end_eq [where f = uminus and body = "strto64_neg kint64min" and vmax = "2 ^ 63", of r] that
      strto64_neg_eq [where vmax = "2 ^ 63"] by (simp add: kint64min_def)
  have "safe_strto64 str = (case Consume_minus t of
      Some r \<Rightarrow> digits_then_end (strto64_neg kint64min) r 0
    | None \<Rightarrow> digits_then_end (strto64_pos kint64max) t 0)"
    by (auto simp: safe_strto64_def digits_then_end_def SkipSpaces_eq Let_def t_def split: option.split)
  then show ?thesis
    using pos neg
    by (cases "Consume_minus t")
      (auto simp: signed_literal [OF t_def] within_def int64_range_def kint64max_def not_digit_space
        split: option.splits dest: num_from_nonneg)
qed


subsection \<open>Round trips\<close>

lemma digit_char:
  assumes "d < 10"
  shows "isdigit (char_of (d + 48 :: nat))" "dval (char_of (d + 48 :: nat)) = int d"
proof -
  have "(of_char (char_of (d + 48)) :: nat) = d + 48" using assms by (simp add: of_char_of)
  then show "isdigit (char_of (d + 48 :: nat))" "dval (char_of (d + 48 :: nat)) = int d"
    using assms by (simp_all add: isdigit_def dval_def)
qed

lemma digits_loop_correct:
  "digits_loop n \<noteq> [] \<and> (\<forall>c\<in>set (digits_loop n). isdigit c) \<and> num_from 0 (rev (digits_loop n)) = int n"
proof (induction n rule: digits_loop.induct)
  case (1 n)
  show ?case
  proof (cases "n div 10 > 0")
    case True
    then have "digits_loop n = char_of (n mod 10 + 48) # digits_loop (n div 10)"
      by (simp add: digits_loop.simps [of n] Let_def)
    then show ?thesis using 1 [OF refl refl True] digit_char [of "n mod 10"]
      by (simp add: num_from_append zdiv_int zmod_int)
  next
    case False
    then show ?thesis using digit_char [of n] by (simp add: digits_loop.simps [of n] Let_def)
  qed
qed

lemma nat_literal_digits: "nat_literal (rev (digits_loop n)) = Some (int n)"
proof -
  let ?s = "rev (digits_loop n)"
  have s: "?s \<noteq> []" "\<forall>c\<in>set ?s. isdigit c" "num_from 0 ?s = int n"
    using digits_loop_correct [of n] by auto
  then have "\<not> isspace (SafeFirstChar ?s)" by (cases ?s) (auto simp: isdigit_not_space)
  then have sp: "dropWhile isspace ?s = ?s" by (rule dropWhile_space_id)
  have td: "takeWhile isdigit ?s = ?s" "dropWhile isdigit ?s = []"
    using s(2) by (simp_all only: takeWhile_eq_all_conv dropWhile_eq_Nil_conv)
  show ?thesis unfolding nat_literal_def Let_def sp td using s by simp
qed

lemma first_digit: "isdigit (hd (rev (digits_loop n)))" "rev (digits_loop n) \<noteq> []"
  using digits_loop_correct [of n] by (auto simp: hd_rev intro: last_in_set)

lemma int_literal_digits:
  "int_literal (rev (digits_loop n)) = Some (int n)" "int_literal (CHR ''-'' # rev (digits_loop n)) = Some (- int n)"
proof -
  obtain c s where s: "rev (digits_loop n) = c # s" using first_digit(2) [of n] by (cases "rev (digits_loop n)") auto
  then have c: "isdigit c" using first_digit(1) [of n] by simp
  then have "\<not> isspace c" "c \<noteq> CHR ''-''" by (auto simp: isdigit_not_space) (simp add: isdigit_def)
  then show "int_literal (rev (digits_loop n)) = Some (int n)"
    using nat_literal_digits [of n] by (simp add: s int_literal_def)
  have "\<not> isspace (CHR ''-'')" by (simp add: isspace_def)
  then show "int_literal (CHR ''-'' # rev (digits_loop n)) = Some (- int n)"
    using nat_literal_digits [of n] \<open>\<not> isspace c\<close> by (simp add: s int_literal_def)
qed

lemma negative_word: "(i :: 'a::len word) <s 0 \<Longrightarrow> int (unat (0 - i)) = - sint i"
proof -
  assume neg: "i <s 0"
  then have s: "sint i < 0" "- (2 ^ (LENGTH('a) - 1)) \<le> sint i" using sint_ge [of i] by (simp_all add: word_sless_alt)
  have "uint (0 - i) = uint (word_of_int (- sint i) :: 'a word)" by simp
  also have "\<dots> = - sint i"
  proof (rule uint_word_of_int_small)
    have "(2 :: int) ^ (LENGTH('a) - 1) < 2 ^ LENGTH('a)" by (rule power_strict_increasing) auto
    with s show "- sint i < 2 ^ LENGTH('a)" by linarith
  qed (use s in simp)
  finally show ?thesis by simp
qed

lemma nonnegative_word: "\<not> (i :: 'a::len word) <s 0 \<Longrightarrow> int (unat i) = sint i"
proof -
  assume "\<not> i <s 0"
  then have s: "0 \<le> sint i" "sint i < 2 ^ (LENGTH('a) - 1)" using sint_lt [of i] by (simp_all add: word_sless_alt)
  have "uint i = uint (word_of_int (sint i) :: 'a word)" by simp
  also have "\<dots> = sint i"
  proof (rule uint_word_of_int_small)
    have "(2 :: int) ^ (LENGTH('a) - 1) < 2 ^ LENGTH('a)" by (rule power_strict_increasing) auto
    with s show "sint i < 2 ^ LENGTH('a)" by linarith
  qed (use s in simp)
  finally show ?thesis by simp
qed

lemma int_literal_Fast32: "int_literal (FastInt32ToBufferLeft i) = Some (sint i)"
  using negative_word [of i] nonnegative_word [of i]
  by (cases "i <s 0") (simp_all add: FastInt32ToBufferLeft_def FastUInt32ToBufferLeft_def int_literal_digits)

lemma int_literal_Fast64: "int_literal (FastInt64ToBufferLeft i) = Some (sint i)"
  using negative_word [of i] nonnegative_word [of i]
  by (cases "i <s 0") (simp_all add: FastInt64ToBufferLeft_def FastUInt64ToBufferLeft_def int_literal_digits)

lemma from_hex_append:
  "from_hex_loop (s @ t) v = (case from_hex_loop s v of None \<Rightarrow> None | Some w \<Rightarrow> from_hex_loop t w)"
  by (induction s v rule: from_hex_loop.induct) auto

lemma from_hex_digit: "d < 16 \<Longrightarrow> from_hex_loop [hexdigits ! d] v = Some (push_bit 4 v + of_nat d)"
proof -
  assume "d < 16"
  moreover have "\<forall>d\<in>set [0..<16]. from_hex_loop [hexdigits ! d] v = Some (push_bit 4 v + of_nat d)"
    by (simp add: upt_rec hexdigits_def less_eq_char_def)
  ultimately show ?thesis by simp
qed

lemma from_hex_to_hex: "from_hex_loop (to_hex_loop n v) 0 = Some (take_bit (4 * n) v)"
proof (induction n arbitrary: v)
  case (Suc n)
  have m: "v AND 15 = take_bit 4 v" by (simp add: take_bit_eq_mask mask_eq_exp_minus_1)
  have lt: "unat (v AND 15) < 16" unfolding m using take_bit_nat_less_exp [of 4 "unat v"] by (simp add: unsigned_take_bit_eq)
  have "push_bit 4 (take_bit (4 * n) (drop_bit 4 v)) + (v AND 15) = push_bit 4 (take_bit (4 * n) (drop_bit 4 v)) OR (v AND 15)"
    unfolding m by (rule disjunctive_add_eq_or) (rule bit_word_eqI, auto simp: bit_simps)
  also have "\<dots> = take_bit (4 * Suc n) v"
    unfolding m by (rule bit_word_eqI) (auto simp: bit_simps)
  finally show ?case using Suc [of "drop_bit 4 v"] from_hex_digit [OF lt] by (simp add: from_hex_append)
qed simp

lemma to_hex_loop_length: "length (to_hex_loop n v) = n"
  by (induction n arbitrary: v) auto

subsection \<open>Properties\<close>

text \<open>C35: The four integer parsers accept exactly a number in decimal with optional white space around it (and a
  minus sign, for the signed types) whose value fits the type, and return that value: the incremental overflow
  checks in the digit loops reject a text if and only if the number it denotes is out of range.\<close>

theorem strto_exact:
  "safe_strto32 str = within int32_range (int_literal str) \<and>
   safe_strto64 str = within int64_range (int_literal str) \<and>
   map_option uint (safe_strtou32 str) = within (\<lambda>n. n < 2 ^ 32) (nat_literal str) \<and>
   map_option uint (safe_strtou64 str) = within (\<lambda>n. n < 2 ^ 64) (nat_literal str)"
proof (intro conjI safe_strto32_eq safe_strto64_eq)
  show "map_option uint (safe_strtou32 str) = within (\<lambda>n. n < 2 ^ 32) (nat_literal str)"
    by (auto simp: safe_strtou32_eq within_def kuint32max_def uint_word_of_int_small num_from_nonneg split: option.split)
  show "map_option uint (safe_strtou64 str) = within (\<lambda>n. n < 2 ^ 64) (nat_literal str)"
    by (auto simp: safe_strtou64_eq within_def uint_word_of_int_small num_from_nonneg split: option.split)
qed

text \<open>Formatting and parsing are inverse on every 32-bit and 64-bit value, the most negative ones included, for which
  the formatter negates in unsigned arithmetic; and so are the 16-digit hexadecimal text and its parser.\<close>

theorem number_text_roundtrip:
  "safe_strto32 (FastInt32ToBufferLeft i) = Some (sint i) \<and>
   safe_strto64 (FastInt64ToBufferLeft j) = Some (sint j) \<and>
   safe_strtou32 (FastUInt32ToBufferLeft i) = Some i \<and>
   safe_strtou64 (FastUInt64ToBufferLeft j) = Some j \<and>
   HexStringToUint64 (Uint64ToHexString j) = Some j"
proof (intro conjI)
  show "safe_strto32 (FastInt32ToBufferLeft i) = Some (sint i)"
    using sint_ge [of i] sint_lt [of i] by (simp add: safe_strto32_eq int_literal_Fast32 within_def int32_range_def)
  show "safe_strto64 (FastInt64ToBufferLeft j) = Some (sint j)"
    using sint_ge [of j] sint_lt [of j] by (simp add: safe_strto64_eq int_literal_Fast64 within_def int64_range_def)
  show "safe_strtou32 (FastUInt32ToBufferLeft i) = Some i"
    using uint_lt2p [of i] by (simp add: safe_strtou32_eq FastUInt32ToBufferLeft_def nat_literal_digits within_def kuint32max_def)
  show "safe_strtou64 (FastUInt64ToBufferLeft j) = Some j"
    using uint_lt2p [of j] by (simp add: safe_strtou64_eq FastUInt64ToBufferLeft_def nat_literal_digits within_def)
  show "HexStringToUint64 (Uint64ToHexString j) = Some j"
    using to_hex_loop_length [of 16 j] from_hex_to_hex [of 16 j]
    by (auto simp: HexStringToUint64_def Uint64ToHexString_def take_bit_word_eq_self)
qed

end
