(* ===== verification/StrUtil.thy ===== *)
theory StrUtil
  imports Numbers
begin

text \<open>
  String utilities (\<open>core/lib/strings/str_util.cc\<close> and the templates of \<open>str_util.h\<close>): C escapes, splitting
  and joining, white space, and the consuming readers of string pieces. A string piece that is advanced is the
  rest of the text; a destination buffer that is filled is the text written so far. \<open>CUnescape\<close> is modelled for
  a source and a destination that do not overlap. Characters are read in the C locale.
\<close>

subsection \<open>C escapes\<close>

definition hex_char :: string where "hex_char = ''0123456789abcdef''"

abbreviation code :: "char \<Rightarrow> nat" where "code c \<equiv> of_char c"

definition isprint :: "char \<Rightarrow> bool" where "isprint c \<longleftrightarrow> 32 \<le> code c \<and> code c < 127"

definition escape_byte :: "char \<Rightarrow> string" where
  "escape_byte c =
    (if c = CHR 0x0A then [CHR 0x5C, CHR ''n'']
     else if c = CHR 0x0D then [CHR 0x5C, CHR ''r'']
     else if c = CHR 0x09 then [CHR 0x5C, CHR ''t'']
     else if c = CHR 0x22 then [CHR 0x5C, CHR 0x22]
     else if c = CHR 0x27 then [CHR 0x5C, CHR 0x27]
     else if c = CHR 0x5C then [CHR 0x5C, CHR 0x5C]
     else if code c \<ge> 128 \<or> \<not> isprint c then
       [CHR 0x5C, hex_char ! (code c div 64), hex_char ! (code c mod 64 div 8), hex_char ! (code c mod 8)]
     else [c])"

fun cescape_loop :: "string \<Rightarrow> string \<Rightarrow> string" where
  "cescape_loop [] dest = dest"
| "cescape_loop (c # src) dest = cescape_loop src (dest @ escape_byte c)"

definition CEscape :: "string \<Rightarrow> string" where
  "CEscape src = cescape_loop src []"

definition is_octal_digit :: "char \<Rightarrow> bool" where
  "is_octal_digit c \<longleftrightarrow> CHR ''0'' \<le> c \<and> c \<le> CHR ''7''"

definition ascii_isxdigit :: "char \<Rightarrow> bool" where
  "ascii_isxdigit c \<longleftrightarrow> CHR ''0'' \<le> c \<and> c \<le> CHR ''9'' \<or> CHR ''a'' \<le> c \<and> c \<le> CHR ''f'' \<or> CHR ''A'' \<le> c \<and> c \<le> CHR ''F''"

definition hex_digit_to_int :: "char \<Rightarrow> u32" where
  "hex_digit_to_int c = (let x = of_char c in (if code c > 57 then x + 9 else x) AND 15)"

text \<open>The letters that stand for one character each.\<close>

definition simple_escape :: "char \<Rightarrow> char option" where
  "simple_escape c = map_of
    [(CHR ''a'', CHR 0x07), (CHR ''b'', CHR 0x08), (CHR ''f'', CHR 0x0C), (CHR ''n'', CHR 0x0A), (CHR ''r'', CHR 0x0D),
     (CHR ''t'', CHR 0x09), (CHR ''v'', CHR 0x0B), (CHR 0x5C, CHR 0x5C), (CHR ''?'', CHR ''?''), (CHR 0x27, CHR 0x27),
     (CHR 0x22, CHR 0x22)] c"

text \<open>One further octal digit, when there is one: value, digits read, rest.\<close>

definition octal_more :: "nat \<times> string \<times> string \<Rightarrow> nat \<times> string \<times> string" where
  "octal_more s = (case s of (ch, seen, p) \<Rightarrow>
    (case p of c # q \<Rightarrow> if is_octal_digit c then (ch * 8 + code c - 48, seen @ [c], q) else s | [] \<Rightarrow> s))"

fun hex_loop :: "u32 \<Rightarrow> string \<Rightarrow> string \<Rightarrow> u32 \<times> string \<times> string" where
  "hex_loop ch seen [] = (ch, seen, [])"
| "hex_loop ch seen (c # p) =
    (if ascii_isxdigit c then hex_loop (push_bit 4 ch + hex_digit_to_int c) (seen @ [c]) p else (ch, seen, c # p))"

lemma octal_more_length: "length (snd (snd (octal_more s))) \<le> length (snd (snd s))"
  by (auto simp: octal_more_def split: list.split prod.split)

lemma hex_loop_length: "length (snd (snd (hex_loop ch seen p))) \<le> length p"
  by (induction ch seen p rule: hex_loop.induct) auto

text \<open>One escape sequence, behind its backslash: the character and the rest, or the error message.\<close>

definition unescape_one :: "string \<Rightarrow> string + char \<times> string" where
  "unescape_one p =
    (case p of
       [] \<Rightarrow> Inl (''String cannot end with '' @ [CHR 0x5C])
     | c # q \<Rightarrow>
        (case simple_escape c of
           Some x \<Rightarrow> Inr (x, q)
         | None \<Rightarrow>
            if is_octal_digit c then
              (case octal_more (octal_more (code c - 48, [c], q)) of (ch, seen, r) \<Rightarrow>
                if ch > 255 then Inl (''Value of '' @ [CHR 0x5C] @ seen @ '' exceeds 0xff'') else Inr (char_of ch, r))
            else if c = CHR ''x'' \<or> c = CHR ''X'' then
              (case q of
                 [] \<Rightarrow> Inl (''String cannot end with '' @ [CHR 0x5C] @ ''x'')
               | h # _ \<Rightarrow>
                  if \<not> ascii_isxdigit h then Inl ([CHR 0x5C] @ ''x cannot be followed by a non-hex digit'')
                  else (case hex_loop 0 [c] q of (ch, seen, r) \<Rightarrow>
                    if ch > 255 then Inl (''Value of '' @ [CHR 0x5C] @ seen @ '' exceeds 0xff'') else Inr (char_of (unat ch), r)))
            else Inl (''Unknown escape sequence: '' @ [CHR 0x5C] @ [c])))"

lemma unescape_one_length: "unescape_one p = Inr (x, r) \<Longrightarrow> length r < length p"
proof (induction p)
  case (Cons c q)
  show ?case
    using Cons.prems octal_more_length [of "octal_more (code c - 48, [c], q)"] octal_more_length [of "(code c - 48, [c], q)"]
      hex_loop_length [of 0 "[c]" q]
    by (auto simp: unescape_one_def split: option.splits if_splits prod.splits list.splits)
qed (simp add: unescape_one_def)

function cunescape_loop :: "string \<Rightarrow> string \<Rightarrow> string + string" where
  "cunescape_loop [] dest = Inr dest"
| "cunescape_loop (c # p) dest =
    (if c \<noteq> CHR 0x5C then cunescape_loop p (dest @ [c])
     else (case unescape_one p of Inl e \<Rightarrow> Inl e | Inr (x, r) \<Rightarrow> cunescape_loop r (dest @ [x])))"
  by pat_completeness auto
termination
  by (relation "measure (\<lambda>(p, dest). length p)") (auto dest!: unescape_one_length)

definition CUnescape :: "string \<Rightarrow> string + string" where
  "CUnescape source = cunescape_loop source []"

subsection \<open>White space and case\<close>

function strip_loop :: "string \<Rightarrow> nat \<Rightarrow> nat" where
  "strip_loop s i = (if i > 0 \<and> isspace (s ! (i - 1)) then strip_loop s (i - 1) else i)"
  by auto
termination by (relation "measure snd") auto

definition StripTrailingWhitespace :: "string \<Rightarrow> string" where
  "StripTrailingWhitespace s = take (strip_loop s (length s)) s"

definition tolower :: "char \<Rightarrow> char" where
  "tolower c = (if CHR ''A'' \<le> c \<and> c \<le> CHR ''Z'' then char_of (code c + 32) else c)"

definition toupper :: "char \<Rightarrow> char" where
  "toupper c = (if CHR ''a'' \<le> c \<and> c \<le> CHR ''z'' then char_of (code c - 32) else c)"

definition Lowercase :: "string \<Rightarrow> string" where "Lowercase s = map tolower s"
definition Uppercase :: "string \<Rightarrow> string" where "Uppercase s = map toupper s"

fun titlecase_loop :: "string \<Rightarrow> string \<Rightarrow> bool \<Rightarrow> string" where
  "titlecase_loop delimiters [] upper = []"
| "titlecase_loop delimiters (c # s) upper =
    (let c = if upper then toupper c else c in c # titlecase_loop delimiters s (c \<in> set delimiters))"

definition TitlecaseString :: "string \<Rightarrow> string \<Rightarrow> string" where
  "TitlecaseString s delimiters = titlecase_loop delimiters s True"

function leading_loop :: "string \<Rightarrow> nat \<Rightarrow> nat" where
  "leading_loop text count = (if count < length text \<and> isspace (text ! count) then leading_loop text (Suc count) else count)"
  by auto
termination by (relation "measure (\<lambda>(text, count). length text - count)") auto

definition RemoveLeadingWhitespace :: "string \<Rightarrow> nat \<times> string" where
  "RemoveLeadingWhitespace text = (let count = leading_loop text 0 in (count, drop count text))"

function trailing_loop :: "string \<Rightarrow> nat \<Rightarrow> nat" where
  "trailing_loop text count =
    (if count < length text \<and> isspace (text ! (length text - 1 - count)) then trailing_loop text (Suc count) else count)"
  by auto
termination by (relation "measure (\<lambda>(text, count). length text - count)") auto

definition RemoveTrailingWhitespace :: "string \<Rightarrow> nat \<times> string" where
  "RemoveTrailingWhitespace text = (let count = trailing_loop text 0 in (count, take (length text - count) text))"

text \<open>Both, from the left end: the order in which a compiler evaluates the two calls of the sum does not change the
  rest, only which of them counts an all-blank text.\<close>

definition RemoveWhitespaceContext :: "string \<Rightarrow> nat \<times> string" where
  "RemoveWhitespaceContext text =
    (let (m, text) = RemoveLeadingWhitespace text; (n, text) = RemoveTrailingWhitespace text in (m + n, text))"

subsection \<open>Consuming readers\<close>

definition ConsumePrefix :: "string \<Rightarrow> string \<Rightarrow> string option" where
  "ConsumePrefix s expected = (if take (length expected) s = expected then Some (drop (length expected) s) else None)"

text \<open>The loop reports an overflow as \<open>None\<close>.\<close>

fun leading_digits_loop :: "string \<Rightarrow> u64 \<Rightarrow> (string \<times> u64) option" where
  "leading_digits_loop [] v = Some ([], v)"
| "leading_digits_loop (c # p) v =
    (if c < CHR ''0'' \<or> c > CHR ''9'' then Some (c # p, v)
     else let new_v = v * 10 + of_nat (code c - 48) in if new_v div 8 < v then None else leading_digits_loop p new_v)"

definition ConsumeLeadingDigits :: "string \<Rightarrow> (string \<times> u64) option" where
  "ConsumeLeadingDigits s =
    (case leading_digits_loop s 0 of None \<Rightarrow> None
     | Some (p, v) \<Rightarrow> if length p < length s then Some (p, v) else None)"

fun non_whitespace_loop :: "string \<Rightarrow> string \<Rightarrow> string \<times> string" where
  "non_whitespace_loop seen [] = (seen, [])"
| "non_whitespace_loop seen (c # p) = (if isspace c then (seen, c # p) else non_whitespace_loop (seen @ [c]) p)"

text \<open>The word read and the rest; on failure the word is cleared and the text left alone.\<close>

definition ConsumeNonWhitespace :: "string \<Rightarrow> bool \<times> string \<times> string" where
  "ConsumeNonWhitespace s = (case non_whitespace_loop [] s of (val, p) \<Rightarrow> if val \<noteq> [] then (True, val, p) else (False, [], s))"

subsection \<open>Splitting and joining\<close>

text \<open>\<open>token\<close> is the text from \<open>token_start\<close> up to the position of the loop.\<close>

fun split_loop :: "(string \<Rightarrow> bool) \<Rightarrow> char \<Rightarrow> string \<Rightarrow> string \<Rightarrow> string list \<Rightarrow> string list" where
  "split_loop p delim [] token result = (if p token then result @ [token] else result)"
| "split_loop p delim (c # text) token result =
    (if c = delim then split_loop p delim text [] (if p token then result @ [token] else result)
     else split_loop p delim text (token @ [c]) result)"

definition Split :: "string \<Rightarrow> char \<Rightarrow> (string \<Rightarrow> bool) \<Rightarrow> string list" where
  "Split text delim p = (if text \<noteq> [] then split_loop p delim text [] [] else [])"

definition AllowEmpty :: "string \<Rightarrow> bool" where "AllowEmpty sp = True"
definition SkipEmpty :: "string \<Rightarrow> bool" where "SkipEmpty sp \<longleftrightarrow> sp \<noteq> []"
definition SkipWhitespace :: "string \<Rightarrow> bool" where "SkipWhitespace sp \<longleftrightarrow> snd (RemoveTrailingWhitespace sp) \<noteq> []"

text \<open>\<open>Join\<close> of strings.\<close>

fun join_loop :: "string list \<Rightarrow> string \<Rightarrow> bool \<Rightarrow> string \<Rightarrow> string" where
  "join_loop [] sep first result = result"
| "join_loop (x # s) sep first result = join_loop s sep False (result @ (if first then [] else sep) @ x)"

definition Join :: "string list \<Rightarrow> string \<Rightarrow> string" where
  "Join s sep = join_loop s sep True []"

text \<open>The numbers read before the first text that is not one stay in the result.\<close>

fun parse_ints_loop :: "string list \<Rightarrow> int list \<Rightarrow> bool \<times> int list" where
  "parse_ints_loop [] result = (True, result)"
| "parse_ints_loop (s # ss) result =
    (case safe_strto32 s of None \<Rightarrow> (False, result) | Some num \<Rightarrow> parse_ints_loop ss (result @ [num]))"

definition SplitAndParseAsInts :: "string \<Rightarrow> char \<Rightarrow> bool \<times> int list" where
  "SplitAndParseAsInts text delim = parse_ints_loop (Split text delim AllowEmpty) []"


declare strip_loop.simps [simp del] leading_loop.simps [simp del] trailing_loop.simps [simp del]

subsection \<open>Escaping\<close>

lemma code_less_256: "code c < 256"
proof -
  have "code c = code (char_of (code c) :: char)" by simp
  also have "\<dots> = code c mod 256" by (rule of_char_of)
  finally show ?thesis by simp
qed

lemma cescape_loop_eq: "cescape_loop src dest = dest @ concat (map escape_byte src)"
  by (induction src arbitrary: dest) auto

lemma CEscape_Cons: "CEscape (c # s) = escape_byte c @ CEscape s" "CEscape [] = []"
  by (simp_all add: CEscape_def cescape_loop_eq)

lemma octal_char:
  assumes "d < 8"
  shows "hex_char ! d = char_of (d + 48)" "is_octal_digit (char_of (d + 48))" "code (char_of (d + 48) :: char) = d + 48"
    "simple_escape (char_of (d + 48)) = None"
proof -
  have *: "\<forall>d\<in>set [0..<8]. hex_char ! d = char_of (d + 48) \<and> is_octal_digit (char_of (d + 48)) \<and>
      code (char_of (d + 48) :: char) = d + 48 \<and> simple_escape (char_of (d + 48)) = None"
    by code_simp
  have "d \<in> set [0..<8]" using assms by simp
  from bspec [OF * this] show "hex_char ! d = char_of (d + 48)" "is_octal_digit (char_of (d + 48))"
    "code (char_of (d + 48) :: char) = d + 48" "simple_escape (char_of (d + 48)) = None" by blast+
qed

lemma unescape_octal:
  assumes "a < 4" "b < 8" "d < 8"
  shows "unescape_one (hex_char ! a # hex_char ! b # hex_char ! d # r) = Inr (char_of (64 * a + 8 * b + d), r)"
proof -
  have "a < 8" using assms by simp
  then show ?thesis
    using assms by (simp add: unescape_one_def octal_more_def octal_char)
qed

lemma octal_digits:
  "code c div 64 < 4" "code c mod 64 div 8 < 8" "code c mod 8 < 8"
  "64 * (code c div 64) + 8 * (code c mod 64 div 8) + code c mod 8 = code c"
proof -
  show "code c div 64 < 4" using code_less_256 [of c] by (simp add: div_less_iff_less_mult)
  show m: "code c mod 64 div 8 < 8" by (simp add: div_less_iff_less_mult)
  show "code c mod 8 < 8" by simp
  have "code c mod 8 = code c mod 64 mod 8" by (simp add: mod_mod_cancel)
  then show "64 * (code c div 64) + 8 * (code c mod 64 div 8) + code c mod 8 = code c"
    by (metis mult_div_mod_eq add.assoc)
qed

lemma unescape_escape:
  "cunescape_loop (escape_byte c @ r) dest = cunescape_loop r (dest @ [c])"
proof -
  have se: "simple_escape (CHR ''n'') = Some (CHR 0x0A)" "simple_escape (CHR ''r'') = Some (CHR 0x0D)"
    "simple_escape (CHR ''t'') = Some (CHR 0x09)" "simple_escape (CHR 0x22) = Some (CHR 0x22)"
    "simple_escape (CHR 0x27) = Some (CHR 0x27)" "simple_escape (CHR 0x5C) = Some (CHR 0x5C)"
    by (simp_all add: simple_escape_def)
  have "unescape_one (hex_char ! (code c div 64) # hex_char ! (code c mod 64 div 8) # hex_char ! (code c mod 8) # r) = Inr (c, r)"
    using unescape_octal [OF octal_digits(1) [of c] octal_digits(2) [of c] octal_digits(3) [of c], of r] by (simp only: octal_digits(4) char_of_char)
  then show ?thesis
    by (simp add: escape_byte_def unescape_one_def [of "_ # r"] se)
qed

lemma cunescape_CEscape: "cunescape_loop (CEscape s @ r) dest = cunescape_loop r (dest @ s)"
  by (induction s arbitrary: dest) (simp_all add: CEscape_Cons unescape_escape)

lemma escape_byte_print: "\<forall>x\<in>set (escape_byte c). isprint x"
proof -
  have "\<forall>d\<in>set [0..<8]. isprint (hex_char ! d)" by code_simp
  then have hex: "isprint (hex_char ! (code c div 64))" "isprint (hex_char ! (code c mod 64 div 8))" "isprint (hex_char ! (code c mod 8))"
    using octal_digits [of c] by simp_all
  have letters: "\<forall>x\<in>set [CHR 0x5C, CHR 0x22, CHR 0x27, CHR ''n'', CHR ''r'', CHR ''t'']. isprint x" by code_simp
  show ?thesis using hex letters unfolding escape_byte_def by simp
qed

lemma cunescape_length: "cunescape_loop p dest = Inr d \<Longrightarrow> length d \<le> length dest + length p"
proof (induction p dest rule: cunescape_loop.induct)
  case (2 c p dest)
  show ?case
  proof (cases "c \<noteq> CHR 0x5C")
    case True
    then show ?thesis using 2 by simp
  next
    case False
    then obtain x r where "unescape_one p = Inr (x, r)" "cunescape_loop r (dest @ [x]) = Inr d"
      using 2 by (auto split: sum.splits)
    then show ?thesis using 2(2) [of "(x, r)" x r] False unescape_one_length [of p x r] by simp
  qed
qed simp

subsection \<open>Splitting\<close>

lemma join_loop_eq: "join_loop xs sep False result = result @ concat (map (\<lambda>x. sep @ x) xs)"
  by (induction xs arbitrary: result) auto

lemma Join_Cons: "Join (x # xs) sep = x @ concat (map (\<lambda>x. sep @ x) xs)"
  by (simp add: Join_def join_loop_eq)

lemma Join_Nil [simp]: "Join [] sep = []"
  by (simp add: Join_def)

text \<open>The tokens of a text: the reference for \<open>Split\<close>.\<close>

fun tokens :: "char \<Rightarrow> string \<Rightarrow> string list" where
  "tokens delim [] = [[]]"
| "tokens delim (c # s) = (if c = delim then [] # tokens delim s else (c # hd (tokens delim s)) # tl (tokens delim s))"

lemma tokens_ne [simp]: "tokens delim s \<noteq> []"
  by (induction s) auto

lemma split_loop_eq:
  "split_loop p delim text token result = result @ filter p ((token @ hd (tokens delim text)) # tl (tokens delim text))"
  by (induction p delim "text" token result rule: split_loop.induct) auto

lemma Split_eq: "Split text delim p = (if text = [] then [] else filter p (tokens delim text))"
  using tokens_ne [of delim "text"] by (simp add: Split_def split_loop_eq)

lemma Join_tokens: "Join (tokens delim text) [delim] = text"
proof (induction delim "text" rule: tokens.induct)
  case (2 delim c s)
  obtain x xs where t: "tokens delim s = x # xs" using tokens_ne by (cases "tokens delim s") blast+
  show ?case using 2 by (simp add: t Join_Cons)
qed (simp add: Join_Cons)

lemma tokens_no_delim: "delim \<notin> set x \<Longrightarrow> tokens delim x = [x]"
  by (induction x) auto

lemma tokens_append_delim: "delim \<notin> set x \<Longrightarrow> tokens delim (x @ delim # s) = x # tokens delim s"
  by (induction x) auto

text \<open>Splitting what was joined from parts without the separator gives the parts.\<close>

lemma tokens_Join: "xs \<noteq> [] \<Longrightarrow> \<forall>x\<in>set xs. delim \<notin> set x \<Longrightarrow> tokens delim (Join xs [delim]) = xs"
proof (induction xs)
  case (Cons x xs)
  show ?case
  proof (cases xs)
    case Nil
    then show ?thesis using Cons.prems by (simp add: Join_Cons tokens_no_delim)
  next
    case (Cons y ys)
    then have "Join (x # xs) [delim] = x @ delim # Join xs [delim]" by (simp add: Join_Cons)
    then show ?thesis using Cons.prems Cons.IH Cons by (simp add: tokens_append_delim)
  qed
qed simp

subsection \<open>Leading digits\<close>

lemma digit_range: "isdigit c \<longleftrightarrow> \<not> (c < CHR ''0'' \<or> c > CHR ''9'')"
  by (simp add: isdigit_def less_char_def not_less)

lemma not_digit: "(c < CHR ''0'' \<or> CHR ''9'' < c) = (\<not> isdigit c)"
  by (simp add: digit_range)

text \<open>The overflow test after the fact is exact: a wrapped result is always less than eight times its predecessor.\<close>

lemma overflow_test:
  fixes v :: u64
  assumes "d \<le> 9"
  shows "(v * 10 + of_nat d) div 8 < v \<longleftrightarrow> 2 ^ 64 \<le> uint v * 10 + int d"
    and "uint v * 10 + int d < 2 ^ 64 \<Longrightarrow> uint (v * 10 + of_nat d) = uint v * 10 + int d"
proof -
  have v: "0 \<le> uint v" "uint v < 2 ^ 64" using uint_lt2p [of v] by simp_all
  have e: "uint (v * 10 + of_nat d) = (uint v * 10 + int d) mod 2 ^ 64"
    by (simp add: uint_word_ariths unsigned_of_nat take_bit_eq_mod zmod_int mod_simps)
  have "(v * 10 + of_nat d) div 8 < v \<longleftrightarrow> (uint v * 10 + int d) mod 2 ^ 64 div 8 < uint v"
    by (simp add: word_less_def uint_div_distrib e)
  also have "\<dots> \<longleftrightarrow> 2 ^ 64 \<le> uint v * 10 + int d"
  proof (cases "2 ^ 64 \<le> uint v * 10 + int d")
    case True
    define q where "q = (uint v * 10 + int d) div 2 ^ 64"
    have m: "(uint v * 10 + int d) mod 2 ^ 64 = uint v * 10 + int d - q * 2 ^ 64"
      by (simp add: q_def minus_div_mult_eq_mod)
    have q: "1 \<le> q" using zdiv_mono1 [OF True, of "2 ^ 64"] by (simp add: q_def)
    define r where "r = (uint v * 10 + int d) mod 2 ^ 64"
    have "r = uint v * 10 + int d - q * 18446744073709551616" "r < 18446744073709551616" "int d \<le> 9"
      using m assms by (simp_all add: r_def)
    then have "r < 8 * uint v" using q by linarith
    then have "(uint v * 10 + int d) mod 2 ^ 64 < 8 * uint v" by (simp only: r_def)
    then show ?thesis using True by (simp add: div_less_iff_less_mult mult.commute)
  next
    case False
    then have "(uint v * 10 + int d) mod 2 ^ 64 = uint v * 10 + int d" using v by simp
    then show ?thesis using False v by linarith
  qed
  finally show "(v * 10 + of_nat d) div 8 < v \<longleftrightarrow> 2 ^ 64 \<le> uint v * 10 + int d" .
  show "uint v * 10 + int d < 2 ^ 64 \<Longrightarrow> uint (v * 10 + of_nat d) = uint v * 10 + int d"
    using e v by simp
qed

lemma leading_digits_loop_eq:
  "leading_digits_loop s v =
    (let n = num_from (uint v) (takeWhile isdigit s)
     in if n < 2 ^ 64 then Some (dropWhile isdigit s, word_of_int n) else None)"
proof (induction s v rule: leading_digits_loop.induct)
  case (1 v)
  then show ?case using uint_lt2p [of v] by simp
next
  case (2 c p v)
  show ?case
  proof (cases "isdigit c")
    case False
    then show ?thesis using uint_lt2p [of v] by (simp add: not_digit)
  next
    case True
    then have d: "code c - 48 \<le> 9" "dval c = int (code c - 48)" by (auto simp: isdigit_def dval_def)
    have digits: "\<forall>x\<in>set (takeWhile isdigit p). isdigit x" by (auto dest: set_takeWhileD)
    have ge: "uint v * 10 + dval c \<le> num_from (uint v * 10 + dval c) (takeWhile isdigit p)"
      using num_from_ge [OF _ digits, of "uint v * 10 + dval c"] d(2) by simp
    show ?thesis
    proof (cases "2 ^ 64 \<le> uint v * 10 + dval c")
      case over: True
      then show ?thesis using True overflow_test(1) [OF d(1), of v] ge
        by (simp add: not_digit d(2) Let_def)
    next
      case False
      then show ?thesis using True overflow_test [OF d(1), of v] 2
        by (simp add: not_digit d(2) Let_def)
    qed
  qed
qed

lemma length_dropWhile_less: "length (dropWhile P s) < length s \<longleftrightarrow> takeWhile P s \<noteq> []"
  by (cases s) (auto simp: less_Suc_eq_le length_dropWhile_le)

subsection \<open>Properties\<close>

text \<open>C36: Escaping is lossless and safe to print: unescaping an escaped text gives back every byte of it, and the escaped
  text consists of printable ASCII characters only. Octal escapes keep their three digits, so a digit that follows
  is never swallowed.\<close>

theorem cescape_roundtrip:
  "CUnescape (CEscape s) = Inr s \<and> (\<forall>c\<in>set (CEscape s). isprint c)"
proof
  show "CUnescape (CEscape s) = Inr s"
    using cunescape_CEscape [of s "[]" "[]"] by (simp add: CUnescape_def)
  show "\<forall>c\<in>set (CEscape s). isprint c"
    using escape_byte_print by (auto simp: CEscape_def cescape_loop_eq)
qed

theorem cescape_roundtrip_witness:
  "CUnescape (CEscape [CHR 0x01, CHR ''7'', CHR 0x0A]) = Inr [CHR 0x01, CHR ''7'', CHR 0x0A]"
  using cescape_roundtrip by blast

text \<open>\<open>CUnescape\<close> reserves as many bytes as the source has before it writes; whatever the escapes are, no more than
  that many are written.\<close>

theorem cunescape_fits:
  assumes "CUnescape source = Inr dest"
  shows "length dest \<le> length source"
  using cunescape_length [of source "[]" dest] assms by (simp add: CUnescape_def)

theorem cunescape_fits_witness:
  "CUnescape ''ab'' = Inr ''ab'' \<and> length ''ab'' \<le> length ''ab''"
proof -
  have "CUnescape ''ab'' = Inr ''ab''" by (simp add: CUnescape_def)
  then show ?thesis using cunescape_fits [of "''ab''" "''ab''"] by simp
qed

text \<open>\<open>ConsumeLeadingDigits\<close> takes the longest run of leading digits, and fails exactly when there is none or when
  its value does not fit 64 bits: the overflow test on the wrapped product misses no overflow and reports no other.\<close>

theorem ConsumeLeadingDigits_exact:
  "ConsumeLeadingDigits s =
    (let ds = takeWhile isdigit s; n = num_from 0 ds
     in if ds \<noteq> [] \<and> n < 2 ^ 64 then Some (dropWhile isdigit s, word_of_int n) else None)"
  by (simp add: ConsumeLeadingDigits_def leading_digits_loop_eq length_dropWhile_less Let_def)

text \<open>Splitting at a separator and joining with it are inverse: the parts of a text, joined, are the text, and parts
  free of the separator, joined, split into the same parts.\<close>

theorem split_join:
  "Join (Split s delim AllowEmpty) [delim] = s \<and>
   (xs \<noteq> [] \<longrightarrow> (\<forall>x\<in>set xs. delim \<notin> set x) \<longrightarrow> Join xs [delim] \<noteq> [] \<longrightarrow> Split (Join xs [delim]) delim AllowEmpty = xs)"
  by (simp add: Split_eq AllowEmpty_def [abs_def] Join_tokens tokens_Join)

theorem split_join_witness:
  "Split (Join [''a'', [], ''b''] '','') (CHR '','') AllowEmpty = [''a'', [], ''b'']"
  using split_join [of "[]" "CHR '',''" "[''a'', [], ''b'']"] by (simp add: Join_def)

end
