(* ===== verification/TensorSlice.thy ===== *)
theory TensorSlice
  imports TensorShape StrUtil
begin

text \<open>
  Slices of a tensor (\<open>core/framework/tensor_slice.cc\<close>): a start and a length in each dimension, a negative length
  standing for the full dimension. The two vectors of the source are the fields of the record; their elements and
  the ends computed from them are 32-bit integers. \<open>cells\<close> gives a slice its meaning, the set of index vectors of
  a shape that it selects, and the lemmas relate every operation to that set.
\<close>

subsection \<open>The slice and its operations\<close>

definition wrap32 :: "int \<Rightarrow> int" where
  "wrap32 n = (n + 2 ^ 31) mod 2 ^ 32 - 2 ^ 31"

lemma wrap32_id: "int32_range n \<Longrightarrow> wrap32 n = n"
  by (simp add: wrap32_def int32_range_def)

record tensor_slice =
  starts :: "int list"
  lengths :: "int list"

definition kFullExtent :: int where "kFullExtent = - 1"

definition EmptySlice :: tensor_slice where
  "EmptySlice = \<lparr>starts = [], lengths = []\<rparr>"

definition sdims :: "tensor_slice \<Rightarrow> nat" where
  "sdims s = length (starts s)"

definition slice_start :: "tensor_slice \<Rightarrow> nat \<Rightarrow> int" where "slice_start s d = starts s ! d"
definition slice_length :: "tensor_slice \<Rightarrow> nat \<Rightarrow> int" where "slice_length s d = lengths s ! d"
definition slice_end :: "tensor_slice \<Rightarrow> nat \<Rightarrow> int" where "slice_end s d = wrap32 (slice_start s d + slice_length s d)"

definition set_start :: "nat \<Rightarrow> int \<Rightarrow> tensor_slice \<Rightarrow> tensor_slice" where
  "set_start d x s = s\<lparr>starts := (starts s)[d := x]\<rparr>"

definition set_length :: "nat \<Rightarrow> int \<Rightarrow> tensor_slice \<Rightarrow> tensor_slice" where
  "set_length d x s = s\<lparr>lengths := (lengths s)[d := x]\<rparr>"

definition IsFullAt :: "tensor_slice \<Rightarrow> nat \<Rightarrow> bool" where
  "IsFullAt s d \<longleftrightarrow> lengths s ! d < 0"

definition SliceClear :: "tensor_slice \<Rightarrow> tensor_slice" where
  "SliceClear s = s\<lparr>starts := [], lengths := []\<rparr>"

fun push_full :: "nat list \<Rightarrow> tensor_slice \<Rightarrow> tensor_slice" where
  "push_full [] s = s"
| "push_full (d # ds) s = push_full ds (s\<lparr>starts := starts s @ [0], lengths := lengths s @ [kFullExtent]\<rparr>)"

definition SetFullSlice :: "nat \<Rightarrow> tensor_slice \<Rightarrow> tensor_slice" where
  "SetFullSlice dim s = push_full [0..<dim] (SliceClear s)"

text \<open>Construction from pairs, and from an extent list in which a missing length is \<open>None\<close>.\<close>

fun push_extents :: "(int \<times> int) list \<Rightarrow> tensor_slice \<Rightarrow> tensor_slice" where
  "push_extents [] s = s"
| "push_extents (e # es) s = push_extents es (s\<lparr>starts := starts s @ [fst e], lengths := lengths s @ [snd e]\<rparr>)"

definition MkTensorSlice :: "(int \<times> int) list \<Rightarrow> tensor_slice" where
  "MkTensorSlice extents = push_extents extents EmptySlice"

type_synonym extent = "int \<times> int option"

definition HasExtentLength :: "extent \<Rightarrow> bool" where
  "HasExtentLength e \<longleftrightarrow> snd e \<noteq> None"

definition GetExtentLength :: "extent \<Rightarrow> int" where
  "GetExtentLength e = (if \<not> HasExtentLength e then - 1 else the (snd e))"

text \<open>The fields of an extent are 64-bit, the vectors 32-bit.\<close>

fun push_protos :: "extent list \<Rightarrow> tensor_slice \<Rightarrow> tensor_slice" where
  "push_protos [] s = s"
| "push_protos (e # es) s =
    push_protos es (s\<lparr>starts := starts s @ [wrap32 (fst e)], lengths := lengths s @ [wrap32 (GetExtentLength e)]\<rparr>)"

definition SliceFromProto :: "extent list \<Rightarrow> tensor_slice" where
  "SliceFromProto proto = push_protos proto EmptySlice"

text \<open>\<open>AsProto\<close> appends to the extents the message has; a full dimension gets an extent with default fields.\<close>

fun as_proto_loop :: "tensor_slice \<Rightarrow> nat list \<Rightarrow> extent list \<Rightarrow> extent list" where
  "as_proto_loop s [] proto = proto"
| "as_proto_loop s (d # ds) proto =
    as_proto_loop s ds (proto @ [if \<not> IsFullAt s d then (starts s ! d, Some (lengths s ! d)) else (0, None)])"

definition SliceAsProto :: "tensor_slice \<Rightarrow> extent list \<Rightarrow> extent list" where
  "SliceAsProto s proto = as_proto_loop s [0..<sdims s] proto"

fun extend_loop :: "nat list \<Rightarrow> tensor_slice \<Rightarrow> tensor_slice" where
  "extend_loop [] s = s"
| "extend_loop (d # ds) s = extend_loop ds (s\<lparr>starts := (starts s)[d := 0], lengths := (lengths s)[d := kFullExtent]\<rparr>)"

definition resize :: "nat \<Rightarrow> int list \<Rightarrow> int list" where
  "resize n xs = take n xs @ replicate (n - length xs) 0"

definition Extend :: "nat \<Rightarrow> tensor_slice \<Rightarrow> tensor_slice" where
  "Extend dim s =
    (let old_dim = sdims s; s = s\<lparr>starts := resize dim (starts s), lengths := resize dim (lengths s)\<rparr>
     in extend_loop [old_dim..<dim] s)"

fun debug_loop :: "tensor_slice \<Rightarrow> nat list \<Rightarrow> bool \<Rightarrow> string \<Rightarrow> string" where
  "debug_loop s [] first buffer = buffer"
| "debug_loop s (d # ds) first buffer =
    (let buffer = (if \<not> first then buffer @ '':'' else buffer);
         buffer = (if IsFullAt s d then buffer @ ''-''
                   else buffer @ FastInt32ToBufferLeft (word_of_int (starts s ! d)) @ '','' @
                     FastInt32ToBufferLeft (word_of_int (lengths s ! d)))
     in debug_loop s ds False buffer)"

definition SliceDebugString :: "tensor_slice \<Rightarrow> string" where
  "SliceDebugString s = debug_loop s [0..<sdims s] True []"

text \<open>\<open>sscanf(x, "%d,%d%c", &s, &l, &junk) == 2\<close>: two numbers with optional white space and sign, a comma right
  behind the first, and nothing behind the second. Numbers outside the type are undefined behaviour; they wrap here. The strings hold no
  zero byte, at which the C function would stop.\<close>

definition scan_int :: "string \<Rightarrow> (int \<times> string) option" where
  "scan_int x =
    (let t = dropWhile isspace x;
         (neg, t) = (case t of [] \<Rightarrow> (False, t) | c # r \<Rightarrow> if c = CHR ''-'' then (True, r) else if c = CHR ''+'' then (False, r) else (False, t));
         ds = takeWhile isdigit t
     in if ds = [] then None
        else Some (wrap32 (if neg then - num_from 0 ds else num_from 0 ds), dropWhile isdigit t))"

definition scan_extent :: "string \<Rightarrow> (int \<times> int) option" where
  "scan_extent x =
    (case scan_int x of
       Some (s, c # r) \<Rightarrow> if c = CHR '','' then (case scan_int r of Some (l, []) \<Rightarrow> Some (s, l) | _ \<Rightarrow> None) else None
     | _ \<Rightarrow> None)"

datatype slice_error = NotAPair string | BadExtent int int | MismatchingRanks | OutOfBounds nat

text \<open>\<open>Parse\<close> appends to the slice it is given; what it appended before an error stays.\<close>

fun parse_loop :: "string list \<Rightarrow> tensor_slice \<Rightarrow> slice_error option \<times> tensor_slice" where
  "parse_loop [] s = (None, s)"
| "parse_loop (x # items) s =
    (let push = (\<lambda>st l. parse_loop items (s\<lparr>starts := starts s @ [st], lengths := lengths s @ [l]\<rparr>))
     in if x = ''-'' then push 0 kFullExtent
        else case scan_extent x of
          None \<Rightarrow> (Some (NotAPair x), s)
        | Some (st, l) \<Rightarrow> if st < 0 \<or> l \<le> 0 then (Some (BadExtent st l), s) else push st l)"

definition ParseSlice :: "string \<Rightarrow> tensor_slice \<Rightarrow> slice_error option \<times> tensor_slice" where
  "ParseSlice str out = parse_loop (Split str (CHR '':'') SkipEmpty) out"

text \<open>\<open>Intersect\<close>: the loop over the dimensions, with the slice it stores into.\<close>

fun intersect_loop :: "tensor_slice \<Rightarrow> tensor_slice \<Rightarrow> nat list \<Rightarrow> tensor_slice \<Rightarrow> bool \<times> tensor_slice" where
  "intersect_loop a b [] result = (True, result)"
| "intersect_loop a b (d # ds) result =
    (if IsFullAt a d then
       intersect_loop a b ds (set_length d (slice_length b d) (set_start d (slice_start b d) result))
     else if IsFullAt b d then
       intersect_loop a b ds (set_length d (slice_length a d) (set_start d (slice_start a d) result))
     else
       let s = max (slice_start a d) (slice_start b d);
           l = wrap32 (min (slice_end a d) (slice_end b d) - s)
       in if l > 0 then intersect_loop a b ds (set_length d l (set_start d s result))
          else (False, SliceClear result))"

definition Intersect :: "tensor_slice \<Rightarrow> tensor_slice \<Rightarrow> tensor_slice \<Rightarrow> bool \<times> tensor_slice" where
  "Intersect a b result =
    (if sdims a \<noteq> sdims b then (False, result)
     else intersect_loop a b [0..<sdims a] (SetFullSlice (sdims a) result))"

text \<open>\<open>Intersect\<close> with a null result.\<close>

definition Overlaps :: "tensor_slice \<Rightarrow> tensor_slice \<Rightarrow> bool" where
  "Overlaps a b = fst (Intersect a b EmptySlice)"

fun relative_loop :: "tensor_slice \<Rightarrow> tensor_slice \<Rightarrow> nat list \<Rightarrow> tensor_slice \<Rightarrow> tensor_slice" where
  "relative_loop a sub [] relative = relative"
| "relative_loop a sub (d # ds) relative =
    (if IsFullAt a d then
       relative_loop a sub ds (set_length d (slice_length sub d) (set_start d (slice_start sub d) relative))
     else
       relative_loop a sub ds
         (set_length d (slice_length sub d) (set_start d (wrap32 (slice_start sub d - slice_start a d)) relative)))"

definition ComputeRelative :: "tensor_slice \<Rightarrow> tensor_slice \<Rightarrow> tensor_slice \<Rightarrow> tensor_slice" where
  "ComputeRelative a sub relative = relative_loop a sub [0..<sdims a] (SetFullSlice (sdims a) relative)"

fun cover_loop :: "tensor_slice \<Rightarrow> nat list \<Rightarrow> tensor_slice \<Rightarrow> tensor_slice" where
  "cover_loop b [] s = s"
| "cover_loop b (d # ds) s =
    (if \<not> IsFullAt s d then
       if IsFullAt b d then
         cover_loop b ds (s\<lparr>starts := (starts s)[d := 0], lengths := (lengths s)[d := kFullExtent]\<rparr>)
       else
         let new_end = max (slice_end s d) (slice_end b d);
             s = set_start d (min (slice_start s d) (slice_start b d)) s
         in cover_loop b ds (set_length d (wrap32 (new_end - slice_start s d)) s)
     else cover_loop b ds s)"

definition UpdateToCover :: "tensor_slice \<Rightarrow> tensor_slice \<Rightarrow> tensor_slice" where
  "UpdateToCover b s = cover_loop b [0..<sdims s] s"

text \<open>\<open>SliceTensorShape\<close> aborts the process (\<open>None\<close>) when \<open>AddDim\<close> does.\<close>

fun slice_shape_loop :: "tensor_slice \<Rightarrow> tensor_shape \<Rightarrow> nat list \<Rightarrow> tensor_shape \<Rightarrow> (slice_error option \<times> tensor_shape) option" where
  "slice_shape_loop s shape [] result = Some (None, result)"
| "slice_shape_loop s shape (d # ds) result =
    (if IsFullAt s d then
       (case AddDim (dim_size shape d) result of None \<Rightarrow> None | Some r \<Rightarrow> slice_shape_loop s shape ds r)
     else if slice_end s d \<le> dim_size shape d then
       (case AddDim (slice_length s d) result of None \<Rightarrow> None | Some r \<Rightarrow> slice_shape_loop s shape ds r)
     else Some (Some (OutOfBounds d), Clear result))"

definition SliceTensorShape :: "tensor_slice \<Rightarrow> tensor_shape \<Rightarrow> tensor_shape \<Rightarrow> (slice_error option \<times> tensor_shape) option" where
  "SliceTensorShape s shape result =
    (let result = Clear result
     in if dims shape \<noteq> sdims s then Some (Some MismatchingRanks, result)
        else slice_shape_loop s shape [0..<sdims s] result)"

text \<open>\<open>FillIndicesAndSizes<n>\<close>; a failed \<open>CHECK\<close> is \<open>None\<close>.\<close>

definition FillIndicesAndSizes :: "nat \<Rightarrow> tensor_slice \<Rightarrow> tensor_shape \<Rightarrow> (int list \<times> int list) option" where
  "FillIndicesAndSizes n s shape =
    (if dims shape \<noteq> sdims s then None
     else if n < sdims s then None
     else Some (map (\<lambda>d. if IsFullAt s d then 0 else starts s ! d) [0..<sdims s] @ replicate (n - sdims s) 0,
                map (\<lambda>d. if IsFullAt s d then dim_size shape d else lengths s ! d) [0..<sdims s] @ replicate (n - sdims s) 1))"


subsection \<open>The operations one dimension at a time\<close>

text \<open>A slice given by functions of the dimension.\<close>

definition slice_of :: "nat \<Rightarrow> (nat \<Rightarrow> int \<times> int) \<Rightarrow> tensor_slice" where
  "slice_of n f = \<lparr>starts = map (\<lambda>d. fst (f d)) [0..<n], lengths = map (\<lambda>d. snd (f d)) [0..<n]\<rparr>"

lemma slice_of_simps [simp]:
  "sdims (slice_of n f) = n" "length (starts (slice_of n f)) = n" "length (lengths (slice_of n f)) = n"
  "d < n \<Longrightarrow> starts (slice_of n f) ! d = fst (f d)" "d < n \<Longrightarrow> lengths (slice_of n f) ! d = snd (f d)"
  by (simp_all add: slice_of_def sdims_def)

lemma push_full_eq:
  "push_full ds s = s\<lparr>starts := starts s @ map (\<lambda>_. 0) ds, lengths := lengths s @ map (\<lambda>_. kFullExtent) ds\<rparr>"
  by (induction ds arbitrary: s) auto

lemma SetFullSlice_eq: "SetFullSlice n s = slice_of n (\<lambda>_. (0, kFullExtent))"
  by (simp add: SetFullSlice_def push_full_eq SliceClear_def slice_of_def)

text \<open>Overwriting the dimensions \<open>k, \<dots>, n - 1\<close> of a slice one after the other.\<close>

fun put_loop :: "(nat \<Rightarrow> int \<times> int) \<Rightarrow> nat list \<Rightarrow> tensor_slice \<Rightarrow> tensor_slice" where
  "put_loop f [] r = r"
| "put_loop f (d # ds) r = put_loop f ds (set_length d (snd (f d)) (set_start d (fst (f d)) r))"

lemma update_prefix:
  "(map (\<lambda>d. if d < k then g d else xs ! d) [0..<length xs])[k := g k] = map (\<lambda>d. if d < Suc k then g d else xs ! d) [0..<length xs]"
  by (rule nth_equalityI) (auto simp: nth_list_update less_Suc_eq)

lemma put_loop_upt:
  "put_loop f [0..<k] r = r\<lparr>starts := map (\<lambda>d. if d < k then fst (f d) else starts r ! d) [0..<length (starts r)],
     lengths := map (\<lambda>d. if d < k then snd (f d) else lengths r ! d) [0..<length (lengths r)]\<rparr>"
proof (induction k)
  case 0
  then show ?case by (simp add: map_nth)
next
  case (Suc k)
  have "put_loop f (ds @ [d]) r = put_loop f [d] (put_loop f ds r)" for ds d
    by (induction ds arbitrary: r) auto
  moreover have "[0..<Suc k] = [0..<k] @ [k]" by simp
  ultimately show ?case using Suc
    by (simp add: set_start_def set_length_def update_prefix [where g = "\<lambda>d. fst (f d)"]
        update_prefix [where g = "\<lambda>d. snd (f d)"] del: upt_Suc)
qed

lemma put_loop_all:
  assumes "length (starts r) = n" "length (lengths r) = n"
  shows "put_loop f [0..<n] r = slice_of n f"
  using assms by (simp add: put_loop_upt slice_of_def)

definition inter1 :: "tensor_slice \<Rightarrow> tensor_slice \<Rightarrow> nat \<Rightarrow> int \<times> int" where
  "inter1 a b d =
    (if IsFullAt a d then (slice_start b d, slice_length b d)
     else if IsFullAt b d then (slice_start a d, slice_length a d)
     else let s = max (slice_start a d) (slice_start b d) in (s, wrap32 (min (slice_end a d) (slice_end b d) - s)))"

definition meets :: "tensor_slice \<Rightarrow> tensor_slice \<Rightarrow> nat \<Rightarrow> bool" where
  "meets a b d \<longleftrightarrow> IsFullAt a d \<or> IsFullAt b d \<or> snd (inter1 a b d) > 0"

lemma intersect_loop_eq:
  "intersect_loop a b ds r = (if \<forall>d\<in>set ds. meets a b d then (True, put_loop (inter1 a b) ds r)
     else (False, EmptySlice))"
proof (induction ds arbitrary: r)
  case (Cons d ds)
  have e: "SliceClear r = EmptySlice" for r by (simp add: SliceClear_def EmptySlice_def)
  have "intersect_loop a b (d # ds) r =
    (if meets a b d then intersect_loop a b ds (set_length d (snd (inter1 a b d)) (set_start d (fst (inter1 a b d)) r))
     else (False, EmptySlice))"
    by (simp add: e meets_def inter1_def Let_def)
  then show ?case by (simp add: Cons.IH del: intersect_loop.simps)
qed simp

lemma Intersect_eq:
  "Intersect a b r =
    (if sdims a \<noteq> sdims b then (False, r)
     else if \<forall>d < sdims a. meets a b d then (True, slice_of (sdims a) (inter1 a b)) else (False, EmptySlice))"
  by (auto simp: Intersect_def intersect_loop_eq SetFullSlice_eq put_loop_all)

lemma Overlaps_eq: "Overlaps a b \<longleftrightarrow> sdims a = sdims b \<and> (\<forall>d < sdims a. meets a b d)"
  by (simp add: Overlaps_def Intersect_eq)

definition relative1 :: "tensor_slice \<Rightarrow> tensor_slice \<Rightarrow> nat \<Rightarrow> int \<times> int" where
  "relative1 a sub d =
    (if IsFullAt a d then (slice_start sub d, slice_length sub d)
     else (wrap32 (slice_start sub d - slice_start a d), slice_length sub d))"

lemma ComputeRelative_eq: "ComputeRelative a sub r = slice_of (sdims a) (relative1 a sub)"
proof -
  have "relative_loop a sub ds r = put_loop (relative1 a sub) ds r" for ds r
    by (induction ds arbitrary: r) (simp_all add: relative1_def)
  then show ?thesis by (simp add: ComputeRelative_def SetFullSlice_eq put_loop_all)
qed

definition cover1 :: "tensor_slice \<Rightarrow> tensor_slice \<Rightarrow> nat \<Rightarrow> int \<times> int" where
  "cover1 b s d =
    (if IsFullAt s d then (slice_start s d, slice_length s d)
     else if IsFullAt b d then (0, kFullExtent)
     else let m = min (slice_start s d) (slice_start b d) in (m, wrap32 (max (slice_end s d) (slice_end b d) - m)))"

lemma UpdateToCover_eq:
  assumes "length (lengths s) = sdims s"
  shows "UpdateToCover b s = slice_of (sdims s) (cover1 b s)"
proof -
  have step: "cover_loop b (d # ds) s = cover_loop b ds (set_length d (snd (cover1 b s d)) (set_start d (fst (cover1 b s d)) s))"
    if "d < length (starts s)" for d ds s
    using that by (simp add: cover1_def IsFullAt_def set_start_def set_length_def slice_start_def slice_length_def Let_def)
  have "cover_loop b ds r = put_loop (cover1 b s) ds r"
    if "distinct ds" "\<forall>d\<in>set ds. d < length (starts r)" "\<forall>d\<in>set ds. starts r ! d = starts s ! d \<and> lengths r ! d = lengths s ! d" for ds r
    using that
  proof (induction ds arbitrary: r)
    case (Cons d ds)
    have "cover1 b r d = cover1 b s d"
      using Cons.prems by (simp add: cover1_def IsFullAt_def slice_end_def slice_start_def slice_length_def)
    moreover have "d' \<noteq> d" if "d' \<in> set ds" for d' using Cons.prems that by auto
    moreover have "cover_loop b (d # ds) r = cover_loop b ds (set_length d (snd (cover1 b r d)) (set_start d (fst (cover1 b r d)) r))"
      using Cons.prems by (intro step) simp
    moreover have "cover_loop b ds (set_length d v (set_start d u r)) = put_loop (cover1 b s) ds (set_length d v (set_start d u r))" for u v
      by (rule Cons.IH) (use Cons.prems in \<open>auto simp: set_start_def set_length_def nth_list_update\<close>)
    ultimately show ?case by (simp only: put_loop.simps)
  qed simp
  then show ?thesis using assms by (simp add: UpdateToCover_def put_loop_all sdims_def)
qed

subsection \<open>The cells of a slice\<close>

text \<open>A slice the code can use: no negative start, and ends within 32 bits.\<close>

definition wf_slice :: "tensor_slice \<Rightarrow> bool" where
  "wf_slice s \<longleftrightarrow> length (lengths s) = sdims s \<and>
    (\<forall>d < sdims s. lengths s ! d \<ge> 0 \<longrightarrow> starts s ! d \<ge> 0 \<and> starts s ! d + lengths s ! d < 2 ^ 31)"

text \<open>The indices of a dimension of \<open>n\<close> elements that an extent selects.\<close>

definition ext :: "int \<Rightarrow> int \<times> int \<Rightarrow> int set" where
  "ext n e = (if snd e < 0 then {0..<n} else {0..<n} \<inter> {fst e..<fst e + snd e})"

definition exts :: "int list \<Rightarrow> tensor_slice \<Rightarrow> nat \<Rightarrow> int set" where
  "exts sizes s d = ext (sizes ! d) (starts s ! d, lengths s ! d)"

definition cells :: "int list \<Rightarrow> tensor_slice \<Rightarrow> int list set" where
  "cells sizes s = listset (map (exts sizes s) [0..<length sizes])"

lemma listset_iff: "xs \<in> listset As \<longleftrightarrow> length xs = length As \<and> (\<forall>i<length As. xs ! i \<in> As ! i)"
proof (induction As arbitrary: xs)
  case (Cons A As)
  show ?case
    by (cases xs) (auto simp: set_Cons_def Cons.IH nth_Cons split: nat.splits)
qed simp

lemma card_listset: "\<forall>A\<in>set As. finite A \<Longrightarrow> finite (listset As) \<and> card (listset As) = prod_list (map card As)"
proof (induction As)
  case (Cons A As)
  have "listset (A # As) = (\<lambda>(x, xs). x # xs) ` (A \<times> listset As)"
    by (auto simp: set_Cons_def)
  moreover have "inj_on (\<lambda>(x, xs). x # xs) (A \<times> listset As)" by (auto intro!: inj_onI)
  ultimately show ?case using Cons by (simp add: card_image card_cartesian_product)
qed simp

lemma cells_iff: "xs \<in> cells sizes s \<longleftrightarrow> length xs = length sizes \<and> (\<forall>d<length sizes. xs ! d \<in> exts sizes s d)"
  by (simp add: cells_def listset_iff)

lemma finite_ext [simp]: "finite (ext n e)"
  by (simp add: ext_def)

lemma finite_cells [simp]: "finite (cells sizes s)"
  using card_listset [of "map (exts sizes s) [0..<length sizes]"] by (auto simp: cells_def exts_def)

lemma wf_slice_ends:
  assumes "wf_slice s" "d < sdims s" "\<not> IsFullAt s d"
  shows "0 \<le> slice_start s d" "0 \<le> slice_length s d" "slice_end s d = slice_start s d + slice_length s d"
    "slice_start s d + slice_length s d < 2 ^ 31"
  using assms wrap32_id [of "starts s ! d + lengths s ! d"]
  by (auto simp: wf_slice_def IsFullAt_def slice_start_def slice_length_def slice_end_def int32_range_def not_less)

text \<open>Intersection in one dimension.\<close>

lemma inter1_wf:
  assumes "wf_slice a" "wf_slice b" "d < sdims a" "d < sdims b" "\<not> IsFullAt a d" "\<not> IsFullAt b d"
  shows "snd (inter1 a b d) = min (slice_end a d) (slice_end b d) - max (slice_start a d) (slice_start b d)"
  using wf_slice_ends [OF assms(1,3,5)] wf_slice_ends [OF assms(2,4,6)] assms(5,6)
  by (simp add: inter1_def Let_def) (rule wrap32_id, auto simp: int32_range_def min_def max_def)

lemma ext_inter1:
  assumes "wf_slice a" "wf_slice b" "d < sdims a" "d < sdims b"
  shows "meets a b d \<Longrightarrow> ext n (inter1 a b d) = ext n (starts a ! d, lengths a ! d) \<inter> ext n (starts b ! d, lengths b ! d)"
    and "\<not> meets a b d \<Longrightarrow> ext n (starts a ! d, lengths a ! d) \<inter> ext n (starts b ! d, lengths b ! d) = {}"
proof -
  have f: "fst (inter1 a b d) = max (slice_start a d) (slice_start b d)" if "\<not> IsFullAt a d" "\<not> IsFullAt b d"
    using that by (simp add: inter1_def Let_def)
  consider "IsFullAt a d" | "IsFullAt b d" "\<not> IsFullAt a d" | "\<not> IsFullAt a d" "\<not> IsFullAt b d" by blast
  then show "meets a b d \<Longrightarrow> ext n (inter1 a b d) = ext n (starts a ! d, lengths a ! d) \<inter> ext n (starts b ! d, lengths b ! d)"
  proof cases
    case 3
    then show "meets a b d \<Longrightarrow> ?thesis"
      using inter1_wf [OF assms 3] f wf_slice_ends [OF assms(1,3) 3(1)] wf_slice_ends [OF assms(2,4) 3(2)]
      by (auto simp: ext_def meets_def slice_start_def slice_length_def IsFullAt_def)
  qed (auto simp: ext_def inter1_def slice_start_def slice_length_def IsFullAt_def)
  show "\<not> meets a b d \<Longrightarrow> ext n (starts a ! d, lengths a ! d) \<inter> ext n (starts b ! d, lengths b ! d) = {}"
  proof -
    assume m: "\<not> meets a b d"
    then have nf: "\<not> IsFullAt a d" "\<not> IsFullAt b d" by (auto simp: meets_def)
    show ?thesis
      using m inter1_wf [OF assms nf] wf_slice_ends [OF assms(1,3) nf(1)] wf_slice_ends [OF assms(2,4) nf(2)] nf
      by (auto simp: ext_def meets_def slice_start_def slice_length_def IsFullAt_def)
  qed
qed


lemma wf_inter:
  assumes "wf_slice a" "wf_slice b" "sdims a = sdims b" "\<forall>d < sdims a. meets a b d"
  shows "wf_slice (slice_of (sdims a) (inter1 a b))"
proof -
  have "0 \<le> fst (inter1 a b d) \<and> fst (inter1 a b d) + snd (inter1 a b d) < 2 ^ 31"
    if "d < sdims a" "0 \<le> snd (inter1 a b d)" for d
  proof -
    consider "IsFullAt a d" | "IsFullAt b d" "\<not> IsFullAt a d" | "\<not> IsFullAt a d" "\<not> IsFullAt b d" by blast
    then show ?thesis
    proof cases
      case 3
      then show ?thesis
        using inter1_wf [OF assms(1,2) that(1) that(1) [unfolded assms(3)] 3] wf_slice_ends [OF assms(1) that(1) 3(1)]
          wf_slice_ends [OF assms(2) that(1) [unfolded assms(3)] 3(2)]
        by (auto simp: inter1_def Let_def)
    qed (use assms that in \<open>auto simp: wf_slice_def inter1_def slice_start_def slice_length_def IsFullAt_def\<close>)
  qed
  then show ?thesis by (simp add: wf_slice_def)
qed

lemma Intersect_cells:
  assumes "wf_slice a" "wf_slice b" "sdims a = length sizes" "sdims b = length sizes" "Intersect a b r = (hit, i)"
  shows "(hit \<longrightarrow> wf_slice i \<and> sdims i = length sizes \<and> cells sizes i = cells sizes a \<inter> cells sizes b) \<and>
    (\<not> hit \<longrightarrow> cells sizes a \<inter> cells sizes b = {})"
proof (cases "\<forall>d < sdims a. meets a b d")
  case True
  have eq: "exts sizes (slice_of (sdims a) (inter1 a b)) d = exts sizes a d \<inter> exts sizes b d" if "d < length sizes" for d
    using ext_inter1(1) [OF assms(1,2), of d "sizes ! d"] True that assms(3,4) by (simp add: exts_def)
  have "cells sizes (slice_of (sdims a) (inter1 a b)) = cells sizes a \<inter> cells sizes b"
    by (rule set_eqI) (auto simp: cells_iff eq)
  then show ?thesis using True assms wf_inter [OF assms(1,2)] by (auto simp: Intersect_eq)
next
  case False
  then obtain d where d: "d < length sizes" "\<not> meets a b d" using assms(3) by auto
  then have "exts sizes a d \<inter> exts sizes b d = {}"
    using ext_inter1(2) [OF assms(1,2), of d "sizes ! d"] assms(3,4) by (simp add: exts_def)
  then have "cells sizes a \<inter> cells sizes b = {}" using d(1) by (auto simp: cells_iff) (meson disjoint_iff)
  moreover have "\<not> hit" using False assms(3-5) by (auto simp: Intersect_eq simp del: not_all split: if_splits)
  ultimately show ?thesis by simp
qed

text \<open>When every dimension has elements and the slices fit, an intersection that is reported is not empty.\<close>

definition fits :: "int list \<Rightarrow> tensor_slice \<Rightarrow> bool" where
  "fits sizes s \<longleftrightarrow> sdims s = length sizes \<and>
    (\<forall>d<length sizes. lengths s ! d < 0 \<or> starts s ! d + lengths s ! d \<le> sizes ! d)"

lemma UpdateToCover_cells:
  assumes "wf_slice s" "wf_slice b" "sdims s = length sizes" "sdims b = length sizes"
  shows "wf_slice (UpdateToCover b s) \<and> sdims (UpdateToCover b s) = length sizes \<and>
    cells sizes s \<union> cells sizes b \<subseteq> cells sizes (UpdateToCover b s)"
proof -
  have u: "UpdateToCover b s = slice_of (length sizes) (cover1 b s)"
    using assms by (simp add: UpdateToCover_eq wf_slice_def)
  have one: "(0 \<le> snd (cover1 b s d) \<longrightarrow> 0 \<le> fst (cover1 b s d) \<and> fst (cover1 b s d) + snd (cover1 b s d) < 2 ^ 31) \<and>
      exts sizes s d \<union> exts sizes b d \<subseteq> ext (sizes ! d) (cover1 b s d)" if d: "d < length sizes" for d
  proof -
    consider "IsFullAt s d" | "IsFullAt b d" "\<not> IsFullAt s d" | "\<not> IsFullAt s d" "\<not> IsFullAt b d" by blast
    then show ?thesis
    proof cases
      case 1
      then show ?thesis by (auto simp: cover1_def IsFullAt_def slice_start_def slice_length_def exts_def ext_def)
    next
      case 2
      then show ?thesis by (auto simp: cover1_def kFullExtent_def exts_def ext_def)
    next
      case 3
      let ?m = "min (slice_start s d) (slice_start b d)" and ?e = "max (slice_end s d) (slice_end b d)"
      note s = wf_slice_ends [OF assms(1) _ 3(1), unfolded assms(3), OF d] and b = wf_slice_ends [OF assms(2) _ 3(2), unfolded assms(4), OF d]
      have "wrap32 (?e - ?m) = ?e - ?m"
        using s b by (intro wrap32_id) (auto simp: int32_range_def min_def max_def)
      then have c: "cover1 b s d = (?m, ?e - ?m)" using 3 by (simp add: cover1_def Let_def)
      show ?thesis using s b by (auto simp: c exts_def ext_def slice_start_def slice_length_def)
    qed
  qed
  have "exts sizes s d \<subseteq> exts sizes (UpdateToCover b s) d" "exts sizes b d \<subseteq> exts sizes (UpdateToCover b s) d"
    if "d < length sizes" for d using one [OF that] that by (simp_all add: u exts_def)
  then have "cells sizes s \<union> cells sizes b \<subseteq> cells sizes (UpdateToCover b s)"
    by (auto simp: cells_iff) (meson subsetD)+
  moreover have "wf_slice (UpdateToCover b s)" using one by (simp add: u wf_slice_def)
  ultimately show ?thesis by (simp add: u)
qed

lemma wf_full: "wf_slice (SetFullSlice n r)" "n = length sizes \<Longrightarrow> cells sizes (SetFullSlice n r) = listset (map (\<lambda>n. {0..<n}) sizes)"
  by (auto simp: SetFullSlice_eq wf_slice_def kFullExtent_def cells_def exts_def ext_def intro!: arg_cong [of _ _ listset] nth_equalityI)

subsection \<open>Slicing a shape\<close>

definition sliced :: "int list \<Rightarrow> tensor_slice \<Rightarrow> nat \<Rightarrow> int" where
  "sliced sizes s d = (if IsFullAt s d then sizes ! d else slice_length s d)"

lemma card_exts:
  assumes "wf_slice s" "fits sizes s" "d < length sizes" "0 \<le> sizes ! d"
  shows "int (card (exts sizes s d)) = sliced sizes s d"
proof (cases "IsFullAt s d")
  case True
  then show ?thesis using assms by (simp add: exts_def ext_def sliced_def IsFullAt_def)
next
  case False
  then have "0 \<le> starts s ! d" "starts s ! d + lengths s ! d \<le> sizes ! d" "0 \<le> lengths s ! d"
    using assms by (auto simp: wf_slice_def fits_def IsFullAt_def)
  then have "{0..<sizes ! d} \<inter> {starts s ! d..<starts s ! d + lengths s ! d} = {starts s ! d..<starts s ! d + lengths s ! d}"
    by auto
  then show ?thesis using \<open>0 \<le> lengths s ! d\<close> False
    by (simp add: exts_def ext_def sliced_def IsFullAt_def slice_length_def)
qed

lemma card_cells:
  assumes "wf_slice s" "fits sizes s" "\<forall>x\<in>set sizes. 0 \<le> x"
  shows "int (card (cells sizes s)) = prod_list (map (sliced sizes s) [0..<length sizes])"
proof -
  have "card (cells sizes s) = prod_list (map (\<lambda>d. card (exts sizes s d)) [0..<length sizes])"
    using card_listset [of "map (exts sizes s) [0..<length sizes]"] by (simp add: cells_def exts_def comp_def)
  also have "int \<dots> = prod_list (map (\<lambda>d. int (card (exts sizes s d))) [0..<length sizes])"
  proof -
    have "int (prod_list xs) = prod_list (map int xs)" for xs by (induction xs) auto
    then show ?thesis by (simp add: comp_def)
  qed
  also have "map (\<lambda>d. int (card (exts sizes s d))) [0..<length sizes] = map (sliced sizes s) [0..<length sizes]"
    using card_exts [OF assms(1,2)] assms(3) by simp
  finally show ?thesis .
qed


lemma slice_shape_fits:
  assumes "\<forall>d\<in>set ds. \<not> IsFullAt s d \<longrightarrow> slice_end s d \<le> dim_size shape d"
  shows "slice_shape_loop s shape ds r =
    map_option (Pair None) (AddDims (map (\<lambda>d. if IsFullAt s d then dim_size shape d else slice_length s d) ds) r)"
  using assms
proof (induction ds arbitrary: r)
  case (Cons d ds)
  then show ?case by (auto split: option.split)
qed simp

text \<open>A shape whose prefix products stay below the limit as true integers, so that no check is passed by wrapping.\<close>

definition bounded_sizes :: "int list \<Rightarrow> bool" where
  "bounded_sizes sizes \<longleftrightarrow> (\<forall>x\<in>set sizes. 0 \<le> x) \<and> (\<forall>k\<le>length sizes. prod_list (take k sizes) \<le> kMaxElements)"

lemma prod_list_nonneg_mono:
  "length xs = length ys \<Longrightarrow> \<forall>i<length xs. 0 \<le> xs ! i \<and> xs ! i \<le> (ys ! i :: int) \<Longrightarrow>
    0 \<le> prod_list xs \<and> prod_list xs \<le> prod_list ys"
proof (induction xs ys rule: list_induct2)
  case (Cons x xs y ys)
  have "0 \<le> x" "x \<le> y" using Cons.prems by auto
  moreover have "\<forall>i<length xs. 0 \<le> xs ! i \<and> xs ! i \<le> ys ! i" using Cons.prems by auto
  ultimately show ?case using Cons.IH by (auto intro: mult_mono)
qed simp

lemma accepted_bounded:
  assumes "\<forall>x\<in>set xs. 0 \<le> x" "\<forall>k\<le>length xs. n * prod_list (take k xs) \<le> kMaxElements" "0 \<le> n"
  shows "accepted n xs"
  using assms
proof (induction xs arbitrary: n)
  case (Cons x xs)
  have x: "0 \<le> x" "0 \<le> n * x" using Cons.prems by auto
  have "n * x \<le> kMaxElements" using Cons.prems(2) [rule_format, of 1] by simp
  then have "wrap64 (n * x) = n * x" using x by (intro wrap64_id) (auto simp: kMaxElements_def int64_range_def)
  moreover have "accepted (n * x) xs"
    using Cons.IH [of "n * x"] Cons.prems x by (force simp: mult.assoc)
  ultimately show ?case using x \<open>n * x \<le> kMaxElements\<close> by (simp add: accept_def)
qed simp

text \<open>The dimensions up to the first one the slice does not fit.\<close>

lemma slice_shape_prefix:
  assumes s: "wf_slice s" "sdims s = dims shape" and b: "bounded_sizes (dim_sizes shape)" and shape: "wf_shape shape"
    and k: "k \<le> sdims s" "\<forall>d<k. \<not> IsFullAt s d \<longrightarrow> slice_start s d + slice_length s d \<le> dim_sizes shape ! d"
  shows "\<exists>r'. slice_shape_loop s shape [0..<k] (Clear r) = Some (None, r') \<and> shape_inv r' \<and>
    dim_sizes r' = map (sliced (dim_sizes shape) s) [0..<k] \<and> prod_list (dim_sizes r') \<le> kMaxElements \<and> 0 \<le> prod_list (dim_sizes r')"
proof -
  let ?z = "dim_sizes shape" let ?l = "map (sliced ?z s) [0..<k]"
  have dm: "length ?z = sdims s" using s(2) by (simp add: dim_sizes_def)
  have ds: "dim_size shape d = ?z ! d" if "d < k" for d using that k s(2) by (simp add: dim_sizes_def)
  have ends: "\<forall>d\<in>set [0..<k]. \<not> IsFullAt s d \<longrightarrow> slice_end s d \<le> dim_size shape d"
    using wf_slice_ends(3) [OF s(1)] k ds by fastforce
  have l: "map (\<lambda>d. if IsFullAt s d then dim_size shape d else slice_length s d) [0..<k] = ?l"
    using ds by (simp add: sliced_def)
  have range: "0 \<le> sliced ?z s d \<and> sliced ?z s d \<le> ?z ! d" if d: "d < k" for d
  proof (cases "IsFullAt s d")
    case True
    then show ?thesis using b d k dm by (simp add: sliced_def bounded_sizes_def)
  next
    case False
    then show ?thesis using wf_slice_ends(1,2) [OF s(1) _ False] d k
      by (simp add: sliced_def) (metis add_increasing dual_order.trans less_le_trans order_refl)
  qed
  have mono: "0 \<le> prod_list (take j ?l) \<and> prod_list (take j ?l) \<le> prod_list (take j (take k ?z))" for j
    by (rule prod_list_nonneg_mono) (use range dm k in auto)
  have bnd: "prod_list (take j ?l) \<le> kMaxElements" if "j \<le> k" for j
  proof -
    have "prod_list (take j ?z) \<le> kMaxElements" using b that dm k by (simp add: bounded_sizes_def)
    moreover have "take j (take k ?z) = take j ?z" using that by (simp add: min_absorb1)
    ultimately show ?thesis using mono [of j] by (auto intro: order_trans)
  qed
  have acc: "accepted 1 ?l"
  proof (rule accepted_bounded)
    show "\<forall>j\<le>length ?l. 1 * prod_list (take j ?l) \<le> kMaxElements" using bnd by simp
  qed (use range in auto)
  have c: "shape_inv (Clear r)" "dim_sizes (Clear r) = []" "dims (Clear r) = 0"
    by (simp_all add: shape_inv_def wf_shape_iff)
      (simp_all add: Clear_def ClearAllButDataType_def rep_ok_def dims_def dim_sizes_def int64_range_def)
  have len: "dims (Clear r) + length ?l \<le> MaxDimensions" using shape s(2) k(1) c by (simp add: wf_shape_iff)
  obtain r' where r': "AddDims ?l (Clear r) = Some r'" "shape_inv r'" "dim_sizes r' = ?l"
    using AddDims_inv [OF c(1), of ?l] acc c len by (auto split: option.splits)
  have "prod_list ?l \<le> kMaxElements" "0 \<le> prod_list ?l" using mono [of k] bnd [of k] by simp_all
  moreover have "slice_shape_loop s shape [0..<k] (Clear r) = Some (None, r')"
    using slice_shape_fits [OF ends, of "Clear r"] r'(1) l by simp
  ultimately show ?thesis using r' by auto
qed

lemma SliceTensorShape_fits:
  assumes s: "wf_slice s" "fits (dim_sizes shape) s" and b: "bounded_sizes (dim_sizes shape)" and shape: "wf_shape shape"
  shows "\<exists>r'. SliceTensorShape s shape r = Some (None, r') \<and> shape_inv r' \<and>
    dim_sizes r' = map (sliced (dim_sizes shape) s) [0..<sdims s] \<and>
    num_elements r' = int (card (cells (dim_sizes shape) s))"
proof -
  have dm: "sdims s = dims shape" "length (dim_sizes shape) = sdims s" using s(2) by (auto simp: fits_def dim_sizes_def)
  have "\<forall>d < sdims s. \<not> IsFullAt s d \<longrightarrow> slice_start s d + slice_length s d \<le> dim_sizes shape ! d"
    using s(2) dm by (auto simp: fits_def IsFullAt_def slice_start_def slice_length_def)
  from slice_shape_prefix [OF s(1) dm(1) b shape order_refl this]
  obtain r' where r': "slice_shape_loop s shape [0..<sdims s] (Clear r) = Some (None, r')" "shape_inv r'"
    "dim_sizes r' = map (sliced (dim_sizes shape) s) [0..<sdims s]" "prod_list (dim_sizes r') \<le> kMaxElements" "0 \<le> prod_list (dim_sizes r')"
    by blast
  have "num_elements r' = prod_list (dim_sizes r')"
    using r' by (simp add: shape_inv_def wrap64_id int64_range_def kMaxElements_def)
  then have "num_elements r' = int (card (cells (dim_sizes shape) s))"
    using card_cells [OF s] b dm r'(3) by (simp add: bounded_sizes_def)
  then show ?thesis using r' dm by (simp add: SliceTensorShape_def)
qed

lemma slice_shape_loop_append:
  "slice_shape_loop s shape (ds @ es) r =
    (case slice_shape_loop s shape ds r of None \<Rightarrow> None
     | Some (e, r') \<Rightarrow> if e = None then slice_shape_loop s shape es r' else Some (e, r'))"
  by (induction ds arbitrary: r) (auto split: option.splits)

lemma SliceTensorShape_misfit:
  assumes s: "wf_slice s" "\<not> fits (dim_sizes shape) s" and b: "bounded_sizes (dim_sizes shape)" and shape: "wf_shape shape"
  shows "\<exists>e r'. SliceTensorShape s shape r = Some (Some e, r')"
proof (cases "sdims s = dims shape")
  case False
  then show ?thesis by (simp add: SliceTensorShape_def)
next
  case True
  let ?bad = "\<lambda>d. d < sdims s \<and> \<not> IsFullAt s d \<and> \<not> slice_start s d + slice_length s d \<le> dim_sizes shape ! d"
  have "length (dim_sizes shape) = sdims s" using True by (simp add: dim_sizes_def)
  then have ex: "\<exists>d. ?bad d"
    using s(2) True by (fastforce simp: fits_def IsFullAt_def slice_start_def slice_length_def)
  define k where "k = (LEAST d. ?bad d)"
  have k: "?bad k" unfolding k_def using ex by (rule LeastI_ex)
  have "\<forall>d<k. \<not> IsFullAt s d \<longrightarrow> slice_start s d + slice_length s d \<le> dim_sizes shape ! d"
    using k not_less_Least [where P = ?bad] unfolding k_def by (meson less_trans)
  from slice_shape_prefix [OF s(1) True b shape _ this] k
  obtain r' where r': "slice_shape_loop s shape [0..<k] (Clear r) = Some (None, r')" by auto
  have "\<not> slice_end s k \<le> dim_size shape k"
    using k wf_slice_ends(3) [OF s(1), of k] True by (auto simp: dim_sizes_def)
  then have "slice_shape_loop s shape [k..<sdims s] r' = Some (Some (OutOfBounds k), Clear r')"
    using k by (subst upt_conv_Cons) auto
  moreover have "[0..<sdims s] = [0..<k] @ [k..<sdims s]" using upt_add_eq_append [of 0 k "sdims s - k"] k by simp
  ultimately show ?thesis using True r' by (simp add: SliceTensorShape_def slice_shape_loop_append)
qed


subsection \<open>Text and messages\<close>

text \<open>Any slice the vectors can hold, and the slice with its full dimensions in the normal form \<open>0, -1\<close>.\<close>

definition int_slice :: "tensor_slice \<Rightarrow> bool" where
  "int_slice s \<longleftrightarrow> length (lengths s) = sdims s \<and> (\<forall>d < sdims s. int32_range (starts s ! d) \<and> int32_range (lengths s ! d))"

definition normal_extent :: "tensor_slice \<Rightarrow> nat \<Rightarrow> int \<times> int" where
  "normal_extent s d = (if IsFullAt s d then (0, kFullExtent) else (starts s ! d, lengths s ! d))"

definition normal_form :: "tensor_slice \<Rightarrow> tensor_slice" where
  "normal_form s = slice_of (sdims s) (normal_extent s)"

text \<open>Slices in the normal form, with ends within 32 bits.\<close>

definition normal_slice :: "tensor_slice \<Rightarrow> bool" where
  "normal_slice s \<longleftrightarrow> wf_slice s \<and> (\<forall>d < sdims s. lengths s ! d < 0 \<longrightarrow> starts s ! d = 0 \<and> lengths s ! d = kFullExtent)"

definition item :: "tensor_slice \<Rightarrow> nat \<Rightarrow> string" where
  "item s d = (if IsFullAt s d then ''-''
     else FastInt32ToBufferLeft (word_of_int (starts s ! d)) @ '','' @ FastInt32ToBufferLeft (word_of_int (lengths s ! d)))"

lemma SliceDebugString_eq: "SliceDebugString s = Join (map (item s) [0..<sdims s]) '':''"
proof -
  have "debug_loop s ds first buffer = join_loop (map (item s) ds) '':'' first buffer" for ds first buffer
    by (induction ds arbitrary: first buffer) (simp_all add: item_def Let_def)
  then show ?thesis by (simp add: SliceDebugString_def Join_def)
qed

lemma sint_word_of_int32: "int32_range x \<Longrightarrow> sint (word_of_int x :: u32) = x"
  by (simp add: signed_of_int signed_take_bit_int_eq_self int32_range_def)

lemma Fast32_chars: "FastInt32ToBufferLeft w \<noteq> []" "\<forall>c\<in>set (FastInt32ToBufferLeft w). isdigit c \<or> c = CHR ''-''"
  using digits_loop_correct [of "unat w"] digits_loop_correct [of "unat (0 - w)"]
  by (auto simp: FastInt32ToBufferLeft_def FastUInt32ToBufferLeft_def Let_def)

lemma scan_int_Fast32:
  assumes "r = [] \<or> \<not> isdigit (hd r)"
  shows "scan_int (FastInt32ToBufferLeft w @ r) = Some (sint w, r)"
proof -
  have id: "wrap32 (sint w) = sint w"
    using sint_ge [of w] sint_lt [of w] by (intro wrap32_id) (simp add: int32_range_def)
  have one: "takeWhile isdigit (ds @ r) = ds" "dropWhile isdigit (ds @ r) = r" if "\<forall>c\<in>set ds. isdigit c" for ds
    using that assms by (cases r; auto simp: takeWhile_append dropWhile_append)+
  have digits: "rev (digits_loop n) \<noteq> []" "\<forall>c\<in>set (rev (digits_loop n)). isdigit c" "num_from 0 (rev (digits_loop n)) = int n" for n
    using digits_loop_correct [of n] by auto
  obtain c ds where cd: "rev (digits_loop (unat w)) = c # ds" using digits(1) by (cases "rev (digits_loop (unat w))") auto
  then have c: "isdigit c" using digits(2) [of "unat w"] by simp
  then have nc: "\<not> isspace c" "c \<noteq> CHR ''-''" "c \<noteq> CHR ''+''"
    by (auto simp: isdigit_not_space) (simp_all add: isdigit_def)
  show ?thesis
  proof (cases "w <s 0")
    case True
    have "\<not> isspace (CHR ''-'')" by (simp add: isspace_def)
    then show ?thesis using True id negative_word [of w] digits [of "unat (0 - w)"] one [of "rev (digits_loop (unat (0 - w)))"]
      by (simp add: scan_int_def FastInt32ToBufferLeft_def FastUInt32ToBufferLeft_def Let_def del: rev_is_Nil_conv)
  next
    case False
    then have "FastInt32ToBufferLeft w @ r = c # ds @ r" by (simp add: FastInt32ToBufferLeft_def FastUInt32ToBufferLeft_def cd)
    moreover have "num_from 0 (c # ds) = sint w" using digits(3) [of "unat w"] nonnegative_word [OF False] cd by simp
    ultimately show ?thesis using one [of "c # ds"] digits(2) [of "unat w"] nc c id
      by (simp add: scan_int_def cd del: num_from.simps)
  qed
qed

lemma scan_extent_item:
  assumes "int32_range a" "int32_range b"
  shows "scan_extent (FastInt32ToBufferLeft (word_of_int a) @ '','' @ FastInt32ToBufferLeft (word_of_int b)) = Some (a, b)"
proof -
  have "\<not> isdigit (CHR '','')" by (simp add: isdigit_def)
  then show ?thesis
    using scan_int_Fast32 [of "'','' @ FastInt32ToBufferLeft (word_of_int b)" "word_of_int a"]
      scan_int_Fast32 [of "[]" "word_of_int b"] assms
    by (simp add: scan_extent_def sint_word_of_int32)
qed

lemma item_chars: "item s d \<noteq> []" "CHR '':'' \<notin> set (item s d)" "item s d = ''-'' \<longleftrightarrow> IsFullAt s d"
proof -
  have n: "\<not> isdigit (CHR '':'')" by (simp add: isdigit_def)
  show "item s d \<noteq> []" using Fast32_chars(1) by (simp add: item_def)
  have "CHR '':'' \<notin> set (FastInt32ToBufferLeft w)" for w using Fast32_chars(2) [of w] n by fastforce
  then show "CHR '':'' \<notin> set (item s d)" by (simp add: item_def)
  have "length (item s d) \<ge> 2" if "\<not> IsFullAt s d"
    using that Fast32_chars(1) [of "word_of_int (starts s ! d)"] by (simp add: item_def Suc_le_eq)
  then show "item s d = ''-'' \<longleftrightarrow> IsFullAt s d" by (cases "IsFullAt s d") (simp add: item_def, force)
qed

lemma parse_items:
  assumes "int_slice s"
  shows "\<forall>d\<in>set ds. d < sdims s \<Longrightarrow>
    (\<forall>d\<in>set ds. IsFullAt s d \<or> 0 \<le> starts s ! d \<and> 0 < lengths s ! d) \<and> parse_loop (map (item s) ds) r =
      (None, r\<lparr>starts := starts r @ map (\<lambda>d. fst (normal_extent s d)) ds, lengths := lengths r @ map (\<lambda>d. snd (normal_extent s d)) ds\<rparr>) \<or>
    \<not> (\<forall>d\<in>set ds. IsFullAt s d \<or> 0 \<le> starts s ! d \<and> 0 < lengths s ! d) \<and>
      (\<exists>st l. fst (parse_loop (map (item s) ds) r) = Some (BadExtent st l))"
proof (induction ds arbitrary: r)
  case (Cons d ds)
  let ?r = "r\<lparr>starts := starts r @ [fst (normal_extent s d)], lengths := lengths r @ [snd (normal_extent s d)]\<rparr>"
  note IH = Cons.IH [of ?r]
  show ?case
  proof (cases "IsFullAt s d")
    case True
    then have "parse_loop (map (item s) (d # ds)) r = parse_loop (map (item s) ds) ?r"
      by (simp add: item_chars normal_extent_def Let_def)
    then show ?thesis using IH Cons.prems True by auto
  next
    case False
    have "int32_range (starts s ! d)" "int32_range (lengths s ! d)" using assms Cons.prems by (simp_all add: int_slice_def)
    then have "scan_extent (item s d) = Some (starts s ! d, lengths s ! d)" using False by (simp only: item_def if_False scan_extent_item)
    then have "parse_loop (map (item s) (d # ds)) r =
      (if starts s ! d < 0 \<or> lengths s ! d \<le> 0 then (Some (BadExtent (starts s ! d) (lengths s ! d)), r)
       else parse_loop (map (item s) ds) ?r)"
      using False item_chars(3) [of s d] by (simp add: normal_extent_def Let_def)
    then show ?thesis using IH Cons.prems False by (auto simp: not_less not_le)
  qed
qed simp

lemma normal_slice_extents: "normal_slice s \<Longrightarrow> s = \<lparr>starts = map (\<lambda>d. starts s ! d) [0..<sdims s], lengths = map (\<lambda>d. lengths s ! d) [0..<sdims s]\<rparr>"
  by (cases s) (auto simp: normal_slice_def wf_slice_def sdims_def map_nth, metis map_nth)

lemma Split_items: "Split (SliceDebugString s) (CHR '':'') SkipEmpty = map (item s) [0..<sdims s]"
proof (cases "sdims s")
  case 0
  then show ?thesis by (simp add: SliceDebugString_eq Split_def)
next
  case (Suc n)
  have f: "filter SkipEmpty (map (item s) ds) = map (item s) ds" for ds by (induction ds) (auto simp: SkipEmpty_def item_chars)
  have "tokens (CHR '':'') (SliceDebugString s) = map (item s) [0..<sdims s]"
    unfolding SliceDebugString_eq using Suc by (intro tokens_Join) (auto simp: item_chars)
  moreover have "SliceDebugString s \<noteq> []"
    using item_chars(1) [of s 0] Suc by (simp add: SliceDebugString_eq upt_conv_Cons Join_Cons del: upt_Suc)
  ultimately show ?thesis using f by (simp add: Split_eq)
qed

text \<open>Equal texts stand for equal slices, up to the start of full dimensions.\<close>

lemma item_inj:
  assumes "item a d = item b d" "wf_slice a" "wf_slice b" "d < sdims a" "d < sdims b"
  shows "ext n (starts a ! d, lengths a ! d) = ext n (starts b ! d, lengths b ! d)"
proof (cases "IsFullAt a d")
  case True
  then have "IsFullAt b d" using assms(1) item_chars(3) by metis
  then show ?thesis using True by (simp add: ext_def IsFullAt_def)
next
  case False
  then have nb: "\<not> IsFullAt b d" using assms(1) item_chars(3) by metis
  have "int32_range (starts a ! d)" "int32_range (lengths a ! d)" "int32_range (starts b ! d)" "int32_range (lengths b ! d)"
    using False nb assms by (auto simp: wf_slice_def IsFullAt_def int32_range_def)
  then have "scan_extent (item a d) = Some (starts a ! d, lengths a ! d)" "scan_extent (item b d) = Some (starts b ! d, lengths b ! d)"
    using False nb by (simp_all only: item_def if_False scan_extent_item)
  then have "(starts a ! d, lengths a ! d) = (starts b ! d, lengths b ! d)" using assms(1) by (metis option.inject)
  then show ?thesis by (simp only:)
qed

lemma SliceDebugString_cells:
  assumes "SliceDebugString a = SliceDebugString b" "wf_slice a" "wf_slice b" "sdims a = length sizes" "sdims b = length sizes"
  shows "cells sizes a = cells sizes b"
proof -
  have eq: "map (item a) [0..<length sizes] = map (item b) [0..<length sizes]"
    using Split_items [of a] Split_items [of b] assms(1,4,5) by metis
  have "item a d = item b d" if "d < length sizes" for d
    using arg_cong [OF eq, of "\<lambda>xs. xs ! d"] that by simp
  then have "exts sizes a d = exts sizes b d" if "d < length sizes" for d
    using that item_inj [of a d b "sizes ! d"] assms by (simp add: exts_def)
  then show ?thesis by (auto simp: cells_iff)
qed

lemma as_proto_eq: "SliceAsProto s proto =
    proto @ map (\<lambda>d. if \<not> IsFullAt s d then (starts s ! d, Some (lengths s ! d)) else (0, None)) [0..<sdims s]"
proof -
  have "as_proto_loop s ds proto = proto @ map (\<lambda>d. if \<not> IsFullAt s d then (starts s ! d, Some (lengths s ! d)) else (0, None)) ds" for ds proto
    by (induction ds arbitrary: proto) auto
  then show ?thesis by (simp add: SliceAsProto_def)
qed

lemma push_protos_eq: "push_protos es r =
    r\<lparr>starts := starts r @ map (\<lambda>e. wrap32 (fst e)) es, lengths := lengths r @ map (\<lambda>e. wrap32 (GetExtentLength e)) es\<rparr>"
  by (induction es arbitrary: r) auto

lemma proto_normal_form:
  assumes "int_slice s"
  shows "SliceFromProto (SliceAsProto s []) = normal_form s"
proof -
  have "wrap32 (starts s ! d) = starts s ! d" "wrap32 (lengths s ! d) = lengths s ! d" if "d < sdims s" for d
    using that assms by (simp_all add: int_slice_def wrap32_id)
  moreover have "wrap32 0 = 0" "wrap32 (- 1) = - 1" by (simp_all add: wrap32_def)
  ultimately show ?thesis
    by (auto simp: SliceFromProto_def as_proto_eq push_protos_eq EmptySlice_def normal_form_def slice_of_def normal_extent_def
        GetExtentLength_def HasExtentLength_def kFullExtent_def)
qed

lemma normal_int_slice: "normal_slice s \<Longrightarrow> int_slice s"
  by (force simp: normal_slice_def wf_slice_def int_slice_def int32_range_def kFullExtent_def)

lemma normal_form_id:
  assumes "normal_slice s"
  shows "normal_form s = s"
proof -
  have "normal_extent s d = (starts s ! d, lengths s ! d)" if "d < sdims s" for d
    using that assms by (auto simp: normal_extent_def normal_slice_def IsFullAt_def)
  then have "normal_form s = \<lparr>starts = map (\<lambda>d. starts s ! d) [0..<sdims s], lengths = map (\<lambda>d. lengths s ! d) [0..<sdims s]\<rparr>"
    by (simp add: normal_form_def slice_of_def)
  then show ?thesis using normal_slice_extents [OF assms] by simp
qed

lemma proto_roundtrip: "normal_slice s \<Longrightarrow> SliceFromProto (SliceAsProto s []) = s"
  using proto_normal_form normal_int_slice normal_form_id by metis


subsection \<open>Relative slices\<close>

definition origin :: "tensor_slice \<Rightarrow> nat \<Rightarrow> int" where
  "origin s d = (if IsFullAt s d then 0 else slice_start s d)"

definition inside :: "tensor_slice \<Rightarrow> tensor_slice \<Rightarrow> nat \<Rightarrow> bool" where
  "inside sub a d \<longleftrightarrow> IsFullAt a d \<or>
    \<not> IsFullAt sub d \<and> slice_start a d \<le> slice_start sub d \<and> slice_end sub d \<le> slice_end a d"

lemma ext_relative1:
  assumes "wf_slice a" "wf_slice sub" "d < sdims a" "d < sdims sub" "inside sub a d"
    "\<not> IsFullAt a d \<longrightarrow> slice_end a d \<le> n"
  shows "x \<in> ext (if IsFullAt a d then n else slice_length a d) (relative1 a sub d) \<longleftrightarrow>
    x + origin a d \<in> ext n (starts sub ! d, lengths sub ! d)"
proof (cases "IsFullAt a d")
  case True
  then show ?thesis by (simp add: relative1_def origin_def slice_start_def slice_length_def)
next
  case False
  then have nf: "\<not> IsFullAt sub d" using assms(5) by (simp add: inside_def)
  note e = wf_slice_ends [OF assms(1,3) False] wf_slice_ends [OF assms(2,4) nf]
  have "wrap32 (slice_start sub d - slice_start a d) = slice_start sub d - slice_start a d"
    using e by (intro wrap32_id) (simp add: int32_range_def)
  then show ?thesis
    using e nf False assms(5,6)
    by (auto simp: relative1_def origin_def ext_def inside_def IsFullAt_def slice_start_def slice_length_def)
qed

lemma Relative_cells:
  assumes "wf_slice a" "wf_slice sub" "fits sizes a" "sdims sub = length sizes" "\<forall>d<length sizes. inside sub a d"
    and x: "length x = length sizes"
  shows "x \<in> cells (map (sliced sizes a) [0..<length sizes]) (ComputeRelative a sub r) \<longleftrightarrow>
    map (\<lambda>d. x ! d + origin a d) [0..<length sizes] \<in> cells sizes sub"
proof -
  have n: "sdims a = length sizes" using assms(3) by (simp add: fits_def)
  have "x ! d \<in> exts (map (sliced sizes a) [0..<length sizes]) (ComputeRelative a sub r) d \<longleftrightarrow>
      x ! d + origin a d \<in> exts sizes sub d" if d: "d < length sizes" for d
  proof -
    have "\<not> IsFullAt a d \<longrightarrow> slice_end a d \<le> sizes ! d"
      using assms(1,3) d n wf_slice_ends(3) [of a d] by (auto simp: fits_def IsFullAt_def slice_start_def slice_length_def)
    then show ?thesis
      using ext_relative1 [OF assms(1,2), of d "sizes ! d" "x ! d"] d n assms(4,5)
      by (simp add: exts_def ComputeRelative_eq sliced_def)
  qed
  then show ?thesis using x by (simp add: cells_iff)
qed

subsection \<open>Properties\<close>



text \<open>For a slice whose starts are not negative and whose ends do not wrap, and a shape within the element limit, slicing succeeds exactly when
  the slice fits the shape, and then the result has one dimension per dimension of the slice and as many elements as the slice has cells.\<close>

theorem slice_shape_counts_cells:
  assumes "wf_slice s" "wf_shape shape" "bounded_sizes (dim_sizes shape)"
  shows "if fits (dim_sizes shape) s
    then \<exists>r'. SliceTensorShape s shape r = Some (None, r') \<and> dims r' = sdims s \<and>
      num_elements r' = int (card (cells (dim_sizes shape) s))
    else \<exists>e r'. SliceTensorShape s shape r = Some (Some e, r')"
proof (cases "fits (dim_sizes shape) s")
  case True
  from SliceTensorShape_fits [OF assms(1) True assms(3,2), of r]
  obtain r' where r': "SliceTensorShape s shape r = Some (None, r')" "dim_sizes r' = map (sliced (dim_sizes shape) s) [0..<sdims s]"
    "num_elements r' = int (card (cells (dim_sizes shape) s))" by blast
  have "length (dim_sizes r') = dims r'" by (simp add: dim_sizes_def)
  then have "dims r' = sdims s" using r'(2) by simp
  then show ?thesis using True r' by auto
qed (use SliceTensorShape_misfit [OF assms(1) _ assms(3,2)] in auto)

theorem slice_shape_counts_cells_witness:
  "\<exists>e r'. SliceTensorShape (MkTensorSlice [(0, 2)]) EmptyShape EmptyShape = Some (Some e, r')"
proof -
  have "dim_sizes EmptyShape = []" by code_simp
  then have "wf_slice (MkTensorSlice [(0, 2)])" "bounded_sizes (dim_sizes EmptyShape)"
    "\<not> fits (dim_sizes EmptyShape) (MkTensorSlice [(0, 2)])"
    by (simp_all add: wf_slice_def MkTensorSlice_def EmptySlice_def sdims_def bounded_sizes_def kMaxElements_def fits_def)
  moreover have "wf_shape EmptyShape" using shape_inv_Empty by (simp add: shape_inv_def)
  ultimately show ?thesis
    using slice_shape_counts_cells [of "MkTensorSlice [(0, 2)]" EmptyShape EmptyShape] by simp
qed

lemma ParseSlice_text_cases:
  assumes "int_slice s"
  shows "if \<forall>d < sdims s. IsFullAt s d \<or> 0 \<le> starts s ! d \<and> 0 < lengths s ! d
    then ParseSlice (SliceDebugString s) EmptySlice = (None, normal_form s)
    else \<exists>st l. fst (ParseSlice (SliceDebugString s) EmptySlice) = Some (BadExtent st l)"
proof -
  have "normal_form s = EmptySlice\<lparr>starts := starts EmptySlice @ map (\<lambda>d. fst (normal_extent s d)) [0..<sdims s],
      lengths := lengths EmptySlice @ map (\<lambda>d. snd (normal_extent s d)) [0..<sdims s]\<rparr>"
    by (simp add: normal_form_def slice_of_def EmptySlice_def)
  then show ?thesis using parse_items [OF assms, of "[0..<sdims s]" EmptySlice] unfolding ParseSlice_def Split_items by auto
qed

lemma ParseSlice_text:
  assumes "normal_slice s" "\<forall>d < sdims s. lengths s ! d \<noteq> 0"
  shows "ParseSlice (SliceDebugString s) EmptySlice = (None, s)"
proof -
  have "\<forall>d < sdims s. IsFullAt s d \<or> 0 \<le> starts s ! d \<and> 0 < lengths s ! d"
    using assms by (fastforce simp: normal_slice_def wf_slice_def IsFullAt_def)
  then show ?thesis using ParseSlice_text_cases [OF normal_int_slice [OF assms(1)]] normal_form_id [OF assms(1)] by simp
qed

text \<open>C34: The text and the message of a slice can be read back, for every slice of two vectors of the same length: the constructor gives from the
  message filled by \<open>AsProto\<close> the slice with each full dimension as the extent \<open>0, -1\<close>, whatever start and negative length stood
  for it, and \<open>Parse\<close> gives the same from \<open>DebugString\<close> exactly when every other dimension has a start that is not negative and a positive
  length; else it reports a bad extent.\<close>

theorem slice_text_roundtrip:
  assumes "int_slice s"
  shows "SliceFromProto (SliceAsProto s []) = normal_form s \<and>
    (if \<forall>d < sdims s. IsFullAt s d \<or> 0 \<le> starts s ! d \<and> 0 < lengths s ! d
     then ParseSlice (SliceDebugString s) EmptySlice = (None, normal_form s)
     else \<exists>st l. fst (ParseSlice (SliceDebugString s) EmptySlice) = Some (BadExtent st l))"
  using ParseSlice_text_cases [OF assms] proto_normal_form [OF assms] by blast

theorem slice_text_roundtrip_witness:
  "ParseSlice (SliceDebugString \<lparr>starts = [1, 14], lengths = [- 1, 2]\<rparr>) EmptySlice = (None, \<lparr>starts = [0, 14], lengths = [- 1, 2]\<rparr>)"
proof -
  let ?s = "\<lparr>starts = [1, 14], lengths = [- 1, 2]\<rparr>"
  have "int_slice ?s" by (simp add: int_slice_def sdims_def int32_range_def less_Suc_eq)
  moreover have "\<forall>d < sdims ?s. IsFullAt ?s d \<or> 0 \<le> starts ?s ! d \<and> 0 < lengths ?s ! d"
    by (simp add: sdims_def IsFullAt_def less_Suc_eq)
  moreover have "normal_form ?s = \<lparr>starts = [0, 14], lengths = [- 1, 2]\<rparr>" by code_simp
  ultimately show ?thesis using slice_text_roundtrip [of ?s] by presburger
qed

end
