(* ===== verification/OrderedCode.thy ===== *)
theory OrderedCode
  imports Bits KeyOrder
begin

text \<open>
  \<open>core/lib/strings/ordered_code.cc\<close>: an encoding of strings and numbers into bytes whose
  lexicographic order is the order of the values. Pointers into the string being scanned
  are indices; a routine that returns \<open>false\<close> is \<open>None\<close>; a null \<open>result\<close> is \<open>None\<close> inside
  the returned pair. The length that \<open>AppendBytes\<close> takes as an \<open>int\<close> is unbounded: strings have less than \<open>2 ^ 31\<close> bytes.
\<close>

subsection \<open>Strings\<close>

definition kEscape1 :: u8 where "kEscape1 = 0"
definition kNullCharacter :: u8 where "kNullCharacter = 255"
definition kSeparator :: u8 where "kSeparator = 1"
definition kEscape2 :: u8 where "kEscape2 = 255"
definition kFFCharacter :: u8 where "kFFCharacter = 0"

definition AppendBytes :: "u8 list \<Rightarrow> u8 list \<Rightarrow> nat \<Rightarrow> u8 list" where
  "AppendBytes dest src len = dest @ take len src"

definition IsSpecialByte :: "u8 \<Rightarrow> bool" where
  "IsSpecialByte c \<longleftrightarrow> c + 1 < 2"

function SkipToNextSpecialByte :: "u8 list \<Rightarrow> nat \<Rightarrow> nat \<Rightarrow> nat" where
  "SkipToNextSpecialByte s p limit =
     (if p < limit \<and> \<not> IsSpecialByte (s ! p) then SkipToNextSpecialByte s (Suc p) limit else p)"
  by pat_completeness auto
termination
  by (relation "measure (\<lambda>(s, p, limit). limit - p)") auto

declare SkipToNextSpecialByte.simps [simp del]

lemma Skip_ge: "p \<le> SkipToNextSpecialByte s p limit"
  by (induction s p limit rule: SkipToNextSpecialByte.induct)
    (metis SkipToNextSpecialByte.simps Suc_leD order_refl)

function encode_fragment_loop :: "u8 list \<Rightarrow> nat \<Rightarrow> nat \<Rightarrow> u8 list \<Rightarrow> u8 list" where
  "encode_fragment_loop s p copy_start dest =
     (let limit = length s; p = SkipToNextSpecialByte s p limit in
      if p \<ge> limit then
        (if p > copy_start then AppendBytes dest (drop copy_start s) (p - copy_start) else dest)
      else
        let c = s ! p; p = Suc p in
        if c = kEscape1 then
          let dest = AppendBytes dest (drop copy_start s) (p - copy_start - 1);
              dest = dest @ [kEscape1];
              dest = dest @ [kNullCharacter]
          in encode_fragment_loop s p p dest
        else
          let dest = AppendBytes dest (drop copy_start s) (p - copy_start - 1);
              dest = dest @ [kEscape2];
              dest = dest @ [kFFCharacter]
          in encode_fragment_loop s p p dest)"
  by pat_completeness auto
termination
proof (relation "measure (\<lambda>(s, p, copy_start, dest). length s - p)", goal_cases)
  case (2 s p copy_start dest limit p' c p'')
  then show ?case using Skip_ge [of p s "length s"] by simp
next
  case (3 s p copy_start dest limit p' c p'')
  then show ?case using Skip_ge [of p s "length s"] by simp
qed simp

declare encode_fragment_loop.simps [simp del]

definition EncodeStringFragment :: "u8 list \<Rightarrow> u8 list \<Rightarrow> u8 list" where
  "EncodeStringFragment dest s = encode_fragment_loop s 0 0 dest"

definition WriteString :: "u8 list \<Rightarrow> u8 list \<Rightarrow> u8 list" where
  "WriteString dest s = AppendBytes (EncodeStringFragment dest s) [kEscape1, kSeparator] 2"

function read_string_loop :: "u8 list \<Rightarrow> nat \<Rightarrow> nat \<Rightarrow> u8 list option \<Rightarrow> (u8 list \<times> u8 list option) option" where
  "read_string_loop src start copy_start result =
     (let limit = length src - 1; start = SkipToNextSpecialByte src start limit in
      if start \<ge> limit then None
      else
        let c = src ! start; start = Suc start in
        if c = kEscape1 then
          let result = map_option (\<lambda>r. AppendBytes r (drop copy_start src) (start - copy_start - 1)) result;
              nxt = src ! start;
              start = Suc start
          in if nxt = kSeparator then Some (drop start src, result)
             else if nxt = kNullCharacter then read_string_loop src start start (map_option (\<lambda>r. r @ [0]) result)
             else None
        else
          let result = map_option (\<lambda>r. AppendBytes r (drop copy_start src) (start - copy_start - 1)) result;
              nxt = src ! start;
              start = Suc start
          in if nxt = kFFCharacter then read_string_loop src start start (map_option (\<lambda>r. r @ [255]) result)
             else None)"
  by pat_completeness auto
termination
proof (relation "measure (\<lambda>(s, p, copy_start, dest). length s - p)", goal_cases)
  case (2 src start copy_start result limit start' c start'' result' nxt start''')
  have "start \<le> start'" using 2(2) Skip_ge [of start src limit] by simp
  moreover have "start' < limit" "start''' = start' + 2" using 2 by simp_all
  ultimately show ?case using 2(1) by simp
next
  case (3 src start copy_start result limit start' c start'' result' nxt start''')
  have "start \<le> start'" using 3(2) Skip_ge [of start src limit] by simp
  moreover have "start' < limit" "start''' = start' + 2" using 3 by simp_all
  ultimately show ?case using 3(1) by simp
qed simp

declare read_string_loop.simps [simp del]

definition ReadString :: "u8 list \<Rightarrow> u8 list option \<Rightarrow> (u8 list \<times> u8 list option) option" where
  "ReadString src result = read_string_loop src 0 0 result"

subsection \<open>Unsigned numbers\<close>

text \<open>The buffer of nine bytes is filled from its end; writing outside it would be undefined (\<open>None\<close>).\<close>

lemma drop_8_less: "0 < v \<Longrightarrow> unat (drop_bit 8 v) < unat v" for v :: u64
  by (simp add: drop_bit_eq_div unat_div word_less_nat_alt)

function num_digits_loop :: "u64 \<Rightarrow> int \<Rightarrow> u8 list \<Rightarrow> (int \<times> u8 list) option" where
  "num_digits_loop val len buf =
     (if val > 0 then
        (case wr buf (9 - (len + 1)) (ucast (val AND 0xff)) of
           None \<Rightarrow> None
         | Some buf \<Rightarrow> num_digits_loop (drop_bit 8 val) (len + 1) buf)
      else Some (len, buf))"
  by pat_completeness auto
termination
  by (relation "measure (\<lambda>(val, len, buf). unat val)")
    (auto simp: drop_8_less)

declare num_digits_loop.simps [simp del]

definition WriteNumIncreasing :: "u8 list \<Rightarrow> u64 \<Rightarrow> u8 list option" where
  "WriteNumIncreasing dest val =
     (case num_digits_loop val 0 (replicate 9 0) of
        None \<Rightarrow> None
      | Some (len, buf) \<Rightarrow>
          (case wr buf (9 - len - 1) (word_of_int len) of
             None \<Rightarrow> None
           | Some buf \<Rightarrow>
               (let len = len + 1
                in Some (AppendBytes dest (drop (nat (9 - len)) buf) (nat len)))))"

definition ReadNumIncreasing :: "u8 list \<Rightarrow> (u8 list \<times> u64) option" where
  "ReadNumIncreasing src =
     (if src = [] then None
      else let len = unat (src ! 0) in
        if len + 1 > length src \<or> len > 8 then None
        else Some (drop (len + 1) src, foldl (\<lambda>tmp i. push_bit 8 tmp OR ucast (src ! (1 + i))) 0 [0..<len]))"

fun corrupt_loop :: "u8 list \<Rightarrow> int \<Rightarrow> int \<Rightarrow> nat list \<Rightarrow> u8 list" where
  "corrupt_loop str k seen_seps [] = str"
| "corrupt_loop str k seen_seps (i # is) =
     (if str ! i = kEscape1 \<and> str ! (i + 1) = kSeparator then
        let seen_seps = seen_seps + 1 in
        if seen_seps = k then str[i + 1 := kSeparator + 1] else corrupt_loop str k seen_seps is
      else corrupt_loop str k seen_seps is)"

definition TEST_Corrupt :: "u8 list \<Rightarrow> int \<Rightarrow> u8 list" where
  "TEST_Corrupt str k = corrupt_loop str k 0 [0..<length str - 1]"


subsection \<open>The string encoding is the escaping of every byte\<close>

definition escape :: "u8 \<Rightarrow> u8 list" where
  "escape c = (if c = 0 then [0, 255] else if c = 255 then [255, 0] else [c])"

abbreviation escaped :: "u8 list \<Rightarrow> u8 list" where
  "escaped s \<equiv> concat (map escape s)"

lemma IsSpecialByte_iff: "IsSpecialByte c \<longleftrightarrow> c = 0 \<or> c = 255"
proof
  assume "IsSpecialByte c"
  then have *: "unat (c + 1) < 2" by (simp add: IsSpecialByte_def word_less_nat_alt)
  moreover have "unat (c + 1) = (unat c + 1) mod 256" by (simp add: unat_word_ariths)
  moreover have "unat c < 256" by (rule order_less_le_trans [OF unsigned_less]) simp
  ultimately have "unat c = 0 \<or> unat c = 255" by (cases "unat c = 255") auto
  then show "c = 0 \<or> c = 255" by (auto simp: word_unat_eq_iff)
qed (auto simp: IsSpecialByte_def)

lemma Skip_spec:
  assumes "p \<le> limit"
  shows "SkipToNextSpecialByte s p limit \<le> limit"
    and "\<And>i. p \<le> i \<Longrightarrow> i < SkipToNextSpecialByte s p limit \<Longrightarrow> \<not> IsSpecialByte (s ! i)"
    and "SkipToNextSpecialByte s p limit < limit \<Longrightarrow> IsSpecialByte (s ! SkipToNextSpecialByte s p limit)"
proof -
  have "SkipToNextSpecialByte s p limit \<le> limit \<and>
    (\<forall>i. p \<le> i \<and> i < SkipToNextSpecialByte s p limit \<longrightarrow> \<not> IsSpecialByte (s ! i)) \<and>
    (SkipToNextSpecialByte s p limit < limit \<longrightarrow> IsSpecialByte (s ! SkipToNextSpecialByte s p limit))"
    using assms
  proof (induction s p limit rule: SkipToNextSpecialByte.induct)
    case (1 s p limit)
    show ?case
    proof (cases "p < limit \<and> \<not> IsSpecialByte (s ! p)")
      case True
      then have "SkipToNextSpecialByte s p limit = SkipToNextSpecialByte s (Suc p) limit"
        by (simp add: SkipToNextSpecialByte.simps [of s p limit])
      moreover have "p = i \<or> Suc p \<le> i" if "p \<le> i" for i using that by auto
      ultimately show ?thesis using 1 True by (metis Suc_leI)
    next
      case False
      then have "SkipToNextSpecialByte s p limit = p" by (auto simp: SkipToNextSpecialByte.simps [of s p limit])
      then show ?thesis using False 1 by auto
    qed
  qed
  then show "SkipToNextSpecialByte s p limit \<le> limit"
    "\<And>i. p \<le> i \<Longrightarrow> i < SkipToNextSpecialByte s p limit \<Longrightarrow> \<not> IsSpecialByte (s ! i)"
    "SkipToNextSpecialByte s p limit < limit \<Longrightarrow> IsSpecialByte (s ! SkipToNextSpecialByte s p limit)"
    by auto
qed

lemma escaped_plain: "(\<And>c. c \<in> set s \<Longrightarrow> \<not> IsSpecialByte c) \<Longrightarrow> escaped s = s"
  by (induction s) (auto simp: escape_def IsSpecialByte_iff)

lemma slice_plain:
  assumes "\<And>i. cs \<le> i \<Longrightarrow> i < q \<Longrightarrow> \<not> IsSpecialByte (s ! i)" "q \<le> length s"
    and "c \<in> set (take (q - cs) (drop cs s))"
  shows "\<not> IsSpecialByte c"
  using assms by (auto simp: in_set_conv_nth)

lemma drop_at:
  assumes "cs \<le> q" "q < length s"
  shows "drop cs s = take (q - cs) (drop cs s) @ s ! q # drop (Suc q) s"
  using assms id_take_nth_drop [of "q - cs" "drop cs s"] by simp

lemma encode_fragment_loop_escaped:
  assumes "cs \<le> p" "p \<le> length s" "\<And>i. cs \<le> i \<Longrightarrow> i < p \<Longrightarrow> \<not> IsSpecialByte (s ! i)"
  shows "encode_fragment_loop s p cs dest = dest @ escaped (drop cs s)"
  using assms
proof (induction s p cs dest rule: encode_fragment_loop.induct)
  case (1 s p cs dest)
  let ?q = "SkipToNextSpecialByte s p (length s)"
  note sk = Skip_ge [of p s "length s"] Skip_spec [where s = s, OF "1.prems"(2)]
  have plain: "\<not> IsSpecialByte (s ! i)" if "cs \<le> i" "i < ?q" for i
    using that sk(3) "1.prems"(3) by (meson not_le)
  have pre: "escaped (take (?q - cs) (drop cs s)) = take (?q - cs) (drop cs s)"
    by (rule escaped_plain, rule slice_plain [OF plain]) (use sk in auto)
  show ?case
  proof (cases "?q \<ge> length s")
    case True
    then have "?q = length s" using sk by simp
    then show ?thesis using pre "1.prems"
      by (subst encode_fragment_loop.simps) (simp add: AppendBytes_def Let_def)
  next
    case False
    then have q: "?q < length s" "cs \<le> ?q" using sk "1.prems" by simp_all
    have d: "escaped (drop cs s) = take (?q - cs) (drop cs s) @ escape (s ! ?q) @ escaped (drop (Suc ?q) s)"
      by (subst drop_at [OF q(2,1)], simp only: map_append concat_append pre list.map concat.simps)
    have sp: "s ! ?q = 0 \<or> s ! ?q = 255" using sk(4) q IsSpecialByte_iff by simp
    show ?thesis
    proof (cases "s ! ?q = 0")
      case True
      have "encode_fragment_loop s p cs dest = encode_fragment_loop s (Suc ?q) (Suc ?q)
          (dest @ take (?q - cs) (drop cs s) @ [0, 255])"
        using True False by (subst encode_fragment_loop.simps)
          (simp add: AppendBytes_def kEscape1_def kNullCharacter_def Let_def)
      moreover have "encode_fragment_loop s (Suc ?q) (Suc ?q) (dest @ take (?q - cs) (drop cs s) @ [0, 255])
          = (dest @ take (?q - cs) (drop cs s) @ [0, 255]) @ escaped (drop (Suc ?q) s)"
        using "1.IH"(1) [OF refl refl _ refl refl] True False q
        by (simp add: AppendBytes_def kEscape1_def kNullCharacter_def)
      ultimately show ?thesis using True by (simp only: d) (simp add: escape_def)
    next
      case ne: False
      have "encode_fragment_loop s p cs dest = encode_fragment_loop s (Suc ?q) (Suc ?q)
          (dest @ take (?q - cs) (drop cs s) @ [255, 0])"
        using ne False by (subst encode_fragment_loop.simps)
          (simp add: AppendBytes_def kEscape1_def kEscape2_def kFFCharacter_def Let_def)
      moreover have "encode_fragment_loop s (Suc ?q) (Suc ?q) (dest @ take (?q - cs) (drop cs s) @ [255, 0])
          = (dest @ take (?q - cs) (drop cs s) @ [255, 0]) @ escaped (drop (Suc ?q) s)"
        using "1.IH"(2) [OF refl refl _ refl refl] ne False q
        by (simp add: AppendBytes_def kEscape1_def kEscape2_def kFFCharacter_def)
      ultimately show ?thesis using ne sp by (simp only: d) (simp add: escape_def)
    qed
  qed
qed

lemma WriteString_eq: "WriteString dest s = dest @ escaped s @ [0, 1]"
  by (simp add: WriteString_def EncodeStringFragment_def AppendBytes_def kEscape1_def kSeparator_def
      encode_fragment_loop_escaped)


fun parse :: "u8 list \<Rightarrow> (u8 list \<times> u8 list) option" where
  "parse (c # d # cs) =
     (if c = 0 then
        if d = 1 then Some (cs, [])
        else if d = 255 then map_option (map_prod id ((#) 0)) (parse cs)
        else None
      else if c = 255 then
        if d = 0 then map_option (map_prod id ((#) 255)) (parse cs) else None
      else map_option (map_prod id ((#) c)) (parse (d # cs)))"
| "parse [c] = None"
| "parse [] = None"

lemma parse_plain:
  assumes "\<And>c. c \<in> set s \<Longrightarrow> \<not> IsSpecialByte c"
  shows "parse (s @ t) = map_option (map_prod id ((@) s)) (parse t)"
  using assms
proof (induction s)
  case Nil
  show ?case by (cases "parse t") auto
next
  case (Cons c s)
  then have "c \<noteq> 0" "c \<noteq> 255" by (auto simp: IsSpecialByte_iff)
  moreover have "parse (c # d # cs) = map_option (map_prod id ((#) c)) (parse (d # cs))" for d cs
    using calculation by simp
  ultimately show ?case using Cons
    by (cases "s @ t"; cases "parse t") (auto simp: option.map_comp)
qed

lemma parse_None: "(\<And>c. c \<in> set (butlast s) \<Longrightarrow> \<not> IsSpecialByte c) \<Longrightarrow> parse s = None"
  by (induction s rule: parse.induct) (auto simp: IsSpecialByte_iff)

lemma parse_escaped: "parse (escaped s @ 0 # 1 # t) = Some (t, s)"
proof (induction s)
  case (Cons c s)
  show ?case
  proof (cases "IsSpecialByte c")
    case True
    then show ?thesis using Cons by (auto simp: IsSpecialByte_iff escape_def)
  next
    case False
    then show ?thesis using Cons parse_plain [of "[c]" "escaped s @ 0 # 1 # t"]
      by (simp add: IsSpecialByte_iff escape_def [of c])
  qed
qed simp

lemma parse_inv: "parse s = Some (t, u) \<Longrightarrow> s = escaped u @ 0 # 1 # t"
  by (induction s arbitrary: u rule: parse.induct)
    (auto simp: escape_def split: if_splits)

lemma read_string_loop_parse:
  assumes "cs \<le> p" "p \<le> length src" "\<And>i. cs \<le> i \<Longrightarrow> i < p \<Longrightarrow> \<not> IsSpecialByte (src ! i)"
  shows "read_string_loop src p cs result
    = map_option (map_prod id (\<lambda>s. map_option (\<lambda>r. r @ s) result)) (parse (drop cs src))"
  using assms
proof (induction src p cs result rule: read_string_loop.induct)
  case (1 src p cs result)
  let ?lim = "length src - 1"
  let ?q = "SkipToNextSpecialByte src p ?lim"
  show ?case
  proof (cases "?q \<ge> ?lim")
    case True
    have "\<not> IsSpecialByte (src ! i)" if "cs \<le> i" "i < ?lim" for i
    proof (cases "i < p")
      case False
      then have "p \<le> ?lim" using that by simp
      then show ?thesis using Skip_spec(2) [of p ?lim i src] True that False by simp
    qed (use "1.prems" that in auto)
    then have "\<not> IsSpecialByte c" if "c \<in> set (butlast (drop cs src))" for c
      using that by (auto simp: in_set_conv_nth nth_butlast)
    then have "parse (drop cs src) = None" by (rule parse_None)
    then show ?thesis using True by (subst read_string_loop.simps) (simp add: Let_def)
  next
    case False
    then have q: "?q < ?lim" by simp
    have p: "p \<le> ?lim" using Skip_ge [of p src ?lim] q by simp
    note sk = Skip_ge [of p src ?lim] Skip_spec [where s = src, OF p]
    have plain: "\<not> IsSpecialByte (src ! i)" if "cs \<le> i" "i < ?q" for i
      using that sk(3) "1.prems"(3) by (meson not_le)
    let ?pre = "take (?q - cs) (drop cs src)"
    have pre: "parse (?pre @ t) = map_option (map_prod id ((@) ?pre)) (parse t)" for t
      by (rule parse_plain, rule slice_plain [OF plain]) (use sk q in auto)
    have "drop cs src = ?pre @ src ! ?q # src ! Suc ?q # drop (Suc (Suc ?q)) src"
      using drop_at [of cs ?q src] q sk "1.prems" Cons_nth_drop_Suc [of "Suc ?q" src] by simp
    then have d: "parse (drop cs src) = map_option (map_prod id ((@) ?pre))
        (parse (src ! ?q # src ! Suc ?q # drop (Suc (Suc ?q)) src))"
      using pre by metis
    have sp: "src ! ?q = 0 \<or> src ! ?q = 255" using sk(4) q IsSpecialByte_iff by simp
    have cp: "Suc (Suc ?q) \<le> length src" using q by simp
    note defs = AppendBytes_def kEscape1_def kNullCharacter_def kEscape2_def kFFCharacter_def kSeparator_def
    show ?thesis
    proof (cases "src ! ?q = 0")
      case True
      show ?thesis
      proof (cases "src ! Suc ?q = 255")
        case nul: True
        have "read_string_loop src p cs result
          = read_string_loop src (Suc (Suc ?q)) (Suc (Suc ?q)) (map_option (\<lambda>r. r @ ?pre @ [0]) result)"
          using True nul False by (subst read_string_loop.simps) (simp add: defs Let_def option.map_comp o_def)
        moreover have "read_string_loop src (Suc (Suc ?q)) (Suc (Suc ?q)) (map_option (\<lambda>r. r @ ?pre @ [0]) result)
          = map_option (map_prod id (\<lambda>s. map_option (\<lambda>r. r @ s) (map_option (\<lambda>r. r @ ?pre @ [0]) result)))
             (parse (drop (Suc (Suc ?q)) src))"
          using "1.IH"(1) [OF refl refl _ refl refl _ refl refl refl] True nul False cp
          by (simp add: defs option.map_comp o_def id_def)
        ultimately show ?thesis using True nul by (simp add: d option.map_comp o_def prod.map_comp id_def)
      next
        case nn: False
        then show ?thesis using True False
          by (subst read_string_loop.simps) (auto simp: d defs Let_def)
      qed
    next
      case c: False
      then have ff: "src ! ?q = 255" using sp by simp
      show ?thesis
      proof (cases "src ! Suc ?q = 0")
        case nul: True
        have "read_string_loop src p cs result
          = read_string_loop src (Suc (Suc ?q)) (Suc (Suc ?q)) (map_option (\<lambda>r. r @ ?pre @ [255]) result)"
          using ff nul False by (subst read_string_loop.simps) (simp add: defs Let_def option.map_comp o_def)
        moreover have "read_string_loop src (Suc (Suc ?q)) (Suc (Suc ?q)) (map_option (\<lambda>r. r @ ?pre @ [255]) result)
          = map_option (map_prod id (\<lambda>s. map_option (\<lambda>r. r @ s) (map_option (\<lambda>r. r @ ?pre @ [255]) result)))
             (parse (drop (Suc (Suc ?q)) src))"
          using "1.IH"(2) [OF refl refl _ refl refl _ refl refl refl] ff nul False cp
          by (simp add: defs option.map_comp o_def id_def)
        ultimately show ?thesis using ff nul by (simp add: d option.map_comp o_def prod.map_comp id_def)
      next
        case nn: False
        then show ?thesis using ff False
          by (subst read_string_loop.simps) (auto simp: d defs Let_def)
      qed
    qed
  qed
qed

lemma ReadString_parse:
  "ReadString src result = map_option (map_prod id (\<lambda>s. map_option (\<lambda>r. r @ s) result)) (parse src)"
  by (simp add: ReadString_def read_string_loop_parse)

lemma ReadString_WriteString: "ReadString (WriteString [] s @ rest) (Some r) = Some (rest, Some (r @ s))"
  by (simp add: ReadString_parse WriteString_eq parse_escaped)

lemma ReadString_accepts:
  "ReadString src (Some r) = Some (rest, Some r') \<longleftrightarrow> (\<exists>s. src = WriteString [] s @ rest \<and> r' = r @ s)"
  by (auto simp: ReadString_parse WriteString_eq parse_escaped dest: parse_inv)


lemma escape_mono: "c < d \<Longrightarrow> escape c @ us < escape d @ vs"
  by (auto simp: escape_def dest: word_order.not_eq_extremum [THEN iffD1])

lemma escaped_mono: "s < t \<Longrightarrow> escaped s @ 0 # 1 # us < escaped t @ 0 # 1 # vs"
proof (induction s arbitrary: t)
  case Nil
  then obtain c t' where "t = c # t'" by (cases t) auto
  moreover have "0 < c" if "c \<noteq> 0" using that by (simp add: word_neq_0_conv)
  ultimately show ?case by (simp add: escape_def)
next
  case (Cons c s)
  then obtain d t' where t: "t = d # t'" by (cases t) auto
  show ?case
  proof (cases "c < d")
    case True
    then show ?thesis using escape_mono by (simp add: t)
  next
    case False
    then have "c = d" "s < t'" using Cons.prems t by auto
    then show ?thesis using Cons.IH by (simp add: t append_less_same)
  qed
qed

definition ReadStringValue :: "u8 list \<Rightarrow> (u8 list \<times> u8 list) option" where
  "ReadStringValue src =
     (case ReadString src (Some []) of Some (rest, Some s) \<Rightarrow> Some (rest, s) | _ \<Rightarrow> None)"

interpretation str: ordered_encoding "WriteString []" ReadStringValue "(<)"
proof
  show "ReadStringValue (WriteString [] v @ rest) = Some (rest, v)" for v rest
    by (simp add: ReadStringValue_def ReadString_WriteString)
  show "WriteString [] v < WriteString [] w" if "v < w" for v w
    using escaped_mono [OF that, of "[]" "[]"] by (simp add: WriteString_eq)
qed auto

subsection \<open>The unsigned encoding is a length byte and the big-endian bytes\<close>

primrec be :: "nat \<Rightarrow> nat \<Rightarrow> u8 list" where
  "be 0 v = []"
| "be (Suc n) v = be n (v div 256) @ [of_nat v]"

fun nbytes :: "nat \<Rightarrow> nat" where
  "nbytes v = (if v = 0 then 0 else Suc (nbytes (v div 256)))"

declare nbytes.simps [simp del]

lemma length_be [simp]: "length (be n v) = n"
  by (induction n arbitrary: v) auto

lemma nbytes_0 [simp]: "nbytes 0 = 0"
  by (simp add: nbytes.simps)

lemma nbytes_le_iff: "nbytes v \<le> n \<longleftrightarrow> v < 256 ^ n"
proof (induction v arbitrary: n rule: nbytes.induct)
  case (1 v)
  show ?case
  proof (cases "v = 0")
    case False
    then have "nbytes v = Suc (nbytes (v div 256))" by (simp add: nbytes.simps [of v])
    then show ?thesis using 1 [OF False] False
      by (cases n) (auto simp: div_less_iff_less_mult algebra_simps)
  qed simp
qed

lemma be_mono: "v < w \<Longrightarrow> w < 256 ^ n \<Longrightarrow> diverge (be n v) (be n w)"
proof (induction n arbitrary: v w)
  case (Suc n)
  show ?case
  proof (cases "v div 256 = w div 256")
    case True
    then have "v mod 256 < w mod 256"
      using Suc.prems(1) by (metis div_mult_mod_eq nat_add_left_cancel_less)
    then have "(of_nat v :: u8) < of_nat w" by (simp add: word_less_nat_alt unat_of_nat)
    then show ?thesis using True by simp
  next
    case False
    then have "v div 256 < w div 256" using Suc.prems(1) by (meson div_le_mono le_neq_implies_less less_imp_le)
    moreover have "w div 256 < 256 ^ n" using Suc.prems(2) by (simp add: div_less_iff_less_mult algebra_simps)
    ultimately show ?thesis using Suc.IH diverge_append by simp
  qed
qed simp

lemma num_digits_loop_be:
  assumes "length buf = 9" "k + nbytes (unat v) \<le> 9"
  shows "num_digits_loop v (int k) buf
    = Some (int (k + nbytes (unat v)), take (9 - (k + nbytes (unat v))) buf @ be (nbytes (unat v)) (unat v) @ drop (9 - k) buf)"
  using assms
proof (induction "unat v" arbitrary: v k buf rule: less_induct)
  case less
  show ?case
  proof (cases "v = 0")
    case True
    then show ?thesis using less.prems by (simp add: num_digits_loop.simps [of 0])
  next
    case False
    let ?w = "drop_bit 8 v" and ?buf = "buf[8 - k := ucast (v AND 0xff)]"
    have w: "unat ?w = unat v div 256" by (simp add: unat_drop_div)
    have nb: "nbytes (unat v) = Suc (nbytes (unat ?w))"
      using False by (simp add: nbytes.simps [of "unat v"] w unat_eq_0)
    have k: "k \<le> 8" using less.prems nb by simp
    then have nine: "9 - k = Suc (8 - k)" by simp
    have byte: "ucast (v AND 0xff) = (of_nat (unat v) :: u8)"
      by (simp add: ucast_and_255)
    have "num_digits_loop v (int k) buf = num_digits_loop ?w (int (Suc k)) ?buf"
      using False k less.prems by (subst num_digits_loop.simps)
        (simp add: wr_def word_neq_0_conv [symmetric] nat_diff_distrib algebra_simps)
    also have "\<dots> = Some (int (Suc k + nbytes (unat ?w)),
        take (9 - (Suc k + nbytes (unat ?w))) ?buf @ be (nbytes (unat ?w)) (unat ?w) @ drop (9 - Suc k) ?buf)"
      using less.hyps [of ?w ?buf "Suc k", OF drop_8_less] less.prems nb False by (simp add: word_neq_0_conv)
    also have "drop (9 - Suc k) ?buf = of_nat (unat v) # drop (9 - k) buf"
      using k less.prems byte nine by (simp add: drop_update_swap Cons_nth_drop_Suc [symmetric])
    finally show ?thesis by (simp add: nb w)
  qed
qed


lemma nbytes_u64: "nbytes (unat v) \<le> 8" for v :: u64
  using unsigned_less [of v, where 'a = nat] by (simp add: nbytes_le_iff)

lemma WriteNumIncreasing_eq:
  "WriteNumIncreasing dest v = Some (dest @ of_nat (nbytes (unat v)) # be (nbytes (unat v)) (unat v))"
proof -
  let ?n = "nbytes (unat v)"
  have n: "?n \<le> 8" by (rule nbytes_u64)
  have "num_digits_loop v 0 (replicate 9 0) = Some (int ?n, replicate (9 - ?n) 0 @ be ?n (unat v))"
    using num_digits_loop_be [of "replicate 9 0" 0 v] n by (simp add: take_replicate)
  moreover have "nat (8 - int ?n) = 8 - ?n" "nat (1 + int ?n) = Suc ?n" using n by auto
  moreover have "(replicate (9 - ?n) (0 :: u8) @ be ?n (unat v))[8 - ?n := of_nat ?n]
      = replicate (8 - ?n) 0 @ of_nat ?n # be ?n (unat v)"
  proof -
    have nine: "9 - ?n = Suc (8 - ?n)" using n by simp
    have "replicate (9 - ?n) (0 :: u8) = replicate (8 - ?n) 0 @ [0]"
      using n replicate_append_same [of "8 - ?n" "0 :: u8"] by (simp add: nine)
    then show ?thesis by (simp add: list_update_append)
  qed
  ultimately show ?thesis
    using n by (simp add: WriteNumIncreasing_def wr_def AppendBytes_def Let_def)
qed

definition load :: "u64 \<Rightarrow> u8 list \<Rightarrow> u64" where
  "load x bs = foldl (\<lambda>t b. push_bit 8 t OR ucast b) x bs"

lemma foldl_nth:
  "n \<le> length xs \<Longrightarrow> foldl (\<lambda>t i. g t (xs ! i)) a [0..<n] = foldl g a (take n xs)"
  by (induction n) (auto simp: take_Suc_conv_app_nth)

lemma load_be:
  assumes "v < 2 ^ 64" "v < 256 ^ n"
  shows "load 0 (be n v) = of_nat v"
  using assms
proof (induction n arbitrary: v)
  case (Suc n)
  have "v div 256 < 256 ^ n" using Suc.prems(2) by (simp add: div_less_iff_less_mult algebra_simps)
  then have "load 0 (be n (v div 256)) = of_nat (v div 256)" using Suc.IH Suc.prems(1) by simp
  then have "load 0 (be (Suc n) v) = push_bit 8 (of_nat (v div 256)) OR ucast (of_nat v :: u8)"
    by (simp add: load_def)
  also have "\<dots> = of_nat v"
  proof (rule bit_word_eqI)
    fix i assume "i < LENGTH(64)"
    then show "bit (push_bit 8 (of_nat (v div 256)) OR ucast (of_nat v :: u8) :: u64) i = bit (of_nat v :: u64) i"
      using drop_bit_eq_div [of 8 v]
      by (auto simp: bit_simps not_le simp flip: drop_bit_eq_div [of 8 v, simplified])
  qed
  finally show ?case .
qed (simp add: load_def)

lemma ReadNumIncreasing_load:
  "ReadNumIncreasing (c # bs) = (if length bs < unat c \<or> unat c > 8 then None
     else Some (drop (unat c) bs, load 0 (take (unat c) bs)))"
  by (auto simp: ReadNumIncreasing_def Let_def load_def foldl_nth [symmetric] nth_Cons')

lemma ReadNum_WriteNum:
  "map_option (\<lambda>bs. ReadNumIncreasing (bs @ rest)) (WriteNumIncreasing [] v) = Some (Some (rest, v))"
proof -
  let ?n = "nbytes (unat v)"
  have n: "?n \<le> 8" by (rule nbytes_u64)
  then have "unat (of_nat ?n :: u8) = ?n" by (simp add: unat_of_nat)
  moreover have "load 0 (be ?n (unat v)) = v"
    using load_be [of "unat v" ?n] nbytes_le_iff [of "unat v" ?n] unsigned_less [of v, where 'a = nat] by simp
  ultimately show ?thesis using n by (simp add: WriteNumIncreasing_eq ReadNumIncreasing_load)
qed

lemma WriteNum_mono:
  assumes "v < (w :: u64)"
  shows "of_nat (nbytes (unat v)) # be (nbytes (unat v)) (unat v)
    < (of_nat (nbytes (unat w)) # be (nbytes (unat w)) (unat w) :: u8 list)"
proof -
  have vw: "unat v < unat w" using assms by (simp add: word_less_nat_alt)
  then have "nbytes (unat v) \<le> nbytes (unat w)"
    using nbytes_le_iff [of "unat v" "nbytes (unat w)"] nbytes_le_iff [of "unat w" "nbytes (unat w)"] by simp
  then consider "nbytes (unat v) < nbytes (unat w)" | "nbytes (unat v) = nbytes (unat w)" by linarith
  then show ?thesis
  proof cases
    case 1
    then have "(of_nat (nbytes (unat v)) :: u8) < of_nat (nbytes (unat w))"
      using nbytes_u64 [of w] by (simp add: word_less_nat_alt unat_of_nat)
    then show ?thesis by simp
  next
    case 2
    then show ?thesis
      using diverge_less [OF be_mono [OF vw]] nbytes_le_iff [of "unat w" "nbytes (unat w)"] by simp
  qed
qed

text \<open>The bytes written for one number, as a function of the number.\<close>

definition num_bytes :: "u64 \<Rightarrow> u8 list" where
  "num_bytes v = the (WriteNumIncreasing [] v)"

lemma num_bytes_eq: "num_bytes v = of_nat (nbytes (unat v)) # be (nbytes (unat v)) (unat v)"
  by (simp add: num_bytes_def WriteNumIncreasing_eq)

lemma WriteNumIncreasing_num_bytes: "WriteNumIncreasing dest v = Some (dest @ num_bytes v)"
  by (simp add: num_bytes_eq WriteNumIncreasing_eq)

interpretation num: ordered_encoding num_bytes ReadNumIncreasing "(<)"
proof
  show "ReadNumIncreasing (num_bytes v @ rest) = Some (rest, v)" for v rest
    using ReadNum_WriteNum [of rest v] by (simp add: WriteNumIncreasing_num_bytes)
  show "num_bytes v < num_bytes w" if "v < w" for v w
    using WriteNum_mono [OF that] by (simp add: num_bytes_eq)
qed auto

subsection \<open>Properties\<close>

text \<open>C18: Reading an ordered string inverts writing one, and accepts nothing else: with any prefix
  \<open>r\<close> already in the result, \<open>ReadString\<close> succeeds exactly on the encoding of some string followed by
  the bytes it leaves, and appends that string.\<close>

theorem ReadString_exact:
  "ReadString src (Some r) = Some (rest, Some r') \<longleftrightarrow> (\<exists>s. src = WriteString [] s @ rest \<and> r' = r @ s)"
  by (rule ReadString_accepts)

text \<open>The order of string keys is the order of the strings, whatever follows them: the escape bytes
  and the separator never disturb it, and a tie is decided by the bytes that follow.\<close>

theorem WriteString_order:
  "WriteString [] s @ r < WriteString [] t @ r' \<longleftrightarrow> s < t \<or> s = t \<and> r < r'"
  by (rule str.enc_less_iff)

text \<open>An unsigned number is written without touching memory outside its nine-byte buffer, appended
  after the destination, read back exactly with the bytes after it left alone, and ordered by its value.\<close>

theorem WriteNumIncreasing_correct:
  "\<exists>bs. (\<forall>dest. WriteNumIncreasing dest v = Some (dest @ bs)) \<and>
     (\<forall>rest. ReadNumIncreasing (bs @ rest) = Some (rest, v)) \<and>
     (\<forall>w r r'. \<exists>cs. WriteNumIncreasing [] w = Some cs \<and> (bs @ r < cs @ r' \<longleftrightarrow> v < w \<or> v = w \<and> r < r'))"
proof (rule exI [of _ "num_bytes v"], intro conjI allI)
  show "WriteNumIncreasing dest v = Some (dest @ num_bytes v)" for dest by (rule WriteNumIncreasing_num_bytes)
  show "ReadNumIncreasing (num_bytes v @ rest) = Some (rest, v)" for rest by (rule num.dec_enc)
  show "\<exists>cs. WriteNumIncreasing [] w = Some cs \<and> (num_bytes v @ r < cs @ r' \<longleftrightarrow> v < w \<or> v = w \<and> r < r')" for w r r'
    by (simp add: WriteNumIncreasing_num_bytes num.enc_less_iff)
qed

end
