(* ===== verification/SignedCode.thy ===== *)
theory SignedCode
  imports OrderedCode
begin

text \<open>
  The signed numbers of \<open>core/lib/strings/ordered_code.cc\<close>. An \<open>int64\<close> is a 64-bit word read
  with \<open>sint\<close>. The tables are lists read with checked access, as are the ten-byte buffer and
  the source string. The encoding of a negative number is the bytewise complement of the encoding
  of its complement, in both directions, so the lemmas treat non-negative numbers with
  natural-number arithmetic and obtain the others by complement.
\<close>

definition kLengthToHeaderBits :: "(u8 \<times> u8) list" where
  "kLengthToHeaderBits =
     [(0, 0), (0x80, 0), (0xc0, 0), (0xe0, 0), (0xf0, 0), (0xf8, 0), (0xfc, 0), (0xfe, 0),
      (0xff, 0), (0xff, 0x80), (0xff, 0xc0)]"

definition kLengthToMask :: "u64 list" where
  "kLengthToMask =
     [0, 0x80, 0xc000, 0xe00000, 0xf0000000, 0xf800000000, 0xfc0000000000, 0xfe000000000000,
      0xff00000000000000, 0x8000000000000000, 0]"

definition kBitsToLength :: "int list" where
  "kBitsToLength =
     [1, 1, 1, 1, 1, 1, 1, 2, 2, 2, 2, 2, 2, 2, 3, 3, 3, 3, 3, 3, 3, 4,
      4, 4, 4, 4, 4, 4, 5, 5, 5, 5, 5, 5, 5, 6, 6, 6, 6, 6, 6, 6, 7, 7,
      7, 7, 7, 7, 7, 8, 8, 8, 8, 8, 8, 8, 9, 9, 9, 9, 9, 9, 9, 10]"

definition SignedEncodingLength :: "u64 \<Rightarrow> int option" where
  "SignedEncodingLength n = rd kBitsToLength (Log2Floor64 (if sint n < 0 then NOT n else n) + 1)"

definition StoreBigEndian64 :: "u64 \<Rightarrow> u8 list" where
  "StoreBigEndian64 v = map (\<lambda>i. ucast (drop_bit (56 - 8 * i) v AND 0xff)) [0..<8]"

definition LoadBigEndian64 :: "u8 list \<Rightarrow> u64" where
  "LoadBigEndian64 src = foldl (\<lambda>result i. result OR push_bit (56 - 8 * i) (ucast (src ! i))) 0 [0..<8]"

definition WriteSignedNumIncreasing :: "u8 list \<Rightarrow> u64 \<Rightarrow> u8 list option" where
  "WriteSignedNumIncreasing dest val =
     (let x = (if sint val < 0 then NOT val else val) in
      if x < 64 then Some (dest @ [fst (kLengthToHeaderBits ! 1) XOR ucast val])
      else do {
        let sign_byte = (if sint val < 0 then 0xff else 0);
        let buf = [sign_byte, sign_byte] @ StoreBigEndian64 val;
        len \<leftarrow> SignedEncodingLength x;
        let begin = 10 - len;
        b0 \<leftarrow> rd buf begin;
        header \<leftarrow> rd kLengthToHeaderBits len;
        buf \<leftarrow> wr buf begin (b0 XOR fst header);
        b1 \<leftarrow> rd buf (begin + 1);
        buf \<leftarrow> wr buf (begin + 1) (b1 XOR snd header);
        Some (dest @ take (nat len) (drop (nat begin) buf)) })"

definition ReadSignedNumIncreasing :: "u8 list \<Rightarrow> (u8 list \<times> u64) option" where
  "ReadSignedNumIncreasing src =
     (if src = [] then None
      else let xor_mask = (if (src ! 0) AND 0x80 = 0 then NOT 0 else (0 :: u64));
               first_byte = src ! 0 XOR ucast (xor_mask AND 0xff) in
        do {
          (len, x) \<leftarrow>
            (if first_byte \<noteq> 0xff then
               let len = nat (7 - Log2Floor64 (ucast (first_byte XOR 0xff))) in
               if length src < len then None
               else Some (len, foldl (\<lambda>x i. push_bit 8 x OR ucast (src ! i)) xor_mask [0..<len])
             else if length src < 8 then None
             else let second_byte = src ! 1 XOR ucast (xor_mask AND 0xff) in
               if second_byte \<ge> 0x80 then
                 do {
                   len \<leftarrow>
                     (if second_byte < 0xc0 then Some (9 :: nat)
                      else let third_byte = src ! 2 XOR ucast (xor_mask AND 0xff) in
                        if second_byte = 0xc0 \<and> third_byte < 0x80 then Some 10 else None);
                   if length src < len then None else Some (len, LoadBigEndian64 (drop (len - 8) src)) }
               else Some (8, LoadBigEndian64 src));
          Some (drop len src, x XOR kLengthToMask ! len) })"

subsection \<open>The complement symmetry\<close>

lemma StoreBigEndian64_NOT: "StoreBigEndian64 (NOT v) = map NOT (StoreBigEndian64 v)"
proof -
  have "(ucast (drop_bit (56 - 8 * i) (NOT v)) :: u8) = NOT (ucast (drop_bit (56 - 8 * i) v))" if "i \<in> set [0..<8]" for i
    by (rule bit_word_eqI) (use that in \<open>auto simp: bit_simps\<close>)
  then show ?thesis by (simp add: StoreBigEndian64_def ucast_and_255)
qed

lemma sint_neg_iff: "sint v < 0 \<longleftrightarrow> bit v 63" for v :: u64
  using bit_last_iff [of v] by simp

lemma sint_NOT: "sint (NOT v) < 0 \<longleftrightarrow> \<not> sint v < 0" for v :: u64
  by (simp add: sint_neg_iff bit_simps)

lemma NOT_xor: "NOT a XOR b = NOT (a XOR b)" for a b :: "'a::len word"
  by (rule bit_word_eqI) (auto simp: bit_simps)

lemma rd_NOT: "rd (map NOT xs) i = map_option NOT (rd xs i)" for xs :: "u8 list"
  by (auto simp: rd_def)

lemma wr_NOT: "wr (map NOT xs) i (NOT v) = map_option (map NOT) (wr xs i v)" for xs :: "u8 list"
  by (simp add: wr_def map_update)

definition put_header :: "int \<Rightarrow> u8 list \<Rightarrow> u8 list option" where
  "put_header len buf = do {
     let begin = 10 - len;
     b0 \<leftarrow> rd buf begin;
     header \<leftarrow> rd kLengthToHeaderBits len;
     buf \<leftarrow> wr buf begin (b0 XOR fst header);
     b1 \<leftarrow> rd buf (begin + 1);
     buf \<leftarrow> wr buf (begin + 1) (b1 XOR snd header);
     Some (take (nat len) (drop (nat begin) buf)) }"

lemma put_header_NOT: "put_header len (map NOT buf) = map_option (map NOT) (put_header len buf)"
proof (cases "rd buf (10 - len)")
  case b0: (Some b0)
  show ?thesis
  proof (cases "rd kLengthToHeaderBits len")
    case h: (Some h)
    show ?thesis
    proof (cases "wr buf (10 - len) (b0 XOR fst h)")
      case b: (Some buf')
      show ?thesis
      proof (cases "rd buf' (11 - len)")
        case b1: (Some b1)
        show ?thesis
          by (cases "wr buf' (11 - len) (b1 XOR snd h)")
            (simp_all add: put_header_def Let_def rd_NOT wr_NOT NOT_xor b0 h b b1 take_map drop_map)
      qed (simp add: put_header_def Let_def rd_NOT wr_NOT NOT_xor b0 h b)
    qed (simp add: put_header_def Let_def rd_NOT wr_NOT NOT_xor b0 h)
  qed (simp add: put_header_def Let_def rd_NOT b0)
qed (simp add: put_header_def Let_def rd_NOT)

lemma WriteSigned_split:
  "WriteSignedNumIncreasing dest val =
    (let x = (if sint val < 0 then NOT val else val) in
     if x < 64 then Some (dest @ [0x80 XOR ucast val])
     else Option.bind (SignedEncodingLength x) (\<lambda>len.
       map_option ((@) dest)
        (put_header len ([if sint val < 0 then 0xff else 0, if sint val < 0 then 0xff else 0] @ StoreBigEndian64 val))))"
proof -
  have m: "map_option f (Option.bind a g) = Option.bind a (\<lambda>x. map_option f (g x))" for f :: "'b \<Rightarrow> 'c" and a :: "'a option" and g
    by (cases a) simp_all
  show ?thesis
    by (simp add: WriteSignedNumIncreasing_def put_header_def Let_def m kLengthToHeaderBits_def)
qed

lemma WriteSigned_NOT: "WriteSignedNumIncreasing [] (NOT v) = map_option (map NOT) (WriteSignedNumIncreasing [] v)"
proof -
  let ?s = "if sint v < 0 then 0xff else 0 :: u8" and ?x = "if sint v < 0 then NOT v else v"
  have u: "ucast (NOT v) = NOT (ucast v :: u8)" by (rule bit_word_eqI) (auto simp: bit_simps)
  have b: "put_header len ([if sint (NOT v) < 0 then 0xff else 0, if sint (NOT v) < 0 then 0xff else 0] @ StoreBigEndian64 (NOT v))
     = map_option (map NOT) (put_header len ([?s, ?s] @ StoreBigEndian64 v))" for len
  proof -
    have n: "(- 1 :: u8) = 255" "(- 256 :: u8) = 0" by simp_all
    show ?thesis by (simp add: sint_NOT StoreBigEndian64_NOT n flip: put_header_NOT)
  qed
  have x: "(if sint (NOT v) < 0 then NOT (NOT v) else NOT v) = ?x" by (simp add: sint_NOT)
  show ?thesis
  proof (cases "?x < 64")
    case True
    then show ?thesis by (simp only: WriteSigned_split Let_def x) (simp add: u NOT_xor xor.commute [of 128])
  next
    case False
    then show ?thesis
      by (simp only: WriteSigned_split Let_def x b) (cases "SignedEncodingLength ?x"; simp add: option.map_comp o_def)
  qed
qed

lemma load_NOT: "load (NOT x) (map NOT bs) = NOT (load x bs)"
proof (induction bs rule: rev_induct)
  case (snoc b bs)
  have "push_bit 8 (NOT t) OR ucast (NOT b) = NOT (push_bit 8 t OR ucast b)" for t :: u64
    by (rule bit_word_eqI) (auto simp: bit_simps dest: bit_imp_le_length)
  then show ?case using snoc by (simp add: load_def)
qed (simp add: load_def)

lemma LoadBigEndian64_load:
  assumes "8 \<le> length src"
  shows "LoadBigEndian64 src = load x (take 8 src)"
proof -
  have s: "take 8 src = [src ! 0, src ! 1, src ! 2, src ! 3, src ! 4, src ! 5, src ! 6, src ! 7]"
  proof -
    have "take 8 src = map ((!) src) [0..<8]" using assms by (intro nth_equalityI) auto
    then show ?thesis by (simp add: upt_2_4_8)
  qed
  have z: "push_bit 64 x = 0" by (rule bit_word_eqI) (simp add: bit_simps)
  show ?thesis unfolding s LoadBigEndian64_def load_def
    by (simp add: upt_2_4_8 push_bit_or push_bit_push_bit z or.assoc)
qed

subsection \<open>Reading, in terms of the loaded bytes\<close>

definition signed_len :: "(nat \<Rightarrow> u8) \<Rightarrow> nat option" where
  "signed_len f =
     (if f 0 \<noteq> 255 then Some (nat (7 - Log2Floor64 (ucast (f 0 XOR 255))))
      else if f 1 \<ge> 128 then
        (if f 1 < 192 then Some 9 else if f 1 = 192 \<and> f 2 < 128 then Some 10 else None)
      else Some 8)"

lemma signed_len_cong:
  "f 0 = g 0 \<Longrightarrow> (f 0 = 255 \<Longrightarrow> f 1 = g 1 \<and> f 2 = g 2) \<Longrightarrow> signed_len f = signed_len g"
  by (simp add: signed_len_def)

lemma load_append: "load x (xs @ ys) = load (load x xs) ys"
  by (simp add: load_def)

lemma LoadBigEndian64_tail:
  assumes "8 \<le> len" "len \<le> length src"
  shows "LoadBigEndian64 (drop (len - 8) src) = load x (take len src)"
proof -
  have "take len src = take (len - 8) src @ take 8 (drop (len - 8) src)"
    using assms take_add [of "len - 8" 8 src] by simp
  then show ?thesis using assms
    by (simp add: load_append LoadBigEndian64_load [of _ "load x (take (len - 8) src)"])
qed

lemma and_128: "c AND 128 = 0 \<longleftrightarrow> \<not> bit c 7" for c :: u8
  using and_exp_eq_0_iff_not_bit [of c 7] by simp

lemma ReadSigned_load:
  assumes "src \<noteq> []"
  shows "ReadSignedNumIncreasing src =
    (let neg = \<not> bit (src ! 0) 7 in
     case signed_len (\<lambda>i. if neg then NOT (src ! i) else src ! i) of None \<Rightarrow> None
     | Some len \<Rightarrow>
        if length src < len then None
        else Some (drop len src, load (if neg then NOT 0 else 0) (take len src) XOR kLengthToMask ! len))"
proof -
  define f where "f = (\<lambda>i. if \<not> bit (src ! 0) 7 then NOT (src ! i) else src ! i)"
  define g where "g = (if \<not> bit (src ! 0) 7 then NOT 0 else 0 :: u64)"
  have m: "(if src ! 0 AND 128 = 0 then NOT 0 else 0) = g" by (simp add: and_128 g_def)
  have b: "src ! i XOR ucast (g AND 255) = f i" for i
  proof -
    have "ucast (NOT 0 :: u64) = (- 1 :: u8)" by (rule bit_word_eqI) (simp add: bit_simps)
    then show ?thesis by (simp add: ucast_and_255 f_def g_def)
  qed
  have l: "foldl (\<lambda>x i. push_bit 8 x OR ucast (src ! i)) x [0..<n] = load x (take n src)" if "n \<le> length src" for x n
    using that foldl_nth [of n src "\<lambda>t b. push_bit 8 t OR ucast b" x] by (simp add: load_def)
  have L: "LoadBigEndian64 src = load g (take 8 src)" if "8 \<le> length src"
    using that LoadBigEndian64_tail [of 8 src] by simp
  have L9: "LoadBigEndian64 (drop (9 - 8) src) = load g (take 9 src)" if "9 \<le> length src"
    using that by (intro LoadBigEndian64_tail) simp_all
  have L10: "LoadBigEndian64 (drop (10 - 8) src) = load g (take 10 src)" if "10 \<le> length src"
    using that by (intro LoadBigEndian64_tail) simp_all
  have "ReadSignedNumIncreasing src = (case signed_len f of None \<Rightarrow> None
     | Some len \<Rightarrow> if length src < len then None
        else Some (drop len src, load g (take len src) XOR kLengthToMask ! len))"
  proof (cases "f 0 = 255")
    case False
    then show ?thesis using assms l
      by (simp add: ReadSignedNumIncreasing_def Let_def m b signed_len_def not_less)
  next
    case ff: True
    consider "f 1 < 128" | "128 \<le> f 1" "f 1 < 192" | "192 \<le> f 1" "f 1 = 192 \<and> f 2 < 128"
      | "192 \<le> f 1" "\<not> (f 1 = 192 \<and> f 2 < 128)" by (metis linorder_not_le)
    then show ?thesis
    proof cases
      case 1
      then have "\<not> 128 \<le> f 1" by simp
      then show ?thesis using assms ff L
        by (simp del: not_le add: ReadSignedNumIncreasing_def Let_def m b signed_len_def not_less)
    next
      case 2
      then show ?thesis using assms ff L9
        by (simp add: ReadSignedNumIncreasing_def Let_def m b signed_len_def not_less)
    next
      case 3
      then have "\<not> f 1 < 192" "128 \<le> f 1" by (simp_all add: word_le_nat_alt word_less_nat_alt)
      with 3 show ?thesis using assms ff L10
        by (simp add: ReadSignedNumIncreasing_def Let_def m b signed_len_def not_less)
    next
      case 4
      then have "\<not> f 1 < 192" "128 \<le> f 1" by (simp_all add: word_le_nat_alt word_less_nat_alt)
      with 4 show ?thesis using assms ff
        by (auto simp: ReadSignedNumIncreasing_def Let_def m b signed_len_def not_less)
    qed
  qed
  then show ?thesis unfolding f_def g_def Let_def .
qed


subsection \<open>Non-negative numbers\<close>

lemma xor_add_small:
  fixes a :: "'a::len word"
  assumes "unat a < 2 ^ k"
  shows "a XOR NOT (mask k) = a + NOT (mask k)" and "(a + NOT (mask k)) XOR NOT (mask k) = a"
proof -
  have z: "a AND NOT (mask k) = 0"
  proof (rule bit_word_eqI)
    fix n show "bit (a AND NOT (mask k)) n = bit 0 n"
      using word_small_bit [OF assms, of n] by (cases "n < k") (auto simp: bit_simps)
  qed
  have "a + NOT (mask k) = (a OR NOT (mask k))" using z by (simp add: disjunctive_add_eq_or)
  moreover have "(a OR NOT (mask k)) = a XOR NOT (mask k)"
    using z by (metis disjunctive_xor_eq_or)
  ultimately show x: "a XOR NOT (mask k) = a + NOT (mask k)" by simp
  show "(a + NOT (mask k)) XOR NOT (mask k) = a" by (simp flip: x add: xor.assoc)
qed

lemma be_append: "be (m + n) v = be m (v div 256 ^ n) @ be n v"
proof (induction n arbitrary: v)
  case (Suc n)
  have "be (m + Suc n) v = be (m + n) (v div 256) @ [of_nat v]" by simp
  also have "be (m + n) (v div 256) = be m (v div 256 ^ Suc n) @ be n (v div 256)"
    by (simp add: Suc div_mult2_eq)
  finally show ?case by simp
qed simp

lemma be_map: "be n v = map (\<lambda>i. of_nat (v div 256 ^ (n - 1 - i))) [0..<n]"
proof (induction n arbitrary: v)
  case (Suc n)
  have "v div 256 div 256 ^ (n - 1 - i) = v div 256 ^ (n - i)" if "i < n" for i
  proof -
    have "n - i = Suc (n - 1 - i)" using that by simp
    then show ?thesis by (simp add: div_mult2_eq)
  qed
  then show ?case using Suc by simp
qed simp

lemma be_2: "be 2 v = [of_nat (v div 256), of_nat v]"
  by (simp add: numeral_2_eq_2)

lemma StoreBigEndian64_be: "StoreBigEndian64 v = be 8 (unat v)"
proof -
  have u: "ucast (drop_bit k v) = (of_nat (unat v div 2 ^ k) :: u8)" for k
    by (metis unat_drop_div of_nat_unat)
  have p: "(2 :: nat) ^ (56 - 8 * i) = 256 ^ (8 - 1 - i)" if "i < 8" for i
  proof -
    have "56 - 8 * i = 8 * (8 - 1 - i)" by simp
    then show ?thesis by (simp only: power_mult) simp
  qed
  show ?thesis
    unfolding StoreBigEndian64_def ucast_and_255 u be_map by (rule map_cong) (simp_all add: p)
qed

lemma of_nat_u8_add: "(of_nat (q + c * 256) :: u8) = of_nat q"
proof -
  have "(of_nat (c * 256) :: u8) = 0" unfolding word_of_nat_eq_0_iff by simp
  then show ?thesis by (simp only: of_nat_add add_0_right)
qed

lemma put_header_at:
  assumes "n \<le> 8" "length p = 8 - n" "length t = n"
  shows "put_header (int n + 2) (p @ a # b # t)
    = Some ((a XOR fst (kLengthToHeaderBits ! (n + 2))) # (b XOR snd (kLengthToHeaderBits ! (n + 2))) # t)"
proof -
  have i: "nat (8 - int n) = 8 - n" "nat (9 - int n) = Suc (8 - n)" "nat (int n + 2) = n + 2" using assms(1) by auto
  show ?thesis
    using assms by (simp add: put_header_def rd_def wr_def i nth_append list_update_append kLengthToHeaderBits_def)
qed

definition two_bytes :: "nat \<Rightarrow> nat \<Rightarrow> nat" where
  "two_bytes len q = 2 ^ 16 - 2 ^ (16 - len) + q"

lemma header_bytes:
  assumes "n \<le> 8" "q < 2 ^ (13 - n)"
  shows "[of_nat (q div 256) XOR fst (kLengthToHeaderBits ! (n + 2)), of_nat q XOR snd (kLengthToHeaderBits ! (n + 2))]
    = be 2 (two_bytes (n + 2) q)"
proof -
  have x: "of_nat a XOR NOT (mask k) = (of_nat (a + 2 ^ 8 - 2 ^ k) :: u8)" if "a < 2 ^ k" "k \<le> 8" for a k
  proof -
    have "a < 2 ^ 8" using that power_increasing [of k 8 "2 :: nat"] by linarith
    then have "unat (of_nat a :: u8) < 2 ^ k" using that by (simp add: unat_of_nat)
    then have "of_nat a XOR NOT (mask k) = (of_nat a :: u8) + NOT (mask k)" by (rule xor_add_small)
    also have "\<dots> = of_nat a - 2 ^ k" by (simp add: mask_eq_exp_minus_1 not_eq_complement)
    also have "\<dots> = (of_nat (a + 2 ^ 8 - 2 ^ k) :: u8)"
      using that power_increasing [of k 8 "2 :: nat"] by (simp add: of_nat_diff)
    finally show ?thesis .
  qed
  show ?thesis
  proof (cases "n \<le> 6")
    case True
    have t: "kLengthToHeaderBits ! (n + 2) = (NOT (mask (6 - n)), 0)"
    proof -
      consider "n = 0" | "n = 1" | "n = 2" | "n = 3" | "n = 4" | "n = 5" | "n = 6" using True by linarith
      then show ?thesis by cases (simp_all add: kLengthToHeaderBits_def mask_eq_exp_minus_1)
    qed
    have e: "16 - (n + 2) = (6 - n) + 8" using True by simp
    have p: "(2 :: nat) ^ (16 - (n + 2)) = 2 ^ (6 - n) * 256" unfolding e power_add by simp
    have "q < 2 ^ (16 - (n + 2))"
      using assms(2) True by (rule_tac order.strict_trans2 [OF assms(2) power_increasing]) simp_all
    then have "q div 256 < 2 ^ (6 - n)" by (simp only: p div_less_iff_less_mult)
    note xx = x [OF this]
    have "(2 :: nat) ^ (6 - n) \<le> 2 ^ 8" by (rule power_increasing) simp_all
    then have s: "two_bytes (n + 2) q = q + (2 ^ 8 - 2 ^ (6 - n)) * 256"
    proof -
      have "(2 ^ 8 - k) * 256 = (2 ^ 16 :: nat) - k * 256" for k by (simp add: diff_mult_distrib)
      then show ?thesis unfolding two_bytes_def p by (simp only: add.commute)
    qed
    have "be 2 (two_bytes (n + 2) q) = [of_nat (q div 256 + 2 ^ 8 - 2 ^ (6 - n)), of_nat q]"
    proof -
      have "be 2 (q + c * 256) = [of_nat (q div 256 + c), of_nat q]" for c
        by (simp only: be_2 of_nat_u8_add) simp
      moreover have "q div 256 + (2 ^ 8 - 2 ^ (6 - n)) = q div 256 + 2 ^ 8 - 2 ^ (6 - n)"
        using \<open>2 ^ (6 - n) \<le> 2 ^ 8\<close> by simp
      ultimately show ?thesis unfolding s by metis
    qed
    moreover have "of_nat (q div 256) XOR NOT (mask (6 - n)) = (of_nat (q div 256 + 2 ^ 8 - 2 ^ (6 - n)) :: u8)"
      by (rule xx) simp
    ultimately show ?thesis unfolding t fst_conv snd_conv xor.right_neutral by metis
  next
    case False
    then have "n = 7 \<or> n = 8" using assms(1) by linarith
    then consider "n = 7" "q < 64" | "n = 8" "q < 32" using assms(2) by auto
    then show ?thesis
    proof cases
      case 1
      have "(65408 + q) div 256 = 255" "q div 256 = 0" using 1 by simp_all
      moreover have "(of_nat (65408 + q) :: u8) = of_nat (128 + q)"
        using of_nat_u8_add [of "128 + q" 255] by (simp add: add.commute)
      moreover have "(of_nat q :: u8) XOR 128 = of_nat (128 + q)"
      proof -
        have "(128 :: u8) = NOT (mask 7)" "q + 2 ^ 8 - 2 ^ 7 = 128 + q" by (simp_all add: mask_eq_exp_minus_1)
        moreover have "(of_nat q :: u8) XOR NOT (mask 7) = of_nat (q + 2 ^ 8 - 2 ^ 7)" by (rule x) (use 1 in simp_all)
        ultimately show ?thesis by metis
      qed
      ultimately show ?thesis using 1 unfolding two_bytes_def be_2
        by (simp add: kLengthToHeaderBits_def)
    next
      case 2
      have "(65472 + q) div 256 = 255" "q div 256 = 0" using 2 by simp_all
      moreover have "(of_nat (65472 + q) :: u8) = of_nat (192 + q)"
        using of_nat_u8_add [of "192 + q" 255] by (simp add: add.commute)
      moreover have "(of_nat q :: u8) XOR 192 = of_nat (192 + q)"
      proof -
        have "(192 :: u8) = NOT (mask 6)" "q + 2 ^ 8 - 2 ^ 6 = 192 + q" by (simp_all add: mask_eq_exp_minus_1)
        moreover have "(of_nat q :: u8) XOR NOT (mask 6) = of_nat (q + 2 ^ 8 - 2 ^ 6)" by (rule x) (use 2 in simp_all)
        ultimately show ?thesis by metis
      qed
      ultimately show ?thesis using 2 unfolding two_bytes_def be_2
        by (simp add: kLengthToHeaderBits_def)
    qed
  qed
qed


definition slen :: "u64 \<Rightarrow> nat" where
  "slen v = (nat (Log2Floor64 v) + 1) div 7 + 1"

lemma kBitsToLength_div: "i < 64 \<Longrightarrow> kBitsToLength ! i = int (i div 7 + 1)"
proof -
  have "\<forall>i\<in>set [0..<64]. kBitsToLength ! i = int (i div 7 + 1)" by code_simp
  then show "i < 64 \<Longrightarrow> kBitsToLength ! i = int (i div 7 + 1)" by simp
qed

text \<open>An \<open>int64\<close> that is not negative and does not take the one-byte path.\<close>

lemma long_nonneg:
  assumes "\<not> bit v 63" "64 \<le> v"
  shows "SignedEncodingLength v = Some (int (slen v))" and "2 \<le> slen v" "slen v \<le> 10"
    and "unat v < 2 ^ (7 * slen v - 1)" "unat v < 2 ^ 63"
proof -
  have "v \<noteq> 0" using assms(2) by auto
  then have l: "is_log2 (Log2Floor64 v) (unat v)" by (rule Log2Floor64_is_log2)
  show 63: "unat v < 2 ^ 63"
  proof (rule ccontr)
    assume "\<not> ?thesis"
    then have "unat v div 2 ^ 63 = 1"
      using unsigned_less [of v, where 'a = nat] by (simp add: div_nat_eqI)
    then have "bit (unat v) 63" by (simp add: bit_iff_odd)
    then show False using assms(1) by (simp add: bit_unsigned_iff)
  qed
  let ?l = "nat (Log2Floor64 v)"
  have p: "2 ^ ?l \<le> unat v" "unat v < 2 ^ Suc ?l" "0 \<le> Log2Floor64 v" using l by (auto simp: is_log2_def)
  have "(2 :: nat) ^ ?l < 2 ^ 63" using p(1) 63 by simp
  then have l63: "?l < 63" using power_less_imp_less_exp [of "2 :: nat" ?l 63] by simp
  have "(2 :: nat) ^ 6 < 2 ^ Suc ?l" using p(2) assms(2) by (simp add: word_le_nat_alt)
  then have l6: "6 \<le> ?l" using power_less_imp_less_exp [of "2 :: nat" 6 "Suc ?l"] by simp
  have "nat (Log2Floor64 v + 1) = Suc ?l" using p(3) by simp
  then show "SignedEncodingLength v = Some (int (slen v))"
    using assms(1) l63 p(3) kBitsToLength_div [of "Suc ?l"]
    by (simp add: SignedEncodingLength_def sint_neg_iff rd_def slen_def kBitsToLength_def [THEN arg_cong, of length])
  show "2 \<le> slen v" "slen v \<le> 10" using l6 l63 by (simp_all add: slen_def)
  have "Suc ?l \<le> 7 * slen v - 1" unfolding slen_def by simp
  then show "unat v < 2 ^ (7 * slen v - 1)"
    using p(2) power_increasing [of "Suc ?l" "7 * slen v - 1" "2 :: nat"] by linarith
qed

lemma slen_mono: "v \<noteq> 0 \<Longrightarrow> v \<le> w \<Longrightarrow> slen v \<le> slen w"
proof -
  assume "v \<noteq> 0" "v \<le> w"
  then have "w \<noteq> 0" by auto
  have "is_log2 (Log2Floor64 v) (unat v)" "is_log2 (Log2Floor64 w) (unat w)"
    using Log2Floor64_is_log2 \<open>v \<noteq> 0\<close> \<open>w \<noteq> 0\<close> by auto
  then have "(2 :: nat) ^ nat (Log2Floor64 v) < 2 ^ Suc (nat (Log2Floor64 w))"
    using \<open>v \<le> w\<close> by (auto simp: is_log2_def word_le_nat_alt)
  then have "nat (Log2Floor64 v) \<le> nat (Log2Floor64 w)"
    using power_less_imp_less_exp [of "2 :: nat" "nat (Log2Floor64 v)" "Suc (nat (Log2Floor64 w))"] by simp
  then show "slen v \<le> slen w" by (simp add: slen_def div_le_mono)
qed

definition signed_bytes :: "u64 \<Rightarrow> u8 list" where
  "signed_bytes v = the (WriteSignedNumIncreasing [] v)"

lemma Write_short: "\<not> bit v 63 \<Longrightarrow> v < 64 \<Longrightarrow> WriteSignedNumIncreasing dest v = Some (dest @ [128 XOR ucast v])"
  by (simp add: WriteSigned_split sint_neg_iff)

lemma Write_long:
  assumes "\<not> bit v 63" "64 \<le> v"
  shows "WriteSignedNumIncreasing dest v
    = Some (dest @ be 2 (two_bytes (slen v) (unat v div 256 ^ (slen v - 2))) @ be (slen v - 2) (unat v))"
proof -
  note lv = long_nonneg [OF assms]
  obtain n where n: "slen v = n + 2" "n \<le> 8" using lv(2,3) that [of "slen v - 2"] by simp
  have "(8 - n) + (2 + n) = 10" using n by simp
  then have "[0, 0] @ StoreBigEndian64 v = be ((8 - n) + (2 + n)) (unat v)"
    using be_append [of 2 8 "unat v"] unsigned_less [of v, where 'a = nat]
    by (simp add: StoreBigEndian64_be be_2 del: be.simps)
  also have "\<dots> = be (8 - n) (unat v div 256 ^ (2 + n)) @ of_nat (unat v div 256 ^ n div 256) # of_nat (unat v div 256 ^ n) # be n (unat v)"
    by (subst be_append, subst be_append [of 2 n]) (simp add: be_2)
  finally have b: "[0, 0] @ StoreBigEndian64 v = \<dots>" .
  have "unat v < 2 ^ (13 - n) * 256 ^ n"
  proof -
    have "7 * slen v - 1 = (13 - n) + 8 * n" using n by simp
    then have "(2 :: nat) ^ (7 * slen v - 1) = 2 ^ (13 - n) * 256 ^ n" by (simp only: power_add power_mult) simp
    then show ?thesis using lv(4) by simp
  qed
  then have "unat v div 256 ^ n < 2 ^ (13 - n)" by (simp add: div_less_iff_less_mult)
  note h = header_bytes [OF n(2) this]
  have "put_header (int n + 2) ([0, 0] @ StoreBigEndian64 v)
     = Some (be 2 (two_bytes (n + 2) (unat v div 256 ^ n)) @ be n (unat v))"
    unfolding b h [symmetric] by (subst put_header_at) (use n in simp_all)
  then show ?thesis
    using assms lv(1) n by (simp add: WriteSigned_split sint_neg_iff not_less [symmetric] add.commute)
qed

subsection \<open>Decoding what was written\<close>

lemma push_or: "push_bit 8 (of_nat x) OR ucast (of_nat y :: u8) = (of_nat (x * 256 + y mod 256) :: u64)"
proof -
  have u: "ucast (of_nat y :: u8) = (of_nat (y mod 256) :: u64)"
    by (simp add: unsigned_of_nat take_bit_eq_mod)
  have "push_bit 8 (of_nat x :: u64) AND ucast (of_nat y :: u8) = 0"
    by (rule bit_word_eqI) (auto simp: bit_simps dest: bit_imp_le_length)
  then have "push_bit 8 (of_nat x) OR ucast (of_nat y :: u8) = push_bit 8 (of_nat x) + (ucast (of_nat y :: u8) :: u64)"
    by (simp add: disjunctive_add_eq_or)
  then show ?thesis by (simp add: u push_bit_eq_mult)
qed

lemma load_be_from: "load (of_nat a) (be n b) = of_nat (a * 256 ^ n + b mod 256 ^ n)"
proof (induction n arbitrary: b)
  case (Suc n)
  have "load (of_nat a) (be (Suc n) b) = push_bit 8 (load (of_nat a) (be n (b div 256))) OR ucast (of_nat b :: u8)"
    by (simp add: load_def)
  also have "\<dots> = of_nat ((a * 256 ^ n + b div 256 mod 256 ^ n) * 256 + b mod 256)"
    by (simp only: Suc push_or)
  also have "(a * 256 ^ n + b div 256 mod 256 ^ n) * 256 + b mod 256 = a * 256 ^ Suc n + b mod 256 ^ Suc n"
    by (simp add: mod_mult2_eq algebra_simps)
  finally show ?case .
qed (simp add: load_def)

lemma kLengthToMask_eq: "len \<le> 10 \<Longrightarrow> kLengthToMask ! len = push_bit (7 * len) (mask len)"
proof -
  have "\<forall>len\<in>set [0..<11]. kLengthToMask ! len = push_bit (7 * len) (mask len)" by code_simp
  then show "len \<le> 10 \<Longrightarrow> kLengthToMask ! len = push_bit (7 * len) (mask len)" by simp
qed

lemma mask_removed:
  fixes v :: u64
  assumes "unat v < 2 ^ (7 * len - 1)"
  shows "(push_bit (7 * len) (mask len) + v) XOR push_bit (7 * len) (mask len) = v"
proof -
  let ?h = "push_bit (7 * len) (mask len) :: u64"
  have z: "?h AND v = 0"
  proof (rule bit_word_eqI)
    fix k show "bit (?h AND v) k = bit 0 k"
      using word_small_bit [OF assms, of k] by (cases "7 * len \<le> k") (auto simp: bit_simps)
  qed
  have "?h + v = (?h OR v)" using z by (simp add: disjunctive_add_eq_or)
  also have "\<dots> = v XOR ?h" using z by (metis disjunctive_xor_eq_or xor.commute)
  finally show ?thesis by (simp add: xor.assoc)
qed

lemma two_bytes_scaled:
  assumes "n \<le> 8"
  shows "(of_nat (two_bytes (n + 2) q * 256 ^ n) :: u64) = push_bit (7 * (n + 2)) (mask (n + 2)) + of_nat (q * 256 ^ n)"
proof -
  have "(2 :: nat) ^ 16 * 256 ^ n = 2 ^ (8 * (n + 2))" by (simp add: power_add power_mult)
  moreover have "(2 :: nat) ^ (16 - (n + 2)) * 256 ^ n = 2 ^ (7 * (n + 2))"
  proof -
    have "(16 - (n + 2)) + 8 * n = 7 * (n + 2)" using assms by simp
    have "(2 :: nat) ^ (16 - (n + 2)) * 256 ^ n = 2 ^ ((16 - (n + 2)) + 8 * n)"
      unfolding power_add power_mult by simp
    then show ?thesis using \<open>(16 - (n + 2)) + 8 * n = 7 * (n + 2)\<close> by metis
  qed
  ultimately have "two_bytes (n + 2) q * 256 ^ n = 2 ^ (8 * (n + 2)) - 2 ^ (7 * (n + 2)) + q * 256 ^ n"
    by (simp add: two_bytes_def diff_mult_distrib add_mult_distrib del: power_Suc add_2_eq_Suc')
  also have "(2 :: nat) ^ (8 * (n + 2)) - 2 ^ (7 * (n + 2)) = 2 ^ (7 * (n + 2)) * (2 ^ (n + 2) - 1)"
  proof -
    have e: "8 * (n + 2) = 7 * (n + 2) + (n + 2)" by simp
    show ?thesis unfolding e power_add by (simp only: diff_mult_distrib2 mult_1_right)
  qed
  finally show ?thesis
    by (simp add: push_bit_eq_mult mask_eq_exp_minus_1 of_nat_diff)
qed

lemma two_bytes_range:
  assumes "len \<le> 10" "q < 2 ^ (15 - len)"
  shows "2 ^ 16 - 2 ^ (16 - len) \<le> two_bytes len q" "two_bytes len q < 2 ^ 16 - 2 ^ (15 - len)"
proof -
  have "16 - len = Suc (15 - len)" using assms by simp
  then have "(2 :: nat) ^ (16 - len) = 2 * 2 ^ (15 - len)" by simp
  moreover have "(2 :: nat) ^ (16 - len) \<le> 2 ^ 16" by (rule power_increasing) simp_all
  ultimately show "2 ^ 16 - 2 ^ (16 - len) \<le> two_bytes len q" "two_bytes len q < 2 ^ 16 - 2 ^ (15 - len)"
    using assms(2) by (auto simp: two_bytes_def)
qed

lemma unat_NOT_u8: "unat (NOT c) = 255 - unat c" for c :: u8
  by transfer (simp add: take_bit_not_eq_mask_diff mask_eq_exp_minus_1 nat_diff_distrib')

lemma signed_len_first_byte:
  assumes "1 \<le> m" "m \<le> 7" "256 - 2 ^ (8 - m) \<le> s" "s < 256 - 2 ^ (7 - m)" "f 0 = of_nat s"
  shows "signed_len f = Some m" "f 0 \<noteq> 255"
proof -
  have "8 - m = Suc (7 - m)" using assms(2) by simp
  then have p: "(2 :: nat) ^ (8 - m) = 2 * 2 ^ (7 - m)" by simp
  have one: "(1 :: nat) \<le> 2 ^ (7 - m)" by simp
  then have s: "s < 255" using assms(4) by linarith
  then have u: "unat (f 0) = s" using assms(5) by (simp add: unat_of_nat)
  then show ne: "f 0 \<noteq> 255" using s by (auto simp: word_unat_eq_iff)
  have "f 0 XOR (- 1) = NOT (f 0)" "(255 :: u8) = - 1" by simp_all
  then have "f 0 XOR 255 = NOT (f 0)" by metis
  then have x: "unat (ucast (f 0 XOR 255) :: u64) = 255 - s"
    using u by (simp add: unat_ucast_up unat_NOT_u8)
  then have "ucast (f 0 XOR 255) \<noteq> (0 :: u64)" using s by auto
  then have "is_log2 (Log2Floor64 (ucast (f 0 XOR 255))) (255 - s)"
    using Log2Floor64_is_log2 x by metis
  moreover have "is_log2 (int (7 - m)) (255 - s)"
    using assms(3,4) p one by (auto simp: is_log2_def)
  ultimately have "Log2Floor64 (ucast (f 0 XOR 255)) = int (7 - m)" by (rule is_log2_unique)
  then show "signed_len f = Some m" using ne assms(1,2) by (simp add: signed_len_def)
qed

text \<open>What decoding needs of the bytes of a non-negative number \<open>v\<close>.\<close>

definition decodes :: "u8 list \<Rightarrow> u64 \<Rightarrow> bool" where
  "decodes bs v \<longleftrightarrow> bs \<noteq> [] \<and> bit (bs ! 0) 7 \<and> signed_len ((!) bs) = Some (length bs) \<and>
     (bs ! 0 = 255 \<longrightarrow> 3 \<le> length bs) \<and> load 0 bs XOR kLengthToMask ! length bs = v"

lemma decodes_read:
  assumes "decodes bs v"
  shows "ReadSignedNumIncreasing (bs @ rest) = Some (rest, v)"
    and "ReadSignedNumIncreasing (map NOT bs @ rest) = Some (rest, NOT v)"
proof -
  have ne: "bs \<noteq> []" and b7: "bit (bs ! 0) 7" and l: "signed_len ((!) bs) = Some (length bs)"
    and l3: "bs ! 0 = 255 \<Longrightarrow> 3 \<le> length bs" and v: "load 0 bs XOR kLengthToMask ! length bs = v"
    using assms by (auto simp: decodes_def)
  have "signed_len ((!) (bs @ rest)) = signed_len ((!) bs)"
    using ne l3 by (intro signed_len_cong) (auto simp: nth_append)
  moreover have "(bs @ rest) ! 0 = bs ! 0" using ne by (simp add: nth_append)
  ultimately show "ReadSignedNumIncreasing (bs @ rest) = Some (rest, v)"
    using ne b7 l v by (simp add: ReadSigned_load)
  have "signed_len (\<lambda>i. NOT ((map NOT bs @ rest) ! i)) = signed_len ((!) bs)"
    using ne l3 by (intro signed_len_cong) (auto simp: nth_append)
  moreover have "(map NOT bs @ rest) ! 0 = NOT (bs ! 0)" using ne by (simp add: nth_append)
  ultimately show "ReadSignedNumIncreasing (map NOT bs @ rest) = Some (rest, NOT v)"
    using ne b7 l v load_NOT [of 0 bs] by (simp add: ReadSigned_load bit_not_iff NOT_xor)
qed

lemma u8_bit_7: "bit c 7 \<longleftrightarrow> 128 \<le> unat c" for c :: u8
proof -
  have "unat c < 256" by (rule order_less_le_trans [OF unsigned_less]) simp
  then have "unat c div 128 = (if 128 \<le> unat c then 1 else 0)" by (simp add: div_nat_eqI)
  moreover have "bit c 7 = bit (unat c) 7" by (simp add: bit_unsigned_iff)
  ultimately show ?thesis by (simp add: bit_iff_odd)
qed

lemma short_byte:
  fixes v :: u64
  assumes "v < 64"
  shows "128 XOR ucast v = (of_nat (128 + unat v) :: u8)" "unat v < 64"
proof -
  show lt: "unat v < 64" using assms by (simp add: word_less_nat_alt)
  have e: "(128 :: u8) = NOT (mask 7)" by (simp add: mask_eq_exp_minus_1)
  have u: "(ucast v :: u8) = of_nat (unat v)" by (simp add: of_nat_unat)
  have "unat (of_nat (unat v) :: u8) < 2 ^ 7" using lt by (simp add: unsigned_ucast_eq take_bit_eq_mod)
  then have "of_nat (unat v) XOR NOT (mask 7) = (of_nat (unat v) :: u8) + NOT (mask 7)" by (rule xor_add_small)
  then show "128 XOR ucast v = (of_nat (128 + unat v) :: u8)"
    unfolding e [symmetric] u by (simp add: xor.commute add.commute)
qed

lemma decodes_short:
  assumes "v < 64"
  shows "decodes [128 XOR ucast v] v"
proof -
  note sb = short_byte [OF assms]
  have "unat v < 2 ^ (7 * 1 - 1)" using sb(2) by simp
  note m = mask_removed [OF this]
  have "load 0 [128 XOR ucast v] = push_bit 8 (of_nat 0) OR ucast (of_nat (128 + unat v) :: u8)"
    by (simp add: load_def sb(1))
  also have "\<dots> = of_nat (128 + unat v)" using sb(2) by (simp only: push_or) simp
  also have "\<dots> = push_bit (7 * 1) (mask 1) + v" by (simp add: mask_eq_exp_minus_1)
  finally have "load 0 [128 XOR ucast v] XOR kLengthToMask ! 1 = v"
    using m kLengthToMask_eq [of 1] by simp
  moreover have "bit (of_nat (128 + unat v) :: u8) 7"
    unfolding u8_bit_7 using sb(2) by (simp add: unat_of_nat del: of_nat_add)
  ultimately show ?thesis
    using signed_len_first_byte [of 1 "128 + unat v" "(!) [128 XOR ucast v]"] sb
    by (simp add: decodes_def)
qed

lemma long_prefix:
  assumes "\<not> bit v 63" "64 \<le> v" "slen v = n + 2"
  shows "n \<le> 8" "unat v div 256 ^ n < 2 ^ (13 - n)"
proof -
  note lv = long_nonneg [OF assms(1,2)]
  show n: "n \<le> 8" using lv(3) assms(3) by simp
  have "7 * slen v - 1 = (13 - n) + 8 * n" using n assms(3) by simp
  then have "(2 :: nat) ^ (7 * slen v - 1) = 2 ^ (13 - n) * 256 ^ n" by (simp only: power_add power_mult) simp
  then show "unat v div 256 ^ n < 2 ^ (13 - n)" using lv(4) by (simp add: div_less_iff_less_mult)
qed

lemma decodes_long:
  assumes "\<not> bit v 63" "64 \<le> v"
  shows "decodes (be 2 (two_bytes (slen v) (unat v div 256 ^ (slen v - 2))) @ be (slen v - 2) (unat v)) v"
proof -
  note lv = long_nonneg [OF assms]
  obtain n where n: "slen v = n + 2" using lv(2) that [of "slen v - 2"] by simp
  note n8 = long_prefix(1) [OF assms n] and q = long_prefix(2) [OF assms n]
  let ?q = "unat v div 256 ^ n"
  let ?S = "two_bytes (n + 2) ?q"
  let ?bs = "be 2 ?S @ be n (unat v)"
  have "15 - (n + 2) = 13 - n" by simp
  then have S: "2 ^ 16 - 2 ^ (14 - n) \<le> ?S" "?S < 2 ^ 16 - 2 ^ (13 - n)"
    using two_bytes_range [of "n + 2" ?q] n8 q by simp_all
  have "(1 :: nat) \<le> 2 ^ (13 - n)" by simp
  then have S16: "?S < 2 ^ 16" using S(2) by linarith
  have b0: "?bs ! 0 = of_nat (?S div 256)" and b1: "?bs ! 1 = of_nat ?S" by (simp_all add: be_2)
  have "(2 :: nat) ^ (14 - n) \<le> 2 ^ 14" by (rule power_increasing) simp_all
  then have s192: "192 \<le> ?S div 256" using S(1) by simp
  have s256: "?S div 256 < 256" using S16 by simp
  have bit7: "bit (?bs ! 0) 7" unfolding u8_bit_7 b0 using s192 s256 by (simp add: unat_of_nat)
  have len: "signed_len ((!) ?bs) = Some (n + 2) \<and> (?bs ! 0 = 255 \<longrightarrow> 1 \<le> n)"
  proof (cases "n \<le> 5")
    case True
    then have p: "(2 :: nat) ^ (14 - n) = 2 ^ (6 - n) * 256" "(2 :: nat) ^ (13 - n) = 2 ^ (5 - n) * 256"
    proof -
      have "14 - n = (6 - n) + 8" "13 - n = (5 - n) + 8" using True by simp_all
      then show "(2 :: nat) ^ (14 - n) = 2 ^ (6 - n) * 256" "(2 :: nat) ^ (13 - n) = 2 ^ (5 - n) * 256"
        by (simp_all only: power_add) simp_all
    qed
    have "256 - 2 ^ (6 - n) \<le> ?S div 256"
      using S(1) unfolding p by (simp add: less_eq_div_iff_mult_less_eq diff_mult_distrib)
    moreover have "?S div 256 < 256 - 2 ^ (5 - n)"
      using S(2) unfolding p by (simp add: div_less_iff_less_mult diff_mult_distrib)
    ultimately show ?thesis
      using signed_len_first_byte [of "n + 2" "?S div 256" "(!) ?bs"] True b0 by simp
  next
    case False
    then consider "n = 6" | "n = 7" | "n = 8" using n8 by linarith
    then show ?thesis
    proof cases
      case 1
      then have "?q < 128" using q by simp
      then have "?S div 256 = 255" "(of_nat ?S :: u8) = of_nat ?q"
        using 1 of_nat_u8_add [of ?q 255] by (simp_all add: two_bytes_def add.commute)
      then show ?thesis using 1 b0 b1 \<open>?q < 128\<close>
        by (simp add: signed_len_def word_le_nat_alt unat_of_nat del: of_nat_add)
    next
      case 2
      then have "?q < 64" using q by simp
      then have "?S div 256 = 255" "(of_nat ?S :: u8) = of_nat (128 + ?q)"
        using 2 of_nat_u8_add [of "128 + ?q" 255] by (simp_all add: two_bytes_def add.commute)
      then show ?thesis using 2 b0 b1 \<open>?q < 64\<close>
        by (simp add: signed_len_def word_le_nat_alt word_less_nat_alt unat_of_nat del: of_nat_add)
    next
      case 3
      then have "?q = 0" using unsigned_less [of v, where 'a = nat] by simp
      then have S8: "?S = 65472" using 3 by (simp add: two_bytes_def)
      have "?bs ! 2 = of_nat (unat v div 256 ^ 7)" using 3 by (simp add: nth_append be_map)
      moreover have "unat v div 256 ^ 7 < 128" using lv(5) by (simp add: div_less_iff_less_mult)
      ultimately have "unat (?bs ! 2) < 128" by (simp add: unat_of_nat)
      moreover have "?bs ! 0 = 255" "?bs ! 1 = 192" using b0 b1 unfolding S8 by simp_all
      ultimately show ?thesis using 3 by (simp add: signed_len_def word_le_nat_alt word_less_nat_alt)
    qed
  qed
  have "load 0 ?bs = load (of_nat ?S) (be n (unat v))"
    using load_be [of ?S 2] S16 by (simp add: load_append)
  also have "\<dots> = of_nat (?S * 256 ^ n) + of_nat (unat v mod 256 ^ n)" by (simp only: load_be_from of_nat_add)
  also have "\<dots> = push_bit (7 * (n + 2)) (mask (n + 2)) + of_nat (?q * 256 ^ n + unat v mod 256 ^ n)"
    by (simp only: two_bytes_scaled [OF n8] of_nat_add add.assoc)
  also have "\<dots> = push_bit (7 * (n + 2)) (mask (n + 2)) + v"
    by (simp only: div_mult_mod_eq) (simp add: of_nat_unat)
  finally have "load 0 ?bs XOR kLengthToMask ! (n + 2) = v"
    using mask_removed [of v "n + 2"] lv(4) n n8 kLengthToMask_eq [of "n + 2"] by simp
  moreover have "?bs \<noteq> []" by (simp add: be_2)
  ultimately show ?thesis using bit7 len unfolding n decodes_def by auto
qed


subsection \<open>Order, and the interpretation\<close>

lemma be_add: "be n (a * 256 ^ n + v) = be n v"
proof (induction n arbitrary: v)
  case (Suc n)
  have "a * 256 ^ Suc n + v = v + (a * 256 ^ n) * 256" by simp
  moreover have "(v + (a * 256 ^ n) * 256) div 256 = a * 256 ^ n + v div 256" by simp
  ultimately show ?case using Suc [of "v div 256"] by (simp only: be.simps of_nat_u8_add)
qed simp

lemma two_bytes_be:
  assumes "q = v div 256 ^ n"
  shows "be 2 (two_bytes (n + 2) q) @ be n v = be (2 + n) ((2 ^ 16 - 2 ^ (16 - (n + 2))) * 256 ^ n + v)"
proof -
  have "((2 ^ 16 - 2 ^ (16 - (n + 2))) * 256 ^ n + v) div 256 ^ n = 2 ^ 16 - 2 ^ (16 - (n + 2)) + v div 256 ^ n"
    by (simp del: add_2_eq_Suc add_2_eq_Suc')
  then show ?thesis unfolding be_append be_add two_bytes_def assms by metis
qed

lemma nonneg_bytes:
  assumes "\<not> bit v 63"
  shows "WriteSignedNumIncreasing dest v = Some (dest @ signed_bytes v)"
    and "decodes (signed_bytes v) v"
  using assms Write_short [of v] Write_long [of v] decodes_short [of v] decodes_long [of v]
  by (cases "v < 64"; simp add: signed_bytes_def not_less)+

lemma signed_bytes_NOT: "signed_bytes (NOT v) = map NOT (signed_bytes v)"
  and Write_signed_bytes: "WriteSignedNumIncreasing dest v = Some (dest @ signed_bytes v)"
proof -
  have d: "WriteSignedNumIncreasing dest v = map_option ((@) dest) (WriteSignedNumIncreasing [] v)" for v
    by (cases "SignedEncodingLength (if sint v < 0 then NOT v else v)"; cases "sint v < 0")
      (simp_all add: WriteSigned_split Let_def option.map_comp o_def)
  have s: "\<exists>bs. WriteSignedNumIncreasing [] v = Some bs" for v
  proof (cases "bit v 63")
    case True
    then have "\<not> bit (NOT v) 63" by (simp add: bit_simps)
    then show ?thesis using nonneg_bytes(1) [of "NOT v" "[]"] WriteSigned_NOT [of "NOT v"] by simp
  qed (use nonneg_bytes in auto)
  then show "signed_bytes (NOT v) = map NOT (signed_bytes v)"
    using WriteSigned_NOT [of v] by (metis option.map_sel option.simps(3) signed_bytes_def)
  show "WriteSignedNumIncreasing dest v = Some (dest @ signed_bytes v)"
    using d [of v] s [of v] by (auto simp: signed_bytes_def)
qed

lemma signed_read: "ReadSignedNumIncreasing (signed_bytes v @ rest) = Some (rest, v)"
proof (cases "bit v 63")
  case True
  then have "\<not> bit (NOT v) 63" by (simp add: bit_simps)
  from decodes_read(2) [OF nonneg_bytes(2) [OF this], of rest] show ?thesis
    by (simp flip: signed_bytes_NOT)
qed (use decodes_read(1) nonneg_bytes(2) in blast)

lemma nonneg_mono:
  assumes "\<not> bit v 63" "\<not> bit w 63" "v < w"
  shows "signed_bytes v < signed_bytes w"
proof -
  have S: "signed_bytes v = (if v < 64 then [128 XOR ucast v]
     else be 2 (two_bytes (slen v) (unat v div 256 ^ (slen v - 2))) @ be (slen v - 2) (unat v))"
    if "\<not> bit v 63" for v
    using that Write_short [of v "[]"] Write_long [of v "[]"] by (simp add: signed_bytes_def not_less)
  have vw: "unat v < unat w" using assms(3) by (simp add: word_less_nat_alt)
  have first: "signed_bytes v = [of_nat (128 + unat v)]" "unat v < 64" if "\<not> bit v 63" "v < 64" for v
    using S [OF that(1)] that short_byte [OF that(2)] by simp_all
  consider "w < 64" | "v < 64" "64 \<le> w" | "64 \<le> v" "64 \<le> w" using assms(3) by fastforce
  then show ?thesis
  proof cases
    case 1
    then have "v < 64" using assms(3) by (rule order.strict_trans [rotated])
    with 1 show ?thesis using first [OF assms(1)] first [OF assms(2)] vw
      by (simp add: word_less_nat_alt unat_of_nat del: of_nat_add)
  next
    case 2
    obtain n where n: "slen w = n + 2" using long_nonneg(2) [OF assms(2) 2(2)] that [of "slen w - 2"] by simp
    note lp = long_prefix [OF assms(2) 2(2) n]
    let ?S = "two_bytes (n + 2) (unat w div 256 ^ n)"
    have "2 ^ 16 - 2 ^ (16 - (n + 2)) \<le> ?S" "?S < 2 ^ 16 - 2 ^ (15 - (n + 2))"
      using two_bytes_range [of "n + 2" "unat w div 256 ^ n"] lp by simp_all
    moreover have "(2 :: nat) ^ (16 - (n + 2)) \<le> 2 ^ 14" by (rule power_increasing) simp_all
    ultimately have "192 \<le> ?S div 256" "?S div 256 < 256" by simp_all
    then have "(of_nat (128 + unat v) :: u8) < of_nat (?S div 256)"
      using first(2) [OF assms(1) 2(1)] by (simp add: word_less_nat_alt unat_of_nat del: of_nat_add)
    then show ?thesis using S [OF assms(2)] 2 n by (simp add: first(1) [OF assms(1) 2(1)] be_2 not_less [symmetric])
  next
    case 3
    obtain n where n: "slen v = n + 2" using long_nonneg(2) [OF assms(1) 3(1)] that [of "slen v - 2"] by simp
    obtain m where m: "slen w = m + 2" using long_nonneg(2) [OF assms(2) 3(2)] that [of "slen w - 2"] by simp
    note lv = long_prefix [OF assms(1) 3(1) n] and lw = long_prefix [OF assms(2) 3(2) m]
    let ?V = "two_bytes (n + 2) (unat v div 256 ^ n)" and ?W = "two_bytes (m + 2) (unat w div 256 ^ m)"
    have sv: "signed_bytes v = be 2 ?V @ be n (unat v)" and sw: "signed_bytes w = be 2 ?W @ be m (unat w)"
      using S [OF assms(1)] S [OF assms(2)] 3 n m by (simp_all add: not_less [symmetric])
    have V: "2 ^ 16 - 2 ^ (16 - (n + 2)) \<le> ?V" "?V < 2 ^ 16 - 2 ^ (15 - (n + 2))"
      using two_bytes_range [of "n + 2" "unat v div 256 ^ n"] lv by simp_all
    have W: "2 ^ 16 - 2 ^ (16 - (m + 2)) \<le> ?W" "?W < 2 ^ 16 - 2 ^ (15 - (m + 2))"
      using two_bytes_range [of "m + 2" "unat w div 256 ^ m"] lw by simp_all
    have W16: "?W < 256 ^ 2" using W(2) by simp
    have "v \<noteq> 0" using 3(1) by auto
    then have "slen v \<le> slen w" using assms(3) by (intro slen_mono less_imp_le)
    then have "n \<le> m" using n m by simp
    show ?thesis
    proof (cases "n = m")
      case True
      let ?h = "(2 ^ 16 - 2 ^ (16 - (n + 2))) * 256 ^ n :: nat"
      have "(2 :: nat) ^ (13 - m) \<le> 2 ^ (16 - (n + 2))" using True lw(1) by (intro power_increasing) simp_all
      then have "unat w div 256 ^ n < 2 ^ (16 - (n + 2))" using lw(2) unfolding True by (rule order.strict_trans2 [rotated])
      then have "unat w < 2 ^ (16 - (n + 2)) * 256 ^ n" by (simp add: div_less_iff_less_mult)
      moreover have "(2 :: nat) ^ (16 - (n + 2)) \<le> 2 ^ 16" by (rule power_increasing) simp_all
      then have "?h + 2 ^ (16 - (n + 2)) * 256 ^ n = 2 ^ 16 * 256 ^ n"
        by (simp only: add_mult_distrib [symmetric]) (simp only: le_add_diff_inverse2)
      moreover have "(2 :: nat) ^ 16 * 256 ^ n = 256 ^ (2 + n)" by (simp add: power_add)
      ultimately have "?h + unat w < 256 ^ (2 + n)" by linarith
      then have "diverge (be (2 + n) (?h + unat v)) (be (2 + n) (?h + unat w))"
        using vw by (intro be_mono) simp_all
      then show ?thesis
        unfolding sv sw True [symmetric] two_bytes_be [OF refl] by (rule diverge_less)
    next
      case False
      then have "16 - (m + 2) \<le> 15 - (n + 2)" using \<open>n \<le> m\<close> by simp
      then have "(2 :: nat) ^ (16 - (m + 2)) \<le> 2 ^ (15 - (n + 2))" by (rule power_increasing) simp
      then have "?V < ?W" using V(2) W(1) by linarith
      then show ?thesis unfolding sv sw by (intro diverge_less diverge_append be_mono W16)
    qed
  qed
qed

lemma sint_minus: "sint v = uint v - 2 ^ 64 * of_bool (bit v 63)" for v :: u64
  by transfer (simp add: signed_take_bit_eq_take_bit_minus)

lemma signed_mono:
  assumes "sint v < sint w"
  shows "signed_bytes v < signed_bytes w"
proof -
  have top: "bit (signed_bytes v ! 0) 7 \<and> signed_bytes v \<noteq> []" if "\<not> bit v 63" for v
    using nonneg_bytes(2) [OF that] by (simp add: decodes_def)
  have neg: "signed_bytes v = map NOT (signed_bytes (NOT v))" for v
    using signed_bytes_NOT [of "NOT v"] by simp
  show ?thesis
  proof (cases "bit v 63 = bit w 63")
    case True
    have lt: "v < w"
      using assms True by (simp add: sint_minus word_less_def)
    show ?thesis
    proof (cases "bit w 63")
      case False
      then show ?thesis using nonneg_mono lt True by simp
    next
      case neg63: True
      then have "\<not> bit (NOT v) 63" "\<not> bit (NOT w) 63" using True by (simp_all add: bit_simps)
      moreover have "NOT w < NOT v" using lt by transfer (simp add: take_bit_not_eq_mask_diff)
      ultimately have "signed_bytes (NOT w) < signed_bytes (NOT v)" by (intro nonneg_mono)
      moreover have "signed_bytes (NOT v) \<noteq> signed_bytes (NOT w) @ t" for t
        using signed_read [of "NOT w" t] signed_read [of "NOT v" "[]"] \<open>NOT w < NOT v\<close> by auto
      ultimately have "diverge (signed_bytes (NOT w)) (signed_bytes (NOT v))" using less_diverge by metis
      then have "diverge (map NOT (signed_bytes (NOT v))) (map NOT (signed_bytes (NOT w)))" by (rule diverge_NOT)
      then show ?thesis using diverge_less neg by metis
    qed
  next
    case False
    then have "bit v 63" "\<not> bit w 63" using assms sint_neg_iff [of v] sint_neg_iff [of w] by auto
    then have v: "bit (signed_bytes (NOT v) ! 0) 7" "signed_bytes (NOT v) \<noteq> []"
      and w: "bit (signed_bytes w ! 0) 7" "signed_bytes w \<noteq> []"
      using top [of "NOT v"] top [of w] by (simp_all add: bit_simps)
    have "signed_bytes v ! 0 = NOT (signed_bytes (NOT v) ! 0)" "signed_bytes v \<noteq> []"
      using neg [of v] v(2) by (metis nth_map length_greater_0_conv) (use neg [of v] v(2) in auto)
    then have "\<not> bit (signed_bytes v ! 0) 7" using v(1) by (simp add: bit_simps)
    then have "signed_bytes v ! 0 < signed_bytes w ! 0" using w(1) by (simp add: u8_bit_7 word_less_nat_alt)
    then show ?thesis using w(2) \<open>signed_bytes v \<noteq> []\<close>
      by (cases "signed_bytes v"; cases "signed_bytes w") simp_all
  qed
qed

interpretation snum: ordered_encoding signed_bytes ReadSignedNumIncreasing "\<lambda>v w. sint v < sint w"
proof
  show "ReadSignedNumIncreasing (signed_bytes v @ rest) = Some (rest, v)" for v rest by (rule signed_read)
  show "signed_bytes v < signed_bytes w" if "sint v < sint w" for v w by (rule signed_mono [OF that])
  show "sint v < sint w \<or> sint w < sint v" if "v \<noteq> w" for v w :: u64
    using that by (metis linorder_less_linear signed_word_eqI)
qed

subsection \<open>Properties\<close>

text \<open>C16: A signed number is written without touching memory outside its ten-byte buffer or its tables,
  and is read back exactly, with the bytes after it left alone, for all \<open>2 ^ 64\<close> values.\<close>

theorem signed_roundtrip:
  "\<exists>bs. (\<forall>dest. WriteSignedNumIncreasing dest v = Some (dest @ bs)) \<and>
     (\<forall>rest. ReadSignedNumIncreasing (bs @ rest) = Some (rest, v))"
  using Write_signed_bytes signed_read by blast

text \<open>C17: The lexicographic order of the encodings is the order of the signed values, across signs and
  lengths, and a tie is decided by the bytes that follow.\<close>

theorem signed_order:
  "\<exists>bs cs. WriteSignedNumIncreasing [] v = Some bs \<and> WriteSignedNumIncreasing [] w = Some cs \<and>
     (bs @ r < cs @ r' \<longleftrightarrow> sint v < sint w \<or> v = w \<and> r < r')"
  by (simp add: Write_signed_bytes snum.enc_less_iff)

end
