(* ===== verification/SavedSlice.thy ===== *)
theory SavedSlice
  imports TensorSlice SignedCode
begin

text \<open>
  Keys of the table of a checkpoint (\<open>core/util/saved_tensor_slice_util.cc\<close>): a tensor name and a slice, written with
  the order-preserving encodings. Names are byte strings. The outer option of the encoder is an access outside a
  buffer of the number encoders; the decoder returns an error or its two outputs.
\<close>

fun encode_extents :: "tensor_slice \<Rightarrow> nat list \<Rightarrow> u8 list \<Rightarrow> u8 list option" where
  "encode_extents slc [] buffer = Some buffer"
| "encode_extents slc (d # ds) buffer =
    (case WriteSignedNumIncreasing buffer (word_of_int (slice_start slc d)) of None \<Rightarrow> None
     | Some buffer \<Rightarrow>
        (case WriteSignedNumIncreasing buffer (word_of_int (slice_length slc d)) of None \<Rightarrow> None
         | Some buffer \<Rightarrow> encode_extents slc ds buffer))"

definition EncodeTensorNameSlice :: "u8 list \<Rightarrow> tensor_slice \<Rightarrow> u8 list option" where
  "EncodeTensorNameSlice name slc =
    (case WriteNumIncreasing [] 0 of None \<Rightarrow> None
     | Some buffer \<Rightarrow>
        (case WriteNumIncreasing (WriteString buffer name) (of_nat (sdims slc)) of None \<Rightarrow> None
         | Some buffer \<Rightarrow> encode_extents slc [0..<sdims slc] buffer))"

datatype key_error = NoLeadingNumber | LeadingNumber u64 | NoName | NoRank | ZeroRank | TooManyElements u64 | NoStart | NoLength

fun decode_extents :: "nat list \<Rightarrow> u8 list \<Rightarrow> tensor_slice \<Rightarrow> key_error + tensor_slice" where
  "decode_extents [] src slc = Inr slc"
| "decode_extents (d # ds) src slc =
    (case ReadSignedNumIncreasing src of None \<Rightarrow> Inl NoStart
     | Some (src, start) \<Rightarrow>
        (case ReadSignedNumIncreasing src of None \<Rightarrow> Inl NoLength
         | Some (src, len) \<Rightarrow>
            decode_extents ds src
              (if sint len \<ge> 0 then set_length d (wrap32 (sint len)) (set_start d (wrap32 (sint start)) slc) else slc)))"

text \<open>\<open>name\<close> is what the output string holds before the call: \<open>ReadString\<close> appends to it.\<close>

definition DecodeTensorNameSlice :: "u8 list \<Rightarrow> u8 list \<Rightarrow> tensor_slice \<Rightarrow> key_error + u8 list \<times> tensor_slice" where
  "DecodeTensorNameSlice key name slc =
    (case ReadNumIncreasing key of None \<Rightarrow> Inl NoLeadingNumber
     | Some (src, x) \<Rightarrow> if x \<noteq> 0 then Inl (LeadingNumber x) else
        (case ReadString src (Some name) of None \<Rightarrow> Inl NoName
         | Some (src, name) \<Rightarrow>
            (case ReadNumIncreasing src of None \<Rightarrow> Inl NoRank
             | Some (src, x) \<Rightarrow>
                if x = 0 then Inl ZeroRank
                else if uint x \<ge> kint32max then Inl (TooManyElements x)
                else map_sum id (Pair (the name)) (decode_extents [0..<unat x] src (SetFullSlice (unat x) slc)))))"

subsection \<open>Encoding\<close>

definition extent_bytes :: "tensor_slice \<Rightarrow> nat \<Rightarrow> u8 list" where
  "extent_bytes slc d = signed_bytes (word_of_int (slice_start slc d)) @ signed_bytes (word_of_int (slice_length slc d))"

lemma encode_extents_eq: "encode_extents slc ds buffer = Some (buffer @ concat (map (extent_bytes slc) ds))"
  by (induction ds arbitrary: buffer) (simp_all add: Write_signed_bytes extent_bytes_def)

definition key_of :: "u8 list \<Rightarrow> tensor_slice \<Rightarrow> u8 list" where
  "key_of name slc = num_bytes 0 @ WriteString [] name @ num_bytes (of_nat (sdims slc)) @
    concat (map (extent_bytes slc) [0..<sdims slc])"

lemma WriteString_append: "WriteString dest s = dest @ WriteString [] s"
  by (simp add: WriteString_eq)

lemma Encode_key_of: "EncodeTensorNameSlice name slc = Some (key_of name slc)"
  by (simp add: EncodeTensorNameSlice_def WriteNumIncreasing_num_bytes encode_extents_eq key_of_def
      WriteString_append [of "num_bytes 0"])


subsection \<open>Decoding what was encoded\<close>

lemma signed_extent:
  assumes "int32_range x"
  shows "sint (word_of_int x :: u64) = x" "wrap32 (sint (word_of_int x :: u64)) = x"
  using assms by (simp_all add: signed_of_int signed_take_bit_int_eq_self int32_range_def wrap32_id)

lemma int_slice_extent:
  assumes "int_slice s" "d < sdims s"
  shows "int32_range (slice_start s d)" "int32_range (slice_length s d)"
  using assms by (simp_all add: int_slice_def slice_start_def slice_length_def)

lemma set_extent_id: "starts r ! d = u \<Longrightarrow> lengths r ! d = v \<Longrightarrow> set_length d v (set_start d u r) = r"
  by (auto simp: set_length_def set_start_def)

lemma decode_extents_put:
  assumes "int_slice s"
  shows "distinct ds \<Longrightarrow> \<forall>d\<in>set ds. d < sdims s \<and> starts r ! d = 0 \<and> lengths r ! d = kFullExtent \<Longrightarrow>
    decode_extents ds (concat (map (extent_bytes s) ds) @ rest) r = Inr (put_loop (normal_extent s) ds r)"
proof (induction ds arbitrary: r)
  case (Cons d ds)
  have d: "d < sdims s" "starts r ! d = 0" "lengths r ! d = kFullExtent" using Cons.prems by simp_all
  note e = int_slice_extent [OF assms d(1)]
  let ?r = "set_length d (snd (normal_extent s d)) (set_start d (fst (normal_extent s d)) r)"
  have step: "(if sint (word_of_int (slice_length s d) :: u64) \<ge> 0 then set_length d (wrap32 (sint (word_of_int (slice_length s d) :: u64)))
      (set_start d (wrap32 (sint (word_of_int (slice_start s d) :: u64))) r) else r) = ?r"
    using signed_extent [OF e(1)] signed_extent [OF e(2)] set_extent_id [OF d(2,3)]
    by (auto simp: normal_extent_def IsFullAt_def slice_length_def slice_start_def not_le)
  have "decode_extents (d # ds) (concat (map (extent_bytes s) (d # ds)) @ rest) r =
      decode_extents ds (concat (map (extent_bytes s) ds) @ rest) ?r"
    using step by (simp add: extent_bytes_def snum.dec_enc)
  also have "\<dots> = Inr (put_loop (normal_extent s) ds ?r)"
  proof (rule Cons.IH)
    show "\<forall>d'\<in>set ds. d' < sdims s \<and> starts ?r ! d' = 0 \<and> lengths ?r ! d' = kFullExtent"
    proof
      fix d' assume "d' \<in> set ds"
      moreover from this have "d \<noteq> d'" using Cons.prems by auto
      ultimately show "d' < sdims s \<and> starts ?r ! d' = 0 \<and> lengths ?r ! d' = kFullExtent"
        using Cons.prems by (simp add: set_length_def set_start_def)
    qed
  qed (use Cons.prems in simp)
  finally show ?case by simp
qed simp

lemma Decode_normal_form:
  assumes s: "int_slice s" "0 < sdims s" "sdims s < 2 ^ 31 - 1"
  shows "DecodeTensorNameSlice (key_of name s) name0 slc0 = Inr (name0 @ name, normal_form s)"
proof -
  have u: "unat (of_nat (sdims s) :: u64) = sdims s" using s(3) by (simp add: unsigned_of_nat take_bit_nat_eq_self)
  then have n0: "(of_nat (sdims s) :: u64) \<noteq> 0" using s(2) by (metis unat_0 less_irrefl)
  have lt: "\<not> kint32max \<le> uint (of_nat (sdims s) :: u64)" using s(3) u by (simp add: kint32max_def uint_nat)
  have "decode_extents [0..<sdims s] (concat (map (extent_bytes s) [0..<sdims s]) @ []) (SetFullSlice (sdims s) slc0) =
      Inr (put_loop (normal_extent s) [0..<sdims s] (SetFullSlice (sdims s) slc0))"
    by (rule decode_extents_put [OF s(1)]) (simp_all add: SetFullSlice_eq)
  also have "put_loop (normal_extent s) [0..<sdims s] (SetFullSlice (sdims s) slc0) = normal_form s"
    by (simp add: SetFullSlice_eq put_loop_all normal_form_def)
  finally show ?thesis
    using n0 lt u by (simp add: DecodeTensorNameSlice_def key_of_def num.dec_enc ReadString_WriteString)
qed

lemma Decode_key_of:
  "normal_slice s \<Longrightarrow> 0 < sdims s \<Longrightarrow> sdims s < 2 ^ 31 - 1 \<Longrightarrow> DecodeTensorNameSlice (key_of name s) name0 slc0 = Inr (name0 @ name, s)"
  using Decode_normal_form [OF normal_int_slice] normal_form_id by metis

lemma Decode_rank0:
  assumes "sdims s = 0"
  shows "DecodeTensorNameSlice (key_of name s) name0 slc0 = Inl ZeroRank"
  using assms num.dec_enc [of 0 "[]"]
  by (simp add: DecodeTensorNameSlice_def key_of_def num.dec_enc ReadString_WriteString)

subsection \<open>The order of keys\<close>

definition extent_list :: "tensor_slice \<Rightarrow> u64 list" where
  "extent_list s = concat (map (\<lambda>d. [word_of_int (slice_start s d), word_of_int (slice_length s d)]) [0..<sdims s])"

lemma extent_list_bytes: "concat (map (extent_bytes s) [0..<sdims s]) = concat (map signed_bytes (extent_list s))"
proof -
  have "concat (map (extent_bytes s) ds) =
      concat (map signed_bytes (concat (map (\<lambda>d. [word_of_int (slice_start s d), word_of_int (slice_length s d)]) ds)))" for ds
    by (induction ds) (simp_all add: extent_bytes_def)
  then show ?thesis by (simp add: extent_list_def)
qed

lemma length_extent_list: "length (extent_list s) = 2 * sdims s"
proof -
  have "length (concat (map (\<lambda>d. [f d, g d]) ds)) = 2 * length ds" for f g :: "nat \<Rightarrow> u64" and ds
    by (induction ds) auto
  then show ?thesis by (simp add: extent_list_def)
qed

lemma key_order:
  assumes "sdims s < 2 ^ 31" "sdims t < 2 ^ 31"
  shows "key_of m s < key_of n t \<longleftrightarrow>
    m < n \<or> m = n \<and> (sdims s < sdims t \<or> sdims s = sdims t \<and> (extent_list s, extent_list t) \<in> lexord {(v, w). sint v < sint w})"
proof -
  have u: "unat (of_nat (sdims s) :: u64) = sdims s" "unat (of_nat (sdims t) :: u64) = sdims t"
    using assms by (simp_all add: unsigned_of_nat take_bit_nat_eq_self)
  have rank: "(of_nat (sdims s) :: u64) < of_nat (sdims t) \<longleftrightarrow> sdims s < sdims t"
    "(of_nat (sdims s) :: u64) = of_nat (sdims t) \<longleftrightarrow> sdims s = sdims t"
    using u by (simp_all add: word_less_nat_alt) metis
  have ext: "concat (map signed_bytes (extent_list s)) < concat (map signed_bytes (extent_list t)) \<longleftrightarrow>
      (extent_list s, extent_list t) \<in> lexord {(v, w). sint v < sint w}" if "sdims s = sdims t"
    using snum.enc_list_less [of "extent_list s" "extent_list t" "[]" "[]"] that by (simp add: length_extent_list)
  show ?thesis
    unfolding key_of_def extent_list_bytes append_less_same str.enc_less_iff num.enc_less_iff rank using ext by blast
qed

subsection \<open>Properties\<close>

text \<open>C28: A key decodes to the name and the slice it was made from, for every slice of rank one to \<open>2 ^ 31 - 2\<close> of two vectors of the same length:
  extents that are not full come back as they are, negative starts included, and every full dimension comes back as the extent
  \<open>0, -1\<close>, whatever start and negative length it was encoded with. The decoded name is appended to what the output string
  held, and the key of a scalar, which the encoder writes without complaint, is refused by the decoder.\<close>

theorem saved_key_roundtrip:
  assumes "int_slice s" "sdims s < 2 ^ 31 - 1"
  shows "\<exists>key. EncodeTensorNameSlice name s = Some key \<and>
    DecodeTensorNameSlice key name0 slc0 = (if sdims s = 0 then Inl ZeroRank else Inr (name0 @ name, normal_form s))"
  using Decode_normal_form [OF assms(1) _ assms(2)] Decode_rank0 by (auto simp: Encode_key_of)

theorem saved_key_roundtrip_witness:
  "\<exists>key. EncodeTensorNameSlice [97] \<lparr>starts = [3, 1], lengths = [2, - 1]\<rparr> = Some key \<and>
    DecodeTensorNameSlice key [] EmptySlice = Inr ([97], \<lparr>starts = [3, 0], lengths = [2, - 1]\<rparr>)"
proof -
  let ?s = "\<lparr>starts = [3, 1], lengths = [2, - 1]\<rparr>"
  have "int_slice ?s" by (simp add: int_slice_def sdims_def int32_range_def less_Suc_eq)
  moreover have "normal_form ?s = \<lparr>starts = [3, 0], lengths = [2, - 1]\<rparr>" by code_simp
  ultimately show ?thesis using saved_key_roundtrip [of ?s "[97]" "[]" EmptySlice] by (simp add: sdims_def)
qed

text \<open>C29: Keys sort by tensor name first, so that the slices of a tensor are adjacent in the table, then by rank and
  by the extents in order, as signed numbers.\<close>

theorem saved_key_order:
  assumes "sdims s < 2 ^ 31" "sdims t < 2 ^ 31" "EncodeTensorNameSlice m s = Some k" "EncodeTensorNameSlice n t = Some l"
  shows "k < l \<longleftrightarrow> m < n \<or> m = n \<and>
    (sdims s < sdims t \<or> sdims s = sdims t \<and> (extent_list s, extent_list t) \<in> lexord {(v, w). sint v < sint w})"
  using key_order [OF assms(1,2), of m n] assms(3,4) by (simp add: Encode_key_of)

theorem saved_key_order_witness:
  "\<exists>k l. EncodeTensorNameSlice [97] EmptySlice = Some k \<and> EncodeTensorNameSlice [98] EmptySlice = Some l \<and> k < l"
proof -
  have "sdims EmptySlice < 2 ^ 31" by (simp add: sdims_def EmptySlice_def)
  moreover have "[97] < [98 :: u8]" by simp
  ultimately show ?thesis
    using saved_key_order [of EmptySlice EmptySlice "[97]" "key_of [97] EmptySlice" "[98]" "key_of [98] EmptySlice"]
    by (simp add: Encode_key_of)
qed

end
