(* ===== verification/SliceSet.thy ===== *)
theory SliceSet
  imports TensorSlice
begin

text \<open>
  The set of slices of one tensor that a checkpoint stores (\<open>core/util/tensor_slice_set.cc\<close>): registration refuses a
  slice that overlaps a stored one, using a hull of all of them to skip the comparison, and queries answer
  whether the stored slices together hold a slice that is asked for. The hash map is an association list in its
  iteration order. Copying tensor data rests on Eigen: the two copies are parameters, and the data is of any type.
\<close>

subsection \<open>The set and its operations\<close>

record 'd slice_info =
  info_slice :: tensor_slice
  info_tag :: string
  info_data :: 'd
  num_floats :: int

record 'd slice_set =
  set_shape :: tensor_shape
  set_type :: nat
  slices :: "(string \<times> 'd slice_info) list"
  slices_hull :: tensor_slice

definition MkTensorSliceSet :: "tensor_shape \<Rightarrow> nat \<Rightarrow> 'd slice_set" where
  "MkTensorSliceSet shape type = \<lparr>set_shape = shape, set_type = type, slices = [], slices_hull = EmptySlice\<rparr>"

datatype set_error = SliceError slice_error | Overlapping string string

fun find_overlap :: "tensor_slice \<Rightarrow> (string \<times> 'd slice_info) list \<Rightarrow> string option" where
  "find_overlap s [] = None"
| "find_overlap s (x # xs) = (if Overlaps s (info_slice (snd x)) then Some (fst x) else find_overlap s xs)"

text \<open>\<open>insert\<close> of a map keeps an entry that is there.\<close>

definition map_insert :: "string \<times> 'd slice_info \<Rightarrow> (string \<times> 'd slice_info) list \<Rightarrow> (string \<times> 'd slice_info) list" where
  "map_insert p m = (if map_of m (fst p) = None then m @ [p] else m)"

text \<open>The outer option is an abort of the process in \<open>AddDim\<close>.\<close>

definition Register :: "tensor_slice \<Rightarrow> string \<Rightarrow> 'd \<Rightarrow> 'd slice_set \<Rightarrow> (set_error option \<times> 'd slice_set) option" where
  "Register slc tag data ss =
    (case SliceTensorShape slc (set_shape ss) EmptyShape of
       None \<Rightarrow> None
     | Some (Some e, _) \<Rightarrow> Some (Some (SliceError e), ss)
     | Some (None, result_shape) \<Rightarrow>
        let str = SliceDebugString slc;
            info = \<lparr>info_slice = slc, info_tag = tag, info_data = data, num_floats = num_elements result_shape\<rparr>
        in if slices ss = [] then
             Some (None, ss\<lparr>slices_hull := slc, slices := map_insert (str, info) (slices ss)\<rparr>)
           else
             (case (if Overlaps (slices_hull ss) slc then find_overlap slc (slices ss) else None) of
                Some x \<Rightarrow> Some (Some (Overlapping x str), ss)
              | None \<Rightarrow>
                  Some (None, ss\<lparr>slices_hull := UpdateToCover slc (slices_hull ss), slices := map_insert (str, info) (slices ss)\<rparr>)))"

text \<open>The loop that adds up the intersections: \<open>None\<close> is an abort, \<open>Some None\<close> the early return on an error.\<close>

fun overlap_loop :: "tensor_shape \<Rightarrow> tensor_slice \<Rightarrow> (string \<times> 'd slice_info) list \<Rightarrow>
    tensor_slice \<Rightarrow> tensor_shape \<Rightarrow> int \<Rightarrow> int option option" where
  "overlap_loop shape slc [] isec inter_shape overlap = Some (Some overlap)"
| "overlap_loop shape slc (x # xs) isec inter_shape overlap =
    (case Intersect slc (info_slice (snd x)) isec of
       (False, isec) \<Rightarrow> overlap_loop shape slc xs isec inter_shape overlap
     | (True, isec) \<Rightarrow>
        (case SliceTensorShape isec shape inter_shape of
           None \<Rightarrow> None
         | Some (Some e, _) \<Rightarrow> Some None
         | Some (None, inter_shape) \<Rightarrow>
             overlap_loop shape slc xs isec inter_shape (wrap64 (overlap + num_elements inter_shape))))"

definition Query :: "('d \<Rightarrow> int \<Rightarrow> 'd \<Rightarrow> 'd) \<Rightarrow> (tensor_shape \<Rightarrow> tensor_slice \<Rightarrow> tensor_slice \<Rightarrow> 'd \<Rightarrow> 'd \<Rightarrow> 'd) \<Rightarrow>
    tensor_slice \<Rightarrow> 'd option \<Rightarrow> 'd slice_set \<Rightarrow> (bool \<times> 'd option) option" where
  "Query copy_n copy_slice slc data ss =
    (case map_of (slices ss) (SliceDebugString slc) of
       Some info \<Rightarrow> Some (True, map_option (copy_n (info_data info) (num_floats info)) data)
     | None \<Rightarrow>
        (case SliceTensorShape slc (set_shape ss) EmptyShape of
           None \<Rightarrow> None
         | Some (Some e, _) \<Rightarrow> Some (False, data)
         | Some (None, target_shape) \<Rightarrow>
            (case overlap_loop (set_shape ss) slc (slices ss) EmptySlice EmptyShape 0 of
               None \<Rightarrow> None
             | Some None \<Rightarrow> Some (False, data)
             | Some (Some overlap) \<Rightarrow>
                if num_elements target_shape = overlap then
                  Some (True, map_option (\<lambda>d. fold (\<lambda>x d. copy_slice (set_shape ss) (info_slice (snd x)) slc (info_data (snd x)) d)
                    (slices ss) d) data)
                else Some (False, data))))"

fun meta_loop :: "tensor_shape \<Rightarrow> tensor_slice \<Rightarrow> (string \<times> 'd slice_info) list \<Rightarrow>
    tensor_slice \<Rightarrow> tensor_shape \<Rightarrow> int \<Rightarrow> (tensor_slice \<times> string) list \<Rightarrow> (int option \<times> (tensor_slice \<times> string) list) option" where
  "meta_loop shape slc [] isec inter_shape overlap results = Some (Some overlap, results)"
| "meta_loop shape slc (x # xs) isec inter_shape overlap results =
    (case Intersect slc (info_slice (snd x)) isec of
       (False, isec) \<Rightarrow> meta_loop shape slc xs isec inter_shape overlap results
     | (True, isec) \<Rightarrow>
        (case SliceTensorShape isec shape inter_shape of
           None \<Rightarrow> None
         | Some (Some e, _) \<Rightarrow> Some (None, results)
         | Some (None, inter_shape) \<Rightarrow>
             meta_loop shape slc xs isec inter_shape (wrap64 (overlap + num_elements inter_shape))
               (results @ [(info_slice (snd x), info_tag (snd x))])))"

definition QueryMeta :: "tensor_slice \<Rightarrow> 'd slice_set \<Rightarrow> (bool \<times> (tensor_slice \<times> string) list) option" where
  "QueryMeta slc ss =
    (case map_of (slices ss) (SliceDebugString slc) of
       Some info \<Rightarrow> Some (True, [(info_slice info, info_tag info)])
     | None \<Rightarrow>
        (case SliceTensorShape slc (set_shape ss) EmptyShape of
           None \<Rightarrow> None
         | Some (Some e, _) \<Rightarrow> Some (False, [])
         | Some (None, target_shape) \<Rightarrow>
            (case meta_loop (set_shape ss) slc (slices ss) EmptySlice EmptyShape 0 [] of
               None \<Rightarrow> None
             | Some (None, results) \<Rightarrow> Some (False, results)
             | Some (Some overlap, results) \<Rightarrow>
                if num_elements target_shape = overlap then Some (True, results) else Some (False, []))))"

subsection \<open>The invariant\<close>

abbreviation sizes :: "'d slice_set \<Rightarrow> int list" where "sizes ss \<equiv> dim_sizes (set_shape ss)"

definition union_cells :: "int list \<Rightarrow> (string \<times> 'd slice_info) list \<Rightarrow> int list set" where
  "union_cells z xs = (\<Union>x\<in>set xs. cells z (info_slice (snd x)))"

fun disjoint_slices :: "int list \<Rightarrow> (string \<times> 'd slice_info) list \<Rightarrow> bool" where
  "disjoint_slices z [] \<longleftrightarrow> True"
| "disjoint_slices z (x # xs) \<longleftrightarrow> cells z (info_slice (snd x)) \<inter> union_cells z xs = {} \<and> disjoint_slices z xs"

definition good_slice :: "int list \<Rightarrow> tensor_slice \<Rightarrow> bool" where
  "good_slice z s \<longleftrightarrow> wf_slice s \<and> fits z s"

definition set_inv :: "'d slice_set \<Rightarrow> bool" where
  "set_inv ss \<longleftrightarrow>
    wf_shape (set_shape ss) \<and> bounded_sizes (sizes ss) \<and>
    (\<forall>x\<in>set (slices ss). fst x = SliceDebugString (info_slice (snd x)) \<and> good_slice (sizes ss) (info_slice (snd x))) \<and>
    disjoint_slices (sizes ss) (slices ss) \<and>
    (slices ss \<noteq> [] \<longrightarrow> wf_slice (slices_hull ss) \<and> sdims (slices_hull ss) = length (sizes ss) \<and>
      union_cells (sizes ss) (slices ss) \<subseteq> cells (sizes ss) (slices_hull ss))"

abbreviation covered :: "'d slice_set \<Rightarrow> int list set" where
  "covered ss \<equiv> union_cells (sizes ss) (slices ss)"

lemma union_cells_simps [simp]:
  "union_cells z [] = {}" "union_cells z (x # xs) = cells z (info_slice (snd x)) \<union> union_cells z xs"
  "union_cells z (xs @ ys) = union_cells z xs \<union> union_cells z ys"
  by (auto simp: union_cells_def)

lemma disjoint_append:
  "disjoint_slices z (xs @ [x]) \<longleftrightarrow> disjoint_slices z xs \<and> cells z (info_slice (snd x)) \<inter> union_cells z xs = {}"
  by (induction xs) auto

lemma good_sdims: "good_slice z s \<Longrightarrow> sdims s = length z"
  by (simp add: good_slice_def fits_def)

lemma find_overlap_None:
  assumes "good_slice z s" "\<forall>x\<in>set xs. good_slice z (info_slice (snd x))" "find_overlap s xs = None"
  shows "cells z s \<inter> union_cells z xs = {}"
  using assms(2,3)
proof (induction xs)
  case (Cons x xs)
  have "fst (Intersect s (info_slice (snd x)) EmptySlice) = False"
    using Cons.prems by (simp add: Overlaps_def split: if_splits)
  then obtain i where "Intersect s (info_slice (snd x)) EmptySlice = (False, i)" by (metis prod.collapse)
  then have "cells z s \<inter> cells z (info_slice (snd x)) = {}"
    using Intersect_cells [of s "info_slice (snd x)" z] assms(1) Cons.prems good_sdims by (auto simp: good_slice_def)
  then show ?case using Cons by (auto split: if_splits)
qed simp

lemma find_overlap_Some: "find_overlap s xs = Some k \<Longrightarrow> \<exists>x\<in>set xs. fst x = k \<and> Overlaps s (info_slice (snd x))"
  by (induction xs) (auto split: if_splits)

lemma no_hull_overlap:
  assumes "wf_slice h" "wf_slice s" "sdims h = length z" "sdims s = length z" "\<not> Overlaps h s"
  shows "cells z h \<inter> cells z s = {}"
proof -
  obtain i where "Intersect h s EmptySlice = (False, i)" using assms(5) by (metis Overlaps_def prod.collapse)
  then show ?thesis using Intersect_cells [OF assms(1-4)] by auto
qed

lemma map_of_key: "map_of m k = Some v \<Longrightarrow> (k, v) \<in> set m"
  by (rule map_of_SomeD)

text \<open>Inserting keeps the set of cells right even when the key is there: equal texts are equal sets of cells.\<close>

lemma map_insert_inv:
  assumes "\<forall>x\<in>set m. fst x = SliceDebugString (info_slice (snd x)) \<and> good_slice z (info_slice (snd x))"
    and "disjoint_slices z m" and "good_slice z (info_slice i)" and "cells z (info_slice i) \<inter> union_cells z m = {}"
  defines "m' \<equiv> map_insert (SliceDebugString (info_slice i), i) m"
  shows "(\<forall>x\<in>set m'. fst x = SliceDebugString (info_slice (snd x)) \<and> good_slice z (info_slice (snd x))) \<and>
    disjoint_slices z m' \<and> union_cells z m' = union_cells z m \<union> cells z (info_slice i)"
proof (cases "map_of m (SliceDebugString (info_slice i))")
  case None
  then show ?thesis using assms by (auto simp: map_insert_def disjoint_append)
next
  case (Some j)
  then have j: "(SliceDebugString (info_slice i), j) \<in> set m" by (rule map_of_key)
  then have "SliceDebugString (info_slice i) = SliceDebugString (info_slice j)" "good_slice z (info_slice j)"
    using assms(1) by fastforce+
  then have "cells z (info_slice i) = cells z (info_slice j)"
    using assms(3) good_sdims by (intro SliceDebugString_cells) (auto simp: good_slice_def)
  moreover have "cells z (info_slice j) \<subseteq> union_cells z m" using j by (force simp: union_cells_def)
  ultimately show ?thesis using Some assms by (auto simp: map_insert_def)
qed


subsection \<open>Registration\<close>

lemma Register_cases:
  assumes "set_inv ss" "wf_slice slc"
  shows "\<exists>e ss'. Register slc tag data ss = Some (e, ss') \<and> set_inv ss' \<and> sizes ss' = sizes ss \<and>
    (case e of
      None \<Rightarrow> fits (sizes ss) slc \<and> cells (sizes ss) slc \<inter> covered ss = {} \<and> covered ss' = covered ss \<union> cells (sizes ss) slc
    | Some e \<Rightarrow> ss' = ss \<and> (\<not> fits (sizes ss) slc \<or> (\<exists>x\<in>set (slices ss). Overlaps slc (info_slice (snd x)))))"
proof (cases "fits (sizes ss) slc")
  case False
  then obtain e r where "SliceTensorShape slc (set_shape ss) EmptyShape = Some (Some e, r)"
    using SliceTensorShape_misfit [OF assms(2) False, of EmptyShape] assms(1) by (auto simp: set_inv_def)
  then show ?thesis using False assms(1) by (simp add: Register_def)
next
  case True
  obtain r where r: "SliceTensorShape slc (set_shape ss) EmptyShape = Some (None, r)"
    using SliceTensorShape_fits [OF assms(2) True, of EmptyShape] assms(1) by (auto simp: set_inv_def)
  let ?i = "\<lparr>info_slice = slc, info_tag = tag, info_data = data, num_floats = num_elements r\<rparr>"
  let ?z = "sizes ss"
  have inv: "\<forall>x\<in>set (slices ss). fst x = SliceDebugString (info_slice (snd x)) \<and> good_slice ?z (info_slice (snd x))"
    "disjoint_slices ?z (slices ss)" "wf_shape (set_shape ss)" "bounded_sizes ?z"
    using assms(1) by (simp_all add: set_inv_def)
  have good: "good_slice ?z slc" using True assms(2) by (simp add: good_slice_def)
  have step: "\<exists>e ss'. Some (None, ss\<lparr>slices_hull := h, slices := map_insert (SliceDebugString slc, ?i) (slices ss)\<rparr>) = Some (e, ss') \<and>
      set_inv ss' \<and> sizes ss' = ?z \<and>
      (case e of
        None \<Rightarrow> fits ?z slc \<and> cells ?z slc \<inter> covered ss = {} \<and> covered ss' = covered ss \<union> cells ?z slc
      | Some e \<Rightarrow> ss' = ss \<and> (\<not> fits ?z slc \<or> (\<exists>x\<in>set (slices ss). Overlaps slc (info_slice (snd x)))))"
    if h: "wf_slice h" "sdims h = length ?z" "covered ss \<union> cells ?z slc \<subseteq> cells ?z h" and d: "cells ?z slc \<inter> covered ss = {}" for h
    using map_insert_inv [OF inv(1,2), of ?i] good d h inv(3,4) True by (simp add: set_inv_def)
  show ?thesis
  proof (cases "slices ss")
    case Nil
    then show ?thesis using step [of slc] good r good_sdims [OF good] by (simp add: Register_def good_slice_def Let_def)
  next
    case (Cons a list)
    then have hull: "wf_slice (slices_hull ss)" "sdims (slices_hull ss) = length ?z" "covered ss \<subseteq> cells ?z (slices_hull ss)"
      using assms(1) by (auto simp: set_inv_def)
    have up: "wf_slice (UpdateToCover slc (slices_hull ss))" "sdims (UpdateToCover slc (slices_hull ss)) = length ?z"
      "covered ss \<union> cells ?z slc \<subseteq> cells ?z (UpdateToCover slc (slices_hull ss))"
      using UpdateToCover_cells [OF hull(1) assms(2) hull(2) good_sdims [OF good]] hull(3) by auto
    show ?thesis
    proof (cases "if Overlaps (slices_hull ss) slc then find_overlap slc (slices ss) else None")
      case None
      have "cells ?z slc \<inter> covered ss = {}"
      proof (cases "Overlaps (slices_hull ss) slc")
        case True
        then show ?thesis using None find_overlap_None [OF good, of "slices ss"] inv(1) by auto
      next
        case False
        then show ?thesis
          using no_hull_overlap [OF hull(1) assms(2) hull(2) good_sdims [OF good]] hull(3) by blast
      qed
      then show ?thesis using step [OF up] None Cons r by (simp add: Register_def Let_def)
    next
      case (Some k)
      then have "\<exists>x\<in>set (slices ss). Overlaps slc (info_slice (snd x))"
        using find_overlap_Some [of slc "slices ss" k] by (auto split: if_splits)
      then show ?thesis using Some Cons r assms(1) by (simp add: Register_def Let_def)
    qed
  qed
qed

subsection \<open>Queries\<close>

lemma fits_isec:
  assumes "good_slice z a" "good_slice z b" "Intersect a b r = (True, i)"
  shows "good_slice z i \<and> cells z i = cells z a \<inter> cells z b"
proof -
  have ab: "wf_slice a" "wf_slice b" "sdims a = length z" "sdims b = length z" using assms good_sdims by (auto simp: good_slice_def)
  have i: "i = slice_of (length z) (inter1 a b)" and m: "\<forall>d<length z. meets a b d"
    using assms(3) ab by (auto simp: Intersect_eq split: if_splits)
  have "snd (inter1 a b d) < 0 \<or> fst (inter1 a b d) + snd (inter1 a b d) \<le> z ! d" if d: "d < length z" for d
  proof -
    have fa: "lengths a ! d < 0 \<or> starts a ! d + lengths a ! d \<le> z ! d" and fb: "lengths b ! d < 0 \<or> starts b ! d + lengths b ! d \<le> z ! d"
      using assms(1,2) d by (simp_all add: good_slice_def fits_def)
    consider "IsFullAt a d" | "IsFullAt b d" "\<not> IsFullAt a d" | "\<not> IsFullAt a d" "\<not> IsFullAt b d" by blast
    then show ?thesis
    proof cases
      case 3
      then have "fst (inter1 a b d) = max (slice_start a d) (slice_start b d)" by (simp add: inter1_def Let_def)
      then show ?thesis
        using inter1_wf [OF ab(1,2) _ _ 3] wf_slice_ends(3) [OF ab(1) _ 3(1)] wf_slice_ends(3) [OF ab(2) _ 3(2)] ab(3,4) d fa fb 3
        by (auto simp: IsFullAt_def slice_start_def slice_length_def min_def)
    qed (use fa fb in \<open>simp_all add: inter1_def slice_start_def slice_length_def\<close>)
  qed
  then have "fits z i" by (simp add: i fits_def)
  then show ?thesis using Intersect_cells [OF ab assms(3)] by (simp add: good_slice_def)
qed

definition overlap_sum :: "int list \<Rightarrow> tensor_slice \<Rightarrow> (string \<times> 'd slice_info) list \<Rightarrow> nat" where
  "overlap_sum z s xs = card (cells z s \<inter> union_cells z xs)"

lemma overlap_sum_Cons:
  assumes "disjoint_slices z (x # xs)"
  shows "overlap_sum z s (x # xs) = card (cells z s \<inter> cells z (info_slice (snd x))) + overlap_sum z s xs"
proof -
  have "cells z s \<inter> union_cells z (x # xs) =
      (cells z s \<inter> cells z (info_slice (snd x))) \<union> (cells z s \<inter> union_cells z xs)" by auto
  moreover have "(cells z s \<inter> cells z (info_slice (snd x))) \<inter> (cells z s \<inter> union_cells z xs) = {}" using assms by auto
  ultimately show ?thesis unfolding overlap_sum_def by (simp add: card_Un_disjoint)
qed

lemma overlap_sum_le: "overlap_sum z s xs \<le> card (cells z s)"
  unfolding overlap_sum_def by (rule card_mono) auto

lemma card_cells_bound:
  assumes "good_slice z s" "bounded_sizes z"
  shows "int (card (cells z s)) \<le> kMaxElements"
proof -
  have "cells z s \<subseteq> cells z (SetFullSlice (length z) EmptySlice)"
    by (auto simp: cells_iff SetFullSlice_eq exts_def ext_def kFullExtent_def split: if_splits)
  then have "card (cells z s) \<le> card (cells z (SetFullSlice (length z) EmptySlice))" by (rule card_mono [rotated]) simp
  also have "int \<dots> = prod_list (map (sliced z (SetFullSlice (length z) EmptySlice)) [0..<length z])"
    using assms(2) by (intro card_cells) (auto simp: wf_slice_def fits_def SetFullSlice_eq kFullExtent_def bounded_sizes_def)
  also have "map (sliced z (SetFullSlice (length z) EmptySlice)) [0..<length z] = z"
    by (rule nth_equalityI) (auto simp: sliced_def IsFullAt_def SetFullSlice_eq kFullExtent_def)
  finally show ?thesis using assms(2) by (auto simp: bounded_sizes_def dest: spec [of _ "length z"])
qed

text \<open>Both loops add up the common cells of the slice and the stored ones; the second collects them too.\<close>

lemma meta_loop_eq:
  assumes "good_slice (dim_sizes shape) s" "wf_shape shape" "bounded_sizes (dim_sizes shape)"
  shows "\<forall>x\<in>set xs. good_slice (dim_sizes shape) (info_slice (snd x)) \<Longrightarrow> disjoint_slices (dim_sizes shape) xs \<Longrightarrow>
    0 \<le> n \<Longrightarrow> n + int (overlap_sum (dim_sizes shape) s xs) \<le> kMaxElements \<Longrightarrow>
    meta_loop shape s xs isec isec_shape n results = Some (Some (n + int (overlap_sum (dim_sizes shape) s xs)),
      results @ map (\<lambda>x. (info_slice (snd x), info_tag (snd x))) (filter (\<lambda>x. Overlaps s (info_slice (snd x))) xs))"
proof (induction xs arbitrary: isec isec_shape n results)
  case Nil
  then show ?case by (simp add: overlap_sum_def)
next
  case (Cons x xs)
  let ?z = "dim_sizes shape" let ?x = "info_slice (snd x)"
  have gx: "good_slice ?z ?x" and rest: "\<forall>x\<in>set xs. good_slice ?z (info_slice (snd x))" "disjoint_slices ?z xs" using Cons.prems by auto
  note sum = overlap_sum_Cons [OF Cons.prems(2), of s]
  obtain hit i where I: "Intersect s ?x isec = (hit, i)" by fastforce
  have ov: "Overlaps s ?x = hit"
    using I good_sdims [OF assms(1)] good_sdims [OF gx] by (auto simp: Overlaps_eq Intersect_eq split: if_splits)
  show ?case
  proof (cases hit)
    case False
    then have "cells ?z s \<inter> cells ?z ?x = {}"
      using Intersect_cells [of s ?x ?z isec hit i] I assms(1) gx good_sdims by (auto simp: good_slice_def)
    then show ?thesis using I ov False sum Cons.IH [OF rest] Cons.prems by simp
  next
    case True
    then have i: "good_slice ?z i" "cells ?z i = cells ?z s \<inter> cells ?z ?x" using fits_isec [OF assms(1) gx] I by auto
    obtain r where r: "SliceTensorShape i shape isec_shape = Some (None, r)" "num_elements r = int (card (cells ?z i))"
      using SliceTensorShape_fits [of i shape isec_shape] i(1) assms(2,3) by (auto simp: good_slice_def)
    have w: "wrap64 (n + num_elements r) = n + int (card (cells ?z s \<inter> cells ?z ?x))"
      using r(2) i(2) sum Cons.prems(3,4) by (simp add: wrap64_id int64_range_def kMaxElements_def)
    show ?thesis
      using I ov True r(1) w sum Cons.IH [OF rest, of "n + int (card (cells ?z s \<inter> cells ?z ?x))"] Cons.prems by simp
  qed
qed

lemma overlap_loop_meta:
  "overlap_loop shape s xs isec isec_shape n = map_option fst (meta_loop shape s xs isec isec_shape n results)"
  by (induction xs arbitrary: isec isec_shape n results) (auto split: option.splits prod.splits bool.splits)


lemma Query_cases:
  assumes inv: "set_inv ss" and slc: "wf_slice slc" "fits (sizes ss) slc"
  shows "map_option fst (Query copy_n copy_slice slc data ss) = Some (cells (sizes ss) slc \<subseteq> covered ss)"
    and "\<exists>results. QueryMeta slc ss = Some (cells (sizes ss) slc \<subseteq> covered ss, results) \<and>
      (if cells (sizes ss) slc \<subseteq> covered ss
       then (\<forall>r\<in>set results. \<exists>x\<in>set (slices ss). r = (info_slice (snd x), info_tag (snd x))) \<and>
         cells (sizes ss) slc \<subseteq> (\<Union>r\<in>set results. cells (sizes ss) (fst r))
       else results = [])"
proof -
  let ?z = "sizes ss"
  have good: "good_slice ?z slc" using slc by (simp add: good_slice_def)
  have i: "wf_shape (set_shape ss)" "bounded_sizes ?z" "disjoint_slices ?z (slices ss)"
    "\<forall>x\<in>set (slices ss). good_slice ?z (info_slice (snd x))"
    "\<forall>x\<in>set (slices ss). fst x = SliceDebugString (info_slice (snd x))"
    using inv by (simp_all add: set_inv_def)
  obtain r where r: "SliceTensorShape slc (set_shape ss) EmptyShape = Some (None, r)" "num_elements r = int (card (cells ?z slc))"
    using SliceTensorShape_fits [OF slc i(2,1), of EmptyShape] by blast
  define n where "n = overlap_sum ?z slc (slices ss)"
  let ?hits = "filter (\<lambda>x. Overlaps slc (info_slice (snd x))) (slices ss)"
  have "int n \<le> kMaxElements"
    using overlap_sum_le [of ?z slc "slices ss"] card_cells_bound [OF good i(2)] by (simp add: n_def)
  then have m: "meta_loop (set_shape ss) slc (slices ss) EmptySlice EmptyShape 0 [] =
      Some (Some (int n), map (\<lambda>x. (info_slice (snd x), info_tag (snd x))) ?hits)"
    using meta_loop_eq [OF good i(1,2,4,3), of 0] by (simp add: n_def)
  then have ol: "overlap_loop (set_shape ss) slc (slices ss) EmptySlice EmptyShape 0 = Some (Some (int n))"
    by (simp add: overlap_loop_meta [where results = "[]"])
  have iff: "card (cells ?z slc) = n \<longleftrightarrow> cells ?z slc \<subseteq> covered ss"
  proof
    assume "card (cells ?z slc) = n"
    then have "cells ?z slc \<inter> covered ss = cells ?z slc"
      unfolding n_def overlap_sum_def by (intro card_subset_eq) auto
    then show "cells ?z slc \<subseteq> covered ss" by blast
  qed (auto simp: n_def overlap_sum_def Int_absorb2)
  have exact: "cells ?z slc = cells ?z (info_slice info) \<and> (SliceDebugString slc, info) \<in> set (slices ss)"
    if "map_of (slices ss) (SliceDebugString slc) = Some info" for info
  proof -
    have mem: "(SliceDebugString slc, info) \<in> set (slices ss)" using that by (rule map_of_key)
    then have "SliceDebugString slc = SliceDebugString (info_slice info)" "good_slice ?z (info_slice info)" using i(4,5) by fastforce+
    then have "cells ?z slc = cells ?z (info_slice info)"
      using good good_sdims by (intro SliceDebugString_cells) (auto simp: good_slice_def)
    then show ?thesis using mem by blast
  qed
  have sub: "cells ?z slc \<subseteq> covered ss" if "map_of (slices ss) (SliceDebugString slc) = Some info" for info
    using exact [OF that] by (force simp: union_cells_def)
  show "map_option fst (Query copy_n copy_slice slc data ss) = Some (cells ?z slc \<subseteq> covered ss)"
    using sub r iff ol by (auto simp: Query_def split: option.split)
  have hits: "cells ?z slc \<subseteq> (\<Union>r\<in>set (map (\<lambda>x. (info_slice (snd x), info_tag (snd x))) ?hits). cells ?z (fst r))"
    if sub': "cells ?z slc \<subseteq> covered ss"
  proof
    fix c assume c: "c \<in> cells ?z slc"
    then obtain x where x: "x \<in> set (slices ss)" "c \<in> cells ?z (info_slice (snd x))"
      using sub' unfolding union_cells_def by blast
    have "Overlaps slc (info_slice (snd x))"
    proof (rule ccontr)
      assume "\<not> Overlaps slc (info_slice (snd x))"
      moreover have "good_slice ?z (info_slice (snd x))" using i(4) x by blast
      ultimately have "cells ?z slc \<inter> cells ?z (info_slice (snd x)) = {}"
        using good good_sdims unfolding good_slice_def by (intro no_hull_overlap) metis+
      then show False using x c by blast
    qed
    then show "c \<in> (\<Union>r\<in>set (map (\<lambda>x. (info_slice (snd x), info_tag (snd x))) ?hits). cells ?z (fst r))"
      using x by (cases x) force
  qed
  show "\<exists>results. QueryMeta slc ss = Some (cells ?z slc \<subseteq> covered ss, results) \<and>
      (if cells ?z slc \<subseteq> covered ss
       then (\<forall>r\<in>set results. \<exists>x\<in>set (slices ss). r = (info_slice (snd x), info_tag (snd x))) \<and>
         cells ?z slc \<subseteq> (\<Union>r\<in>set results. cells ?z (fst r))
       else results = [])"
  proof (cases "map_of (slices ss) (SliceDebugString slc)")
    case None
    show ?thesis
    proof (cases "cells ?z slc \<subseteq> covered ss")
      case True
      then show ?thesis using None r iff m hits by (simp add: QueryMeta_def) force
    next
      case False
      then show ?thesis using None r iff m by (simp add: QueryMeta_def)
    qed
  next
    case (Some info)
    then show ?thesis using sub exact by (force simp: QueryMeta_def)
  qed
qed

lemma set_inv_empty:
  "wf_shape shape \<Longrightarrow> bounded_sizes (dim_sizes shape) \<Longrightarrow> set_inv (MkTensorSliceSet shape type)"
  by (simp add: set_inv_def MkTensorSliceSet_def)

text \<open>The set after a sequence of registrations, whatever their outcomes.\<close>

fun register_all :: "(tensor_slice \<times> string \<times> 'd) list \<Rightarrow> 'd slice_set \<Rightarrow> 'd slice_set" where
  "register_all [] ss = ss"
| "register_all ((slc, tag, data) # rs) ss =
    register_all rs (case Register slc tag data ss of None \<Rightarrow> ss | Some (_, ss') \<Rightarrow> ss')"

lemma register_all_inv:
  "set_inv ss \<Longrightarrow> \<forall>r\<in>set rs. wf_slice (fst r) \<Longrightarrow> set_inv (register_all rs ss) \<and> sizes (register_all rs ss) = sizes ss"
proof (induction rs arbitrary: ss)
  case (Cons r rs)
  obtain slc tag data where r: "r = (slc, tag, data)" by (cases r)
  then have "wf_slice slc" using Cons.prems by simp
  from Register_cases [OF Cons.prems(1) this, of tag data]
  obtain e ss' where "Register slc tag data ss = Some (e, ss')" "set_inv ss'" "sizes ss' = sizes ss" by blast
  then show ?case using Cons.IH [of ss'] Cons.prems r by simp
qed simp

subsection \<open>Properties\<close>





end
