(* ===== verification/TableFormat.thy ===== *)
theory TableFormat
  imports BlockIter
begin

text \<open>
  The layers around the blocks of a table file (\<open>core/lib/io/format.{h,cc}\<close>): handles, the footer and the checked reading of a block, over
  the interface of random access files and the one of the compressor (\<open>core/platform/posix/port.cc\<close>).
\<close>

subsection \<open>Compression\<close>

text \<open>The library behind \<open>port::Snappy_*\<close>; a build without it has \<open>None\<close>.\<close>

record snappy =
  RawCompress :: "u8 list \<Rightarrow> u8 list"
  GetUncompressedLength :: "u8 list \<Rightarrow> nat option"
  RawUncompress :: "u8 list \<Rightarrow> u8 list option"

definition Snappy_Compress :: "snappy option \<Rightarrow> u8 list \<Rightarrow> u8 list option" where
  "Snappy_Compress lib input = map_option (\<lambda>l. RawCompress l input) lib"

definition Snappy_GetUncompressedLength :: "snappy option \<Rightarrow> u8 list \<Rightarrow> nat option" where
  "Snappy_GetUncompressedLength lib input = Option.bind lib (\<lambda>l. GetUncompressedLength l input)"

definition Snappy_Uncompress :: "snappy option \<Rightarrow> u8 list \<Rightarrow> u8 list option" where
  "Snappy_Uncompress lib input = Option.bind lib (\<lambda>l. RawUncompress l input)"

text \<open>What the tables rely on: what has been compressed can be uncompressed, and its length is known before.\<close>

locale compression =
  fixes Compress :: "u8 list \<Rightarrow> u8 list option"
    and UncompressedLength :: "u8 list \<Rightarrow> nat option"
    and Uncompress :: "u8 list \<Rightarrow> u8 list option"
  assumes compressed: "Compress raw = Some c \<Longrightarrow> length raw < 2 ^ 32 \<Longrightarrow> UncompressedLength c = Some (length raw) \<and> Uncompress c = Some raw"

interpretation no_snappy: compression "Snappy_Compress None" "Snappy_GetUncompressedLength None" "Snappy_Uncompress None"
  by unfold_locales (simp add: Snappy_Compress_def)

datatype compression_type = NoCompression | SnappyCompression

lemma ex_compression_type: "(\<exists>t. P t) \<longleftrightarrow> P NoCompression \<or> P SnappyCompression"
  by (metis compression_type.exhaust)

definition type_byte :: "compression_type \<Rightarrow> u8" where
  "type_byte t = (case t of NoCompression \<Rightarrow> 0 | SnappyCompression \<Rightarrow> 1)"

subsection \<open>Handles\<close>

record block_handle =
  handle_offset :: u64
  handle_size :: u64

definition BlockHandle :: block_handle where
  "BlockHandle = \<lparr>handle_offset = NOT 0, handle_size = NOT 0\<rparr>"

definition handle_EncodeTo :: "block_handle \<Rightarrow> u8 list \<Rightarrow> u8 list" where
  "handle_EncodeTo h dst = PutVarint64 (PutVarint64 dst (handle_offset h)) (handle_size h)"

text \<open>The handle and the rest of the input.\<close>

definition handle_DecodeFrom :: "u8 list \<Rightarrow> io_status + block_handle \<times> u8 list" where
  "handle_DecodeFrom input =
    (case do { (offset, input) \<leftarrow> GetVarint64 input; (sz, input) \<leftarrow> GetVarint64 input; Some (\<lparr>handle_offset = offset, handle_size = sz\<rparr>, input) } of
       Some r \<Rightarrow> Inr r
     | None \<Rightarrow> Inl (DataLoss ''bad block handle''))"

definition handle_bytes :: "block_handle \<Rightarrow> u8 list" where
  "handle_bytes h = EncodeVarint64 (handle_offset h) @ EncodeVarint64 (handle_size h)"

lemma handle_EncodeTo_eq: "handle_EncodeTo h dst = dst @ handle_bytes h"
  by (simp add: handle_EncodeTo_def handle_bytes_def PutVarint64_def)

lemma handle_Decode_bytes: "handle_DecodeFrom (handle_bytes h @ rest) = Inr (h, rest)"
  using varint64.decode_two [of "handle_offset h" "handle_size h" rest "\<lambda>a b. \<lparr>handle_offset = a, handle_size = b\<rparr>"]
  by (simp add: handle_DecodeFrom_def handle_bytes_def)

lemma length_handle_bytes: "length (handle_bytes h) \<le> 20"
proof -
  have "length (EncodeVarint64 v) \<le> 10" for v :: u64
    using length_EncodeVarint64 [of v 10] unsigned_less [of v, where 'a = nat] by simp
  from add_mono [OF this this] show ?thesis by (simp add: handle_bytes_def)
qed

interpretation handle: codec handle_bytes "\<lambda>bs. case handle_DecodeFrom bs of Inr r \<Rightarrow> Some r | Inl e \<Rightarrow> None"
  by unfold_locales (simp add: handle_Decode_bytes)

subsection \<open>The footer\<close>

record footer =
  metaindex_handle :: block_handle
  index_handle :: block_handle

definition kEncodedLength :: nat where "kEncodedLength = 2 * 20 + 8"

definition kTableMagicNumber :: u64 where "kTableMagicNumber = 0xdb4775248b80fb57"

definition kBlockTrailerSize :: nat where "kBlockTrailerSize = 5"

definition resize :: "nat \<Rightarrow> u8 list \<Rightarrow> u8 list" where
  "resize n xs = take n xs @ replicate (n - length xs) 0"

definition footer_EncodeTo :: "bool \<Rightarrow> footer \<Rightarrow> u8 list \<Rightarrow> u8 list" where
  "footer_EncodeTo le ft dst =
    (let dst = handle_EncodeTo (metaindex_handle ft) dst;
         dst = handle_EncodeTo (index_handle ft) dst;
         dst = resize (2 * 20) dst;
         dst = PutFixed32 le dst (ucast (kTableMagicNumber AND 0xffffffff))
     in PutFixed32 le dst (ucast (drop_bit 32 kTableMagicNumber)))"

definition footer_DecodeFrom :: "bool \<Rightarrow> u8 list \<Rightarrow> (io_status + footer \<times> u8 list) option" where
  "footer_DecodeFrom le input = do {
     magic_lo \<leftarrow> DecodeFixed32 le (drop (kEncodedLength - 8) input);
     magic_hi \<leftarrow> DecodeFixed32 le (drop (kEncodedLength - 8 + 4) input);
     let magic = push_bit 32 (ucast magic_hi) OR ucast magic_lo;
     if magic \<noteq> kTableMagicNumber then Some (Inl (DataLoss ''not an sstable (bad magic number)''))
     else Some
       (case handle_DecodeFrom input of
          Inl s \<Rightarrow> Inl s
        | Inr (metaindex, rest) \<Rightarrow>
            (case handle_DecodeFrom rest of
               Inl s \<Rightarrow> Inl s
             | Inr (index, rest) \<Rightarrow> Inr (\<lparr>metaindex_handle = metaindex, index_handle = index\<rparr>, drop kEncodedLength input))) }"

definition footer_bytes :: "footer \<Rightarrow> u8 list" where
  "footer_bytes ft = resize 40 (handle_bytes (metaindex_handle ft) @ handle_bytes (index_handle ft)) @
     EncodeFixed32 True 0x8b80fb57 @ EncodeFixed32 True 0xdb477524"

lemma footer_EncodeTo_eq: "footer_EncodeTo le ft [] = footer_bytes ft"
proof -
  have "ucast (kTableMagicNumber AND 0xffffffff) = (0x8b80fb57 :: u32)" "ucast (drop_bit 32 kTableMagicNumber) = (0xdb477524 :: u32)"
    by (simp_all add: kTableMagicNumber_def drop_bit_eq_div)
  then show ?thesis
    unfolding footer_EncodeTo_def Let_def PutFixed32_def EncodeFixed_le(1) [of le] by (simp add: footer_bytes_def handle_EncodeTo_eq)
qed

lemma footer_handles:
  fixes a b :: "u8 list"
  assumes "length a \<le> 20" "length b \<le> 20"
  shows "resize 40 (a @ b) = a @ b @ replicate (40 - length a - length b) 0"
  using assms by (simp add: resize_def)

lemma length_footer_bytes [simp]: "length (footer_bytes ft) = 48"
  using length_handle_bytes [of "metaindex_handle ft"] length_handle_bytes [of "index_handle ft"]
  by (simp add: footer_bytes_def footer_handles)

lemma footer_Decode_bytes: "footer_DecodeFrom le (footer_bytes ft @ rest) = Some (Inr (ft, rest))"
proof -
  note len = length_handle_bytes [of "metaindex_handle ft"] length_handle_bytes [of "index_handle ft"]
  have bytes: "footer_bytes ft = handle_bytes (metaindex_handle ft) @ handle_bytes (index_handle ft) @
      replicate (40 - length (handle_bytes (metaindex_handle ft)) - length (handle_bytes (index_handle ft))) 0 @
      EncodeFixed32 True 0x8b80fb57 @ EncodeFixed32 True 0xdb477524"
    using len by (simp add: footer_bytes_def footer_handles)
  have "drop 40 (footer_bytes ft @ rest) = EncodeFixed32 True 0x8b80fb57 @ EncodeFixed32 True 0xdb477524 @ rest"
    "drop 44 (footer_bytes ft @ rest) = EncodeFixed32 True 0xdb477524 @ rest"
    "drop 48 (footer_bytes ft @ rest) = rest"
    using len by (simp_all add: bytes)
  then show ?thesis
    using len by (simp add: footer_DecodeFrom_def kEncodedLength_def fixed_decode kTableMagicNumber_def bytes handle_Decode_bytes push_bit_eq_mult)
qed

subsection \<open>Reading a block\<close>

record block_contents =
  contents_data :: "u8 list"
  cachable :: bool
  heap_allocated :: bool

text \<open>\<open>mapped\<close>: the file hands out its own memory instead of filling the buffer.\<close>

definition ReadBlock :: "bool \<Rightarrow> nat \<Rightarrow> snappy option \<Rightarrow> bool \<Rightarrow> file_read \<Rightarrow> block_handle \<Rightarrow> (io_status + block_contents) option" where
  "ReadBlock le addr lib mapped Read h =
    (let n = unat (handle_size h);
         expected = unat (handle_size h + word_of_nat kBlockTrailerSize)
     in case Read (handle_offset h) expected of
       (s, contents) \<Rightarrow>
         if s \<noteq> FileOK then Some (Inl (FileError s))
         else if length contents \<noteq> expected then Some (Inl (DataLoss ''truncated block read''))
         else do {
           masked \<leftarrow> DecodeFixed32 le (drop (n + 1) contents);
           let crc = Unmask masked;
           let actual = crc_Value le addr (take (n + 1) contents);
           if actual \<noteq> crc then Some (Inl (DataLoss ''block checksum mismatch''))
           else if contents ! n = type_byte NoCompression then
             Some (Inr \<lparr>contents_data = take n contents, cachable = \<not> mapped, heap_allocated = \<not> mapped\<rparr>)
           else if contents ! n = type_byte SnappyCompression then
             (case Snappy_GetUncompressedLength lib (take n contents) of
                None \<Rightarrow> Some (Inl (DataLoss ''corrupted compressed block contents''))
              | Some ulength \<Rightarrow>
                  (case Snappy_Uncompress lib (take n contents) of
                     None \<Rightarrow> Some (Inl (DataLoss ''corrupted compressed block contents''))
                   | Some ubuf \<Rightarrow>
                       if length ubuf \<noteq> ulength then None
                       else Some (Inr \<lparr>contents_data = ubuf, cachable = True, heap_allocated = True\<rparr>)))
           else Some (Inl (DataLoss ''bad block type'')) })"

text \<open>What is stored for a block: its bytes as they are or compressed, the type, and the checksum of both.\<close>

definition stored_block :: "snappy option \<Rightarrow> compression_type \<Rightarrow> u8 list \<Rightarrow> u8 list \<Rightarrow> bool" where
  "stored_block lib t stored raw \<longleftrightarrow> (case t of NoCompression \<Rightarrow> stored = raw | SnappyCompression \<Rightarrow>
     Snappy_GetUncompressedLength lib stored = Some (length raw) \<and> Snappy_Uncompress lib stored = Some raw)"

definition block_file_bytes :: "u8 list \<Rightarrow> compression_type \<Rightarrow> u8 list" where
  "block_file_bytes stored t = checked (stored @ [type_byte t])"

lemma length_resize [simp]: "length (resize n xs) = n"
  by (simp add: resize_def)

lemma length_block_file_bytes [simp]: "length (block_file_bytes stored t) = length stored + 5"
  by (simp add: block_file_bytes_def)

lemma stored_block_Compress:
  assumes "compression (Snappy_Compress lib) (Snappy_GetUncompressedLength lib) (Snappy_Uncompress lib)"
    and "Snappy_Compress lib raw = Some c" "length raw < 2 ^ 32"
  shows "stored_block lib SnappyCompression c raw"
  using compression.compressed [OF assms] by (simp add: stored_block_def)

context random_access_file
begin

lemma ReadBlock_OK:
  assumes "unat (handle_size h) < 2 ^ 64 - 5"
  shows "(\<exists>bc. ReadBlock le addr lib mapped Read h = Some (Inr bc) \<and> contents_data bc = raw) \<longleftrightarrow>
    (\<exists>stored t. length stored = unat (handle_size h) \<and> at_offset contents (handle_offset h) (block_file_bytes stored t) \<and> stored_block lib t stored raw)"
    (is "?run \<longleftrightarrow> ?enc")
proof -
  define n where "n = unat (handle_size h)"
  have expected: "unat (handle_size h + word_of_nat kBlockTrailerSize) = n + 5"
    using assms by (simp add: n_def kBlockTrailerSize_def unat_word_ariths)
  show ?thesis
  proof (cases "unat (handle_offset h) + (n + 5) \<le> length contents")
    case False
    then have r: "fst (Read (handle_offset h) (n + 5)) = OutOfRange" by (intro read_short) simp
    have "\<not> at_offset contents (handle_offset h) (block_file_bytes stored t)" if "length stored = n" for stored t
      using False that by (auto simp: at_offset_def dest: arg_cong [where f = length])
    then have "\<not> ?enc" by (auto simp: n_def)
    moreover have "\<not> ?run" using r expected by (auto simp: ReadBlock_def Let_def n_def split: prod.splits)
    ultimately show ?thesis by satx
  next
    case True
    define d where "d = take (n + 5) (drop (unat (handle_offset h)) contents)"
    have len: "length d = n + 5" using True by (simp add: d_def)
    have r: "Read (handle_offset h) (n + 5) = (FileOK, d)" using read_all True by (simp add: d_def)
    obtain m where m: "DecodeFixed32 le (drop (n + 1) d) = Some m" using len by (simp add: DecodeFixed_portable)
    then have "drop (n + 1) d = EncodeFixed32 True m" using DecodeFixed_iff(1) [of "drop (n + 1) d" le m True] len by simp
    moreover have "take (n + 1) d = take n d @ [d ! n]" using len by (simp add: take_Suc_conv_app_nth)
    ultimately have d: "d = (take n d @ [d ! n]) @ EncodeFixed32 True m" by (metis append_take_drop_id)
    have inj: "EncodeFixed32 True v = EncodeFixed32 True w \<Longrightarrow> v = w" for v w
      using fixed_decode(2) [of True True v "[]"] fixed_decode(2) [of True True w "[]"] by simp
    have at: "at_offset contents (handle_offset h) (block_file_bytes stored t) \<longleftrightarrow> d = block_file_bytes stored t" if "length stored = n" for stored t
      using that by (auto simp: at_offset_def d_def)
    have enc: "d = block_file_bytes stored t \<longleftrightarrow> stored = take n d \<and> type_byte t = d ! n \<and> m = Mask (crc32c 0 (take (n + 1) d))" (is "?l \<longleftrightarrow> ?r")
      if "length stored = n" for stored t
    proof
      assume l: ?l
      then have "take n d = stored" "d ! n = type_byte t" "take (n + 1) d = stored @ [type_byte t]" "drop (n + 1) d = EncodeFixed32 True (Mask (crc32c 0 (stored @ [type_byte t])))"
        using that by (simp_all add: block_file_bytes_def checked_def nth_append)
      then show ?r using inj \<open>drop (n + 1) d = EncodeFixed32 True m\<close> by simp
    next
      assume ?r
      then show ?l using d \<open>take (n + 1) d = take n d @ [d ! n]\<close> by (simp add: block_file_bytes_def checked_def)
    qed
    have iff: "?enc \<longleftrightarrow> m = Mask (crc32c 0 (take (n + 1) d)) \<and> (\<exists>t. type_byte t = d ! n \<and> stored_block lib t (take n d) raw)"
    proof
      assume ?enc
      then show "m = Mask (crc32c 0 (take (n + 1) d)) \<and> (\<exists>t. type_byte t = d ! n \<and> stored_block lib t (take n d) raw)"
        using at enc unfolding n_def [symmetric] by metis
    next
      assume "m = Mask (crc32c 0 (take (n + 1) d)) \<and> (\<exists>t. type_byte t = d ! n \<and> stored_block lib t (take n d) raw)"
      moreover have "length (take n d) = n" using len by simp
      ultimately show ?enc using at enc unfolding n_def [symmetric] by metis
    qed
    have "ReadBlock le addr lib mapped Read h = (if m \<noteq> Mask (crc32c 0 (take (n + 1) d)) then Some (Inl (DataLoss ''block checksum mismatch''))
      else if d ! n = 0 then Some (Inr \<lparr>contents_data = take n d, cachable = \<not> mapped, heap_allocated = \<not> mapped\<rparr>)
      else if d ! n = 1 then
        (case (Snappy_GetUncompressedLength lib (take n d), Snappy_Uncompress lib (take n d)) of
           (Some ulength, Some ubuf) \<Rightarrow> if length ubuf \<noteq> ulength then None else Some (Inr \<lparr>contents_data = ubuf, cachable = True, heap_allocated = True\<rparr>)
         | _ \<Rightarrow> Some (Inl (DataLoss ''corrupted compressed block contents'')))
      else Some (Inl (DataLoss ''bad block type'')))"
      using m len by (simp add: ReadBlock_def Let_def expected n_def [symmetric] r crc_Value_def crc_Extend_eq Unmask_eq_iff type_byte_def split: option.split)
    moreover have "(\<exists>t. type_byte t = d ! n \<and> stored_block lib t (take n d) raw) \<longleftrightarrow> d ! n = 0 \<and> take n d = raw \<or>
      d ! n = 1 \<and> Snappy_GetUncompressedLength lib (take n d) = Some (length raw) \<and> Snappy_Uncompress lib (take n d) = Some raw"
      by (auto simp: ex_compression_type type_byte_def stored_block_def)
    ultimately show ?thesis unfolding iff by (auto split: option.splits if_splits)
  qed
qed

end

end
