(* ===== verification/TwoLevel.thy ===== *)
theory TwoLevel
  imports BlockIter
begin

text \<open>
  The iterator over a whole table (\<open>core/lib/io/two_level_iterator.cc\<close>): an iterator over the index, whose values name blocks, and an
  iterator over the block where it stands. It is the second provider of the interface of sorted
  iterators, and is built from the first. \<open>bf\<close> is the block function.
\<close>

subsection \<open>The iterator\<close>

record two_level =
  tl_status :: io_status
  index_iter :: iterator
  data_iter :: "iterator option"
  data_block_handle :: "u8 list"

definition TwoLevelIterator :: "iterator \<Rightarrow> two_level" where
  "TwoLevelIterator index = \<lparr>tl_status = OK, index_iter = index, data_iter = None, data_block_handle = []\<rparr>"

definition tl_Valid :: "two_level \<Rightarrow> bool" where
  "tl_Valid t = (case data_iter t of None \<Rightarrow> False | Some d \<Rightarrow> Valid d)"

definition tl_key :: "two_level \<Rightarrow> u8 list option" where
  "tl_key t = Option.bind (data_iter t) it_key"

definition tl_value :: "two_level \<Rightarrow> u8 list option" where
  "tl_value t = Option.bind (data_iter t) it_value"

definition two_level_status :: "two_level \<Rightarrow> io_status" where
  "two_level_status t =
    (if iterator_status (index_iter t) \<noteq> OK then iterator_status (index_iter t)
     else case data_iter t of
       Some d \<Rightarrow> if iterator_status d \<noteq> OK then iterator_status d else tl_status t
     | None \<Rightarrow> tl_status t)"

definition SaveError :: "io_status \<Rightarrow> two_level \<Rightarrow> two_level" where
  "SaveError s t = (if tl_status t = OK \<and> s \<noteq> OK then t\<lparr>tl_status := s\<rparr> else t)"

definition SetDataIterator :: "iterator option \<Rightarrow> two_level \<Rightarrow> two_level" where
  "SetDataIterator d t =
    (let t = (case data_iter t of None \<Rightarrow> t | Some old \<Rightarrow> SaveError (iterator_status old) t)
     in t\<lparr>data_iter := d\<rparr>)"

definition InitDataBlock :: "(u8 list \<Rightarrow> iterator option) \<Rightarrow> two_level \<Rightarrow> two_level option" where
  "InitDataBlock bf t =
    (if \<not> Valid (index_iter t) then Some (SetDataIterator None t)
     else do {
       handle \<leftarrow> it_value (index_iter t);
       if data_iter t \<noteq> None \<and> compare handle (data_block_handle t) = 0 then Some t
       else do {
         it \<leftarrow> bf handle;
         let t = t\<lparr>data_block_handle := handle\<rparr>;
         Some (SetDataIterator (Some it) t) } })"

definition data_do :: "(iterator \<Rightarrow> iterator option) \<Rightarrow> two_level \<Rightarrow> two_level option" where
  "data_do f t = (case data_iter t of None \<Rightarrow> Some t | Some d \<Rightarrow> map_option (\<lambda>d. t\<lparr>data_iter := Some d\<rparr>) (f d))"

partial_function (option) SkipEmptyDataBlocksForward :: "bool \<Rightarrow> (u8 list \<Rightarrow> iterator option) \<Rightarrow> two_level \<Rightarrow> two_level option" where
  "SkipEmptyDataBlocksForward le bf t =
    (if tl_Valid t then Some t
     else if \<not> Valid (index_iter t) then Some (SetDataIterator None t)
     else do {
       index \<leftarrow> Next le (index_iter t);
       t \<leftarrow> InitDataBlock bf (t\<lparr>index_iter := index\<rparr>);
       t \<leftarrow> data_do (SeekToFirst le) t;
       SkipEmptyDataBlocksForward le bf t })"

definition tl_Seek :: "bool \<Rightarrow> (u8 list \<Rightarrow> iterator option) \<Rightarrow> u8 list \<Rightarrow> two_level \<Rightarrow> two_level option" where
  "tl_Seek le bf target t = do {
     index \<leftarrow> Seek le target (index_iter t);
     t \<leftarrow> InitDataBlock bf (t\<lparr>index_iter := index\<rparr>);
     t \<leftarrow> data_do (Seek le target) t;
     SkipEmptyDataBlocksForward le bf t }"

definition tl_SeekToFirst :: "bool \<Rightarrow> (u8 list \<Rightarrow> iterator option) \<Rightarrow> two_level \<Rightarrow> two_level option" where
  "tl_SeekToFirst le bf t = do {
     index \<leftarrow> SeekToFirst le (index_iter t);
     t \<leftarrow> InitDataBlock bf (t\<lparr>index_iter := index\<rparr>);
     t \<leftarrow> data_do (SeekToFirst le) t;
     SkipEmptyDataBlocksForward le bf t }"

text \<open>A step of an iterator that is not valid is undefined.\<close>

definition tl_Next :: "bool \<Rightarrow> (u8 list \<Rightarrow> iterator option) \<Rightarrow> two_level \<Rightarrow> two_level option" where
  "tl_Next le bf t = do {
     d \<leftarrow> data_iter t;
     d \<leftarrow> Next le d;
     SkipEmptyDataBlocksForward le bf (t\<lparr>data_iter := Some d\<rparr>) }"

subsection \<open>What the index describes\<close>

text \<open>A table is a list of blocks, each with its separator in the index, its handle and its entries. A separator is not
  below the keys of its block and below all keys behind it. \<open>behind\<close> are the entries behind the blocks.\<close>

type_synonym part = "u8 list \<times> u8 list \<times> entry list"

definition index_entries :: "part list \<Rightarrow> entry list" where
  "index_entries ps = map (\<lambda>(sep, h, seg). (sep, h)) ps"

definition part_entries :: "part list \<Rightarrow> entry list" where
  "part_entries ps = concat (map (snd \<circ> snd) ps)"

lemma parts_simps [simp]:
  "index_entries [] = []" "part_entries [] = []" "length (index_entries ps) = length ps"
  "index_entries (ps @ qs) = index_entries ps @ index_entries qs" "part_entries (ps @ qs) = part_entries ps @ part_entries qs"
  "index_entries ((sep, h, seg) # ps) = (sep, h) # index_entries ps" "part_entries ((sep, h, seg) # ps) = seg @ part_entries ps"
  by (simp_all add: index_entries_def part_entries_def)

fun parts_ok :: "part list \<Rightarrow> entry list \<Rightarrow> bool" where
  "parts_ok [] behind \<longleftrightarrow> True"
| "parts_ok ((sep, h, seg) # ps) behind \<longleftrightarrow> seg \<noteq> [] \<and> (\<forall>e\<in>set seg. \<not> sep < fst e) \<and>
     (\<forall>e\<in>set (part_entries ps @ behind). sep < fst e) \<and> parts_ok ps behind"

lemma parts_ok_append:
  "parts_ok (ps @ qs) behind \<longleftrightarrow> parts_ok ps (part_entries qs @ behind) \<and> parts_ok qs behind"
  by (induction ps) auto

definition opens :: "(u8 list \<Rightarrow> iterator option) \<Rightarrow> part list \<Rightarrow> bool" where
  "opens bf ps \<longleftrightarrow> (\<forall>(sep, h, seg)\<in>set ps. \<exists>d. bf h = Some d \<and> block_over seg d)"

lemma index_sorted: "parts_ok ps behind \<Longrightarrow> keys_sorted (index_entries ps)"
proof (induction ps behind rule: parts_ok.induct)
  case (2 sep h seg ps behind)
  have "sep < fst e" if "e \<in> set (index_entries ps)" for e
  proof -
    obtain seg' where p: "(fst e, snd e, seg') \<in> set ps" using \<open>e \<in> _\<close> by (force simp: index_entries_def)
    obtain qs rs where "ps = qs @ (fst e, snd e, seg') # rs" using split_list [OF p] by blast
    then have "seg' \<noteq> []" "set seg' \<subseteq> set (part_entries ps)" "\<forall>x\<in>set seg'. \<not> fst e < fst x"
      using "2.prems" by (auto simp: parts_ok_append)
    moreover from this(1) obtain x where "x \<in> set seg'" using list.set_sel(1) by blast
    ultimately have "sep < fst x" "\<not> fst e < fst x" using "2.prems" by auto
    then show ?thesis by (meson less_le_trans not_less)
  qed
  then show ?case using 2 by (simp add: keys_sorted_def)
qed (simp add: keys_sorted_def)

lemma lower_bound_parts:
  assumes "parts_ok ps []" "j = lower_bound target (index_entries ps)"
  shows "lower_bound target (part_entries ps) =
    length (part_entries (take j ps)) + (if j < length ps then lower_bound target (snd (snd (ps ! j))) else 0)"
  using assms
proof (induction ps "[] :: entry list" arbitrary: j rule: parts_ok.induct)
  case (2 sep h seg ps)
  show ?case
  proof (cases "sep < target")
    case True
    then have "fst e < target" if "e \<in> set seg" for e using "2.prems"(1) that by (auto simp: not_less intro: le_less_trans)
    then have "lower_bound target (seg @ part_entries ps) = length seg + lower_bound target (part_entries ps)"
      by (simp add: lower_bound_def takeWhile_append2)
    moreover have "j = Suc (lower_bound target (index_entries ps))" using "2.prems"(2) True by (simp add: lower_bound_def)
    ultimately show ?thesis using "2.hyps" [OF _ refl] "2.prems"(1) by simp
  next
    case False
    then have j: "j = 0" using "2.prems"(2) by (simp add: lower_bound_def)
    have "\<not> fst e < target" if "e \<in> set (part_entries ps)" for e
      using "2.prems"(1) False that by (auto simp: not_less dest: less_imp_le intro: order_trans)
    then have "takeWhile (\<lambda>e. fst e < target) (part_entries ps) = []" by (cases "part_entries ps") auto
    then show ?thesis by (auto simp: j lower_bound_def takeWhile_append takeWhile_eq_all_conv [THEN iffD2])
  qed
qed (simp add: lower_bound_def)

subsection \<open>Where it stands\<close>

definition tl_parts :: "(u8 list \<Rightarrow> iterator option) \<Rightarrow> part list \<Rightarrow> two_level \<Rightarrow> bool" where
  "tl_parts bf ps t \<longleftrightarrow> parts_ok ps [] \<and> opens bf ps \<and> block_over (index_entries ps) (index_iter t) \<and> tl_status t = OK \<and>
     (\<forall>d. data_iter t = Some d \<longrightarrow> (\<exists>(sep, h, seg)\<in>set ps. h = data_block_handle t \<and> block_over seg d))"

definition tl_inside :: "part list \<Rightarrow> nat \<Rightarrow> nat \<Rightarrow> two_level \<Rightarrow> bool" where
  "tl_inside ps j m t \<longleftrightarrow> j < length ps \<and> block_at (index_entries ps) j (index_iter t) \<and>
     (\<exists>d. data_iter t = Some d \<and> block_at (snd (snd (ps ! j))) m d)"

definition tl_outside :: "part list \<Rightarrow> two_level \<Rightarrow> bool" where
  "tl_outside ps t \<longleftrightarrow> block_at (index_entries ps) (length ps) (index_iter t) \<and> data_iter t = None"

definition tl_at_part :: "(u8 list \<Rightarrow> iterator option) \<Rightarrow> part list \<Rightarrow> nat \<Rightarrow> two_level \<Rightarrow> bool" where
  "tl_at_part bf ps n t \<longleftrightarrow> tl_parts bf ps t \<and>
     ((\<exists>j m. tl_inside ps j m t \<and> m < length (snd (snd (ps ! j))) \<and> n = length (part_entries (take j ps)) + m) \<or>
      tl_outside ps t \<and> n = length (part_entries ps))"

lemma block_over_OK: "block_over es d \<Longrightarrow> iterator_status d = OK"
  by (auto simp: block_over_def iter_over_def)

lemma opensD: "opens bf ps \<Longrightarrow> (sep, h, seg) \<in> set ps \<Longrightarrow> \<exists>d. bf h = Some d \<and> block_over seg d"
  by (auto simp: opens_def)

lemma opens_unique:
  assumes "opens bf ps" "(sep, h, seg) \<in> set ps" "(sep', h, seg') \<in> set ps"
  shows "seg = seg'"
proof -
  obtain d d' where "bf h = Some d" "block_over seg d" "bf h = Some d'" "block_over seg' d'"
    using opensD [OF assms(1,2)] opensD [OF assms(1,3)] by blast
  then show ?thesis using blk.over_unique [of seg d seg'] by simp
qed

lemma SetDataIterator_over:
  "tl_parts bf ps t \<Longrightarrow> SetDataIterator d t = t\<lparr>data_iter := d\<rparr>"
  by (auto simp: SetDataIterator_def SaveError_def tl_parts_def dest: block_over_OK split: option.split)

lemma part_size: "parts_ok ps b \<Longrightarrow> j < length ps \<Longrightarrow> snd (snd (ps ! j)) \<noteq> []"
  by (induction ps b arbitrary: j rule: parts_ok.induct) (auto simp: nth_Cons split: nat.split)

lemma part_nth:
  assumes "j < length ps"
  shows "index_entries ps ! j = (fst (ps ! j), fst (snd (ps ! j)))" "part_entries (take (Suc j) ps) = part_entries (take j ps) @ snd (snd (ps ! j))"
  using assms by (simp_all add: index_entries_def part_entries_def take_Suc_conv_app_nth split_beta)

lemma part_entry:
  assumes "j < length ps" "m < length (snd (snd (ps ! j)))"
  shows "length (part_entries (take j ps)) + m < length (part_entries ps)"
    "part_entries ps ! (length (part_entries (take j ps)) + m) = snd (snd (ps ! j)) ! m"
proof -
  have "part_entries ps = part_entries (take j ps) @ snd (snd (ps ! j)) @ part_entries (drop (Suc j) ps)"
    using parts_simps(5) [of "take (Suc j) ps" "drop (Suc j) ps"] part_nth(2) [OF assms(1)] by simp
  then show "length (part_entries (take j ps)) + m < length (part_entries ps)"
    "part_entries ps ! (length (part_entries (take j ps)) + m) = snd (snd (ps ! j)) ! m"
    using assms(2) by (simp_all add: nth_append)
qed

lemma InitDataBlock_spec:
  assumes t: "tl_parts bf ps t" and i: "block_at (index_entries ps) j i"
  shows "\<exists>t'. InitDataBlock bf (t\<lparr>index_iter := i\<rparr>) = Some t' \<and> tl_parts bf ps t' \<and> index_iter t' = i \<and>
    (if j < length ps then \<exists>d. data_iter t' = Some d \<and> block_over (snd (snd (ps ! j))) d else data_iter t' = None)"
proof -
  have over: "block_over (index_entries ps) i" using blk.at_over [OF i] by simp
  then have t1: "tl_parts bf ps (t\<lparr>index_iter := i\<rparr>)" using t by (simp add: tl_parts_def)
  have valid: "Valid i \<longleftrightarrow> j < length ps" using blk.at_valid [OF i] by simp
  note set_data = SetDataIterator_over [OF t1]
  show ?thesis
  proof (cases "j < length ps")
    case False
    then show ?thesis using valid t1 set_data by (simp add: InitDataBlock_def tl_parts_def)
  next
    case True
    obtain sep h seg where p: "ps ! j = (sep, h, seg)" by (metis prod_cases3)
    then have mem: "(sep, h, seg) \<in> set ps" using nth_mem [OF True] by simp
    have val: "it_value i = Some h" using blk.at_entry [OF i] True part_nth(1) [OF True] p by simp
    obtain d where d: "bf h = Some d" "block_over seg d" using opensD [OF _ mem] t by (auto simp: tl_parts_def)
    show ?thesis
    proof (cases "data_iter t \<noteq> None \<and> compare h (data_block_handle t) = 0")
      case c: True
      then obtain e where e: "data_iter t = Some e" by auto
      then obtain sep' seg' where "(sep', h, seg') \<in> set ps" "block_over seg' e" using t c by (auto simp: tl_parts_def compare_sign)
      then have "block_over seg e" using opens_unique [OF _ mem] t by (metis tl_parts_def)
      moreover have "InitDataBlock bf (t\<lparr>index_iter := i\<rparr>) = Some (t\<lparr>index_iter := i\<rparr>)"
        using valid True val c by (simp add: InitDataBlock_def)
      ultimately show ?thesis using e t1 True p by auto
    next
      case c: False
      have "SetDataIterator (Some d) (t\<lparr>index_iter := i, data_block_handle := h\<rparr>) = t\<lparr>index_iter := i, data_block_handle := h, data_iter := Some d\<rparr>"
        using t by (auto simp: SetDataIterator_def SaveError_def tl_parts_def dest: block_over_OK split: option.split)
      then have "InitDataBlock bf (t\<lparr>index_iter := i\<rparr>) = Some (t\<lparr>index_iter := i, data_block_handle := h, data_iter := Some d\<rparr>)"
        using valid True val c d(1) by (auto simp: InitDataBlock_def)
      moreover have "tl_parts bf ps (t\<lparr>index_iter := i, data_block_handle := h, data_iter := Some d\<rparr>)"
        using t over mem d(2) by (auto simp: tl_parts_def)
      ultimately show ?thesis using d(2) True p by simp
    qed
  qed
qed

lemma Skip_outside: "tl_outside ps t \<Longrightarrow> SkipEmptyDataBlocksForward le bf t = Some t"
  using blk.at_valid [of "index_entries ps" "length ps" "index_iter t"]
  by (subst SkipEmptyDataBlocksForward.simps) (simp add: tl_outside_def tl_Valid_def SetDataIterator_def)

lemma Skip_valid: "tl_inside ps j m t \<Longrightarrow> m < length (snd (snd (ps ! j))) \<Longrightarrow> SkipEmptyDataBlocksForward le bf t = Some t"
  by (subst SkipEmptyDataBlocksForward.simps) (auto simp: tl_inside_def tl_Valid_def dest: blk.at_valid)

lemma tl_parts_data: "tl_parts bf ps t \<Longrightarrow> data_iter t = Some d \<Longrightarrow> block_over seg d \<Longrightarrow> block_over seg d' \<Longrightarrow> tl_parts bf ps (t\<lparr>data_iter := Some d'\<rparr>)"
  unfolding tl_parts_def using blk.over_unique by fastforce

text \<open>Entering the block where the index stands, at its first entry.\<close>

lemma enter_part:
  assumes "tl_parts bf ps t" "block_at (index_entries ps) j i"
  shows "\<exists>t1 t2. InitDataBlock bf (t\<lparr>index_iter := i\<rparr>) = Some t1 \<and> data_do (SeekToFirst le) t1 = Some t2 \<and>
    SkipEmptyDataBlocksForward le bf t2 = Some t2 \<and> tl_at_part bf ps (length (part_entries (take j ps))) t2"
proof -
  obtain t1 where t1: "InitDataBlock bf (t\<lparr>index_iter := i\<rparr>) = Some t1" "tl_parts bf ps t1" "index_iter t1 = i"
    "if j < length ps then \<exists>d. data_iter t1 = Some d \<and> block_over (snd (snd (ps ! j))) d else data_iter t1 = None"
    using InitDataBlock_spec [OF assms] by blast
  show ?thesis
  proof (cases "j < length ps")
    case True
    then obtain d where d: "data_iter t1 = Some d" "block_over (snd (snd (ps ! j))) d" using t1(4) by auto
    obtain d' where d': "SeekToFirst le d = Some d'" "block_at (snd (snd (ps ! j))) 0 d'" using blk.at_first [OF d(2)] by blast
    let ?t = "t1\<lparr>data_iter := Some d'\<rparr>"
    have "tl_parts bf ps ?t" using tl_parts_data t1(2) d blk.at_over [OF d'(2)] by blast
    moreover have "tl_inside ps j 0 ?t" using True t1(3) d'(2) assms(2) by (simp add: tl_inside_def)
    moreover have "0 < length (snd (snd (ps ! j)))" using part_size [OF _ True] assms(1) by (auto simp: tl_parts_def)
    ultimately show ?thesis
      using t1(1) d d' Skip_valid [of ps j 0 ?t] by (fastforce simp: data_do_def tl_at_part_def)
  next
    case False
    then have j: "j = length ps" using blk.at_valid [OF assms(2)] by simp
    then have "tl_outside ps t1" using False t1(3,4) assms(2) by (simp add: tl_outside_def)
    then show ?thesis using t1 False Skip_outside [of ps t1] j by (auto simp: data_do_def tl_at_part_def)
  qed
qed

lemma SkipEmpty_spec:
  assumes t: "tl_parts bf ps t" "tl_inside ps j m t"
  shows "\<exists>t'. SkipEmptyDataBlocksForward le bf t = Some t' \<and> tl_at_part bf ps (length (part_entries (take j ps)) + m) t'"
proof (cases "m < length (snd (snd (ps ! j)))")
  case True
  then show ?thesis using Skip_valid [OF t(2) True] t by (auto simp: tl_at_part_def)
next
  case False
  obtain d where d: "data_iter t = Some d" "block_at (snd (snd (ps ! j))) m d" using t(2) by (auto simp: tl_inside_def)
  have j: "j < length ps" "block_at (index_entries ps) j (index_iter t)" using t(2) by (simp_all add: tl_inside_def)
  have m: "m = length (snd (snd (ps ! j)))" "\<not> tl_Valid t" using blk.at_valid [OF d(2)] False d(1) by (simp_all add: tl_Valid_def)
  have valid: "Valid (index_iter t)" using blk.at_valid [OF j(2)] j(1) by simp
  obtain i where i: "Next le (index_iter t) = Some i" "block_at (index_entries ps) (Suc j) i" using blk.at_step [OF j(2)] j(1) by auto
  obtain t1 t2 where "InitDataBlock bf (t\<lparr>index_iter := i\<rparr>) = Some t1" "data_do (SeekToFirst le) t1 = Some t2"
    "SkipEmptyDataBlocksForward le bf t2 = Some t2" "tl_at_part bf ps (length (part_entries (take (Suc j) ps))) t2"
    using enter_part [OF t(1) i(2)] by blast
  then show ?thesis
    using i(1) m valid part_nth(2) [OF j(1)] by (subst SkipEmptyDataBlocksForward.simps) simp
qed

subsection \<open>The interface\<close>

definition tl_over :: "(u8 list \<Rightarrow> iterator option) \<Rightarrow> entry list \<Rightarrow> two_level \<Rightarrow> bool" where
  "tl_over bf es t \<longleftrightarrow> (\<exists>ps. es = part_entries ps \<and> tl_parts bf ps t)"

definition tl_at :: "(u8 list \<Rightarrow> iterator option) \<Rightarrow> entry list \<Rightarrow> nat \<Rightarrow> two_level \<Rightarrow> bool" where
  "tl_at bf es n t \<longleftrightarrow> (\<exists>ps. es = part_entries ps \<and> tl_at_part bf ps n t)"

lemma tl_atI: "tl_at_part bf ps n t \<Longrightarrow> tl_at bf (part_entries ps) n t"
  by (auto simp: tl_at_def)

lemma tl_at_status: "tl_parts bf ps t \<Longrightarrow> two_level_status t = OK"
  by (auto simp: tl_parts_def two_level_status_def dest!: block_over_OK split: option.split)

lemma tl_Seek_spec:
  assumes t: "tl_parts bf ps t" and sorted: "keys_sorted (part_entries ps)"
  shows "\<exists>t'. tl_Seek le bf target t = Some t' \<and> tl_at_part bf ps (lower_bound target (part_entries ps)) t'"
proof -
  define j where "j = lower_bound target (index_entries ps)"
  have parts: "parts_ok ps []" using t by (simp add: tl_parts_def)
  note lb = lower_bound_parts [OF parts j_def]
  obtain i where i: "Seek le target (index_iter t) = Some i" "block_at (index_entries ps) j i"
    using blk.at_seek [of "index_entries ps" "index_iter t"] index_sorted [OF parts] t unfolding tl_parts_def j_def by blast
  obtain t1 where t1: "InitDataBlock bf (t\<lparr>index_iter := i\<rparr>) = Some t1" "tl_parts bf ps t1" "index_iter t1 = i"
    "if j < length ps then \<exists>d. data_iter t1 = Some d \<and> block_over (snd (snd (ps ! j))) d else data_iter t1 = None"
    using InitDataBlock_spec [OF t i(2)] by blast
  show ?thesis
  proof (cases "j < length ps")
    case True
    then obtain d where d: "data_iter t1 = Some d" "block_over (snd (snd (ps ! j))) d" using t1(4) by auto
    have "part_entries ps = part_entries (take j ps) @ snd (snd (ps ! j)) @ part_entries (drop (Suc j) ps)"
      using parts_simps(5) [of "take (Suc j) ps" "drop (Suc j) ps"] part_nth(2) [OF True] by simp
    then have "keys_sorted (snd (snd (ps ! j)))" using sorted unfolding keys_sorted_def by (simp add: sorted_wrt_append)
    then obtain d' where d': "Seek le target d = Some d'" "block_at (snd (snd (ps ! j))) (lower_bound target (snd (snd (ps ! j)))) d'"
      using blk.at_seek [OF d(2)] by blast
    let ?t = "t1\<lparr>data_iter := Some d'\<rparr>"
    have "tl_parts bf ps ?t" using tl_parts_data t1(2) d blk.at_over [OF d'(2)] by blast
    moreover have "tl_inside ps j (lower_bound target (snd (snd (ps ! j)))) ?t" using True t1(3) d'(2) i(2) by (simp add: tl_inside_def)
    ultimately obtain t' where "SkipEmptyDataBlocksForward le bf ?t = Some t'" "tl_at_part bf ps (lower_bound target (part_entries ps)) t'"
      using SkipEmpty_spec [of bf ps ?t j] True lb by fastforce
    then show ?thesis using i(1) t1(1) d(1) d'(1) by (simp add: tl_Seek_def data_do_def)
  next
    case False
    then have j: "j = length ps" using blk.at_valid [OF i(2)] by simp
    then have "tl_outside ps t1" using False t1(3,4) i(2) by (simp add: tl_outside_def)
    then show ?thesis using i(1) t1 False Skip_outside [of ps t1] j lb by (auto simp: tl_Seek_def data_do_def tl_at_part_def)
  qed
qed

interpretation tl: sorted_iterator tl_Valid tl_key tl_value "tl_Next le bf" "tl_Seek le bf" "tl_SeekToFirst le bf"
  "\<lambda>t. two_level_status t = OK" "tl_over bf" "tl_at bf" for le bf
proof
  fix es n t assume "tl_at bf es n t"
  then obtain ps where ps: "es = part_entries ps" "tl_parts bf ps t"
    "(\<exists>j m. tl_inside ps j m t \<and> m < length (snd (snd (ps ! j))) \<and> n = length (part_entries (take j ps)) + m) \<or>
      tl_outside ps t \<and> n = length (part_entries ps)"
    by (auto simp: tl_at_def tl_at_part_def)
  show "tl_over bf es t" using ps by (auto simp: tl_over_def)
  note ok = tl_at_status [OF ps(2)]
  have valid: "n \<le> length es \<and> (tl_Valid t \<longleftrightarrow> n < length es) \<and> two_level_status t = OK \<and>
      (n < length es \<longrightarrow> tl_key t = Some (fst (es ! n)) \<and> tl_value t = Some (snd (es ! n)) \<and> (\<exists>t'. tl_Next le bf t = Some t' \<and> tl_at bf es (Suc n) t'))" for le
    using ps(3)
  proof (elim disjE exE conjE)
    fix j m assume inside: "tl_inside ps j m t" and m: "m < length (snd (snd (ps ! j)))" and n: "n = length (part_entries (take j ps)) + m"
    obtain d where d: "data_iter t = Some d" "block_at (snd (snd (ps ! j))) m d" and j: "j < length ps" using inside by (auto simp: tl_inside_def)
    obtain d' where d': "Next le d = Some d'" "block_at (snd (snd (ps ! j))) (Suc m) d'" using blk.at_step [OF d(2) m] by blast
    let ?t = "t\<lparr>data_iter := Some d'\<rparr>"
    have "tl_parts bf ps ?t" using tl_parts_data ps(2) d(1) blk.at_over [OF d(2)] blk.at_over [OF d'(2)] by blast
    moreover have "tl_inside ps j (Suc m) ?t" using inside d'(2) by (simp add: tl_inside_def)
    ultimately obtain t' where "SkipEmptyDataBlocksForward le bf ?t = Some t'" "tl_at_part bf ps (Suc n) t'"
      using SkipEmpty_spec n by fastforce
    then show ?thesis
      using part_entry [OF j m] blk.at_valid [OF d(2)] blk.at_entry [OF d(2) m] ok n ps(1) d d' m
      by (auto simp: tl_Valid_def tl_key_def tl_value_def tl_Next_def intro: tl_atI)
  qed (use ok ps(1) in \<open>simp add: tl_outside_def tl_Valid_def\<close>)
  then show "n \<le> length es \<and> (tl_Valid t \<longleftrightarrow> n < length es) \<and> two_level_status t = OK" by blast
  show "n < length es \<Longrightarrow> tl_key t = Some (fst (es ! n)) \<and> tl_value t = Some (snd (es ! n))" using valid by blast
  show "n < length es \<Longrightarrow> \<exists>t'. tl_Next le bf t = Some t' \<and> tl_at bf es (Suc n) t'" using valid by blast
next
  fix es t assume "tl_over bf es t"
  then obtain ps where ps: "es = part_entries ps" "tl_parts bf ps t" by (auto simp: tl_over_def)
  obtain i where i: "SeekToFirst le (index_iter t) = Some i" "block_at (index_entries ps) 0 i"
    using blk.at_first [of "index_entries ps" "index_iter t" le] ps(2) unfolding tl_parts_def by blast
  then show "\<exists>t'. tl_SeekToFirst le bf t = Some t' \<and> tl_at bf es 0 t'"
    using enter_part [OF ps(2) i(2), of le] ps(1) by (auto simp: tl_SeekToFirst_def intro: tl_atI)
  show "\<exists>t'. tl_Seek le bf target t = Some t' \<and> tl_at bf es (lower_bound target es) t'" if "keys_sorted es" for target
    using tl_Seek_spec [OF ps(2)] that ps(1) tl_atI by blast
qed

end
