(* ===== verification/Tables.thy ===== *)
theory Tables
  imports TableFormat TwoLevel
begin

text \<open>
  Table files (\<open>core/lib/io/table_builder.cc\<close>, \<open>table.cc\<close>): sorted entries are written to blocks, an index block holds a separator and the handle
  of each, and the footer names the index. A file is written through \<open>Append\<close> and \<open>Flush\<close> on its state, and read through
  the interface of random access files.
\<close>

subsection \<open>Separators\<close>

definition FindShortestSeparator :: "u8 list \<Rightarrow> u8 list \<Rightarrow> u8 list" where
  "FindShortestSeparator start limit =
    (let min_length = min (length start) (length limit);
         diff_index = shared_loop min_length start limit
     in if diff_index \<ge> min_length then start
        else let diff_byte = start ! diff_index
          in if diff_byte < 0xff \<and> unat diff_byte + 1 < unat (limit ! diff_index) then take diff_index start @ [diff_byte + 1]
             else start)"

fun FindShortSuccessor :: "u8 list \<Rightarrow> u8 list" where
  "FindShortSuccessor [] = []"
| "FindShortSuccessor (byte # key) = (if byte \<noteq> 0xff then [byte + 1] else byte # FindShortSuccessor key)"

subsection \<open>Writing\<close>

record options =
  opt_block_size :: u64
  opt_restart_interval :: int
  opt_compression :: compression_type

record 'f table_env =
  env_le :: bool
  env_addr :: nat
  env_snappy :: "snappy option"
  env_Append :: "u8 list \<Rightarrow> 'f \<Rightarrow> file_status \<times> 'f"
  env_Flush :: "'f \<Rightarrow> file_status \<times> 'f"

record 'f table_builder =
  tb_options :: options
  index_block_options :: options
  tb_file :: 'f
  tb_offset :: u64
  tb_status :: io_status
  data_block :: builder
  index_block :: builder
  tb_last_key :: "u8 list"
  num_entries :: int
  tb_closed :: bool
  pending_index_entry :: bool
  pending_handle :: block_handle

definition file_ok :: "file_status \<Rightarrow> io_status" where
  "file_ok s = (if s = FileOK then OK else FileError s)"

definition TableBuilder :: "options \<Rightarrow> 'f \<Rightarrow> 'f table_builder" where
  "TableBuilder opts f = \<lparr>tb_options = opts, index_block_options = opts\<lparr>opt_restart_interval := 1\<rparr>, tb_file = f, tb_offset = 0,
     tb_status = OK, data_block = BlockBuilder, index_block = BlockBuilder, tb_last_key = [], num_entries = 0, tb_closed = False,
     pending_index_entry = False, pending_handle = BlockHandle\<rparr>"

definition tb_Append :: "'f table_env \<Rightarrow> u8 list \<Rightarrow> 'f table_builder \<Rightarrow> 'f table_builder" where
  "tb_Append env bs r = (let (s, f) = env_Append env bs (tb_file r) in r\<lparr>tb_status := file_ok s, tb_file := f\<rparr>)"

definition WriteRawBlock :: "'f table_env \<Rightarrow> u8 list \<Rightarrow> compression_type \<Rightarrow> 'f table_builder \<Rightarrow> block_handle \<times> 'f table_builder" where
  "WriteRawBlock env contents t r =
    (let h = \<lparr>handle_offset = tb_offset r, handle_size = word_of_nat (length contents)\<rparr>;
         r = tb_Append env contents r
     in if tb_status r \<noteq> OK then (h, r)
        else let crc = crc_Value (env_le env) (env_addr env) contents;
                 crc = crc_Extend (env_le env) (env_addr env) crc [type_byte t];
                 r = tb_Append env (type_byte t # EncodeFixed32 (env_le env) (Mask crc)) r
          in (h, if tb_status r = OK then r\<lparr>tb_offset := tb_offset r + word_of_nat (length contents + kBlockTrailerSize)\<rparr> else r))"

text \<open>The handle, and the block reset.\<close>

definition WriteBlock :: "'f table_env \<Rightarrow> builder \<Rightarrow> 'f table_builder \<Rightarrow> block_handle \<times> builder \<times> 'f table_builder" where
  "WriteBlock env b r =
    (let (raw, b) = Finish (env_le env) b;
         (contents, t) =
           (case opt_compression (tb_options r) of
              NoCompression \<Rightarrow> (raw, NoCompression)
            | SnappyCompression \<Rightarrow>
                (case Snappy_Compress (env_snappy env) raw of
                   Some compressed \<Rightarrow>
                     if length compressed < length raw - length raw div 8 then (compressed, SnappyCompression) else (raw, NoCompression)
                 | None \<Rightarrow> (raw, NoCompression)));
         (h, r) = WriteRawBlock env contents t r
     in (h, Reset b, r))"

definition tb_Flush :: "'f table_env \<Rightarrow> 'f table_builder \<Rightarrow> 'f table_builder" where
  "tb_Flush env r =
    (if tb_status r \<noteq> OK then r
     else if buffer (data_block r) = [] then r
     else let (h, b, r) = WriteBlock env (data_block r) r;
              r = r\<lparr>pending_handle := h, data_block := b\<rparr>
       in if tb_status r = OK then
            let (s, f) = env_Flush env (tb_file r)
            in r\<lparr>pending_index_entry := True, tb_status := file_ok s, tb_file := f\<rparr>
          else r)"

definition add_index_entry :: "u8 list \<Rightarrow> 'f table_builder \<Rightarrow> 'f table_builder" where
  "add_index_entry separator r =
     r\<lparr>tb_last_key := separator,
       index_block := Add (opt_restart_interval (index_block_options r)) separator (handle_EncodeTo (pending_handle r) []) (index_block r),
       pending_index_entry := False\<rparr>"

definition tb_Add :: "'f table_env \<Rightarrow> u8 list \<Rightarrow> u8 list \<Rightarrow> 'f table_builder \<Rightarrow> 'f table_builder" where
  "tb_Add env key value r =
    (if tb_status r \<noteq> OK then r
     else let r = (if num_entries r > 0 \<and> 2 * opt_block_size (tb_options r) \<le> word_of_nat (length key + length value) then tb_Flush env r else r);
              r = (if pending_index_entry r then add_index_entry (FindShortestSeparator (tb_last_key r) key) r else r);
              r = r\<lparr>tb_last_key := key, num_entries := num_entries r + 1,
                    data_block := Add (opt_restart_interval (tb_options r)) key value (data_block r)\<rparr>
       in if opt_block_size (tb_options r) \<le> word_of_nat (CurrentSizeEstimate (data_block r)) then tb_Flush env r else r)"

definition finish_metaindex :: "'f table_env \<Rightarrow> 'f table_builder \<Rightarrow> block_handle \<times> 'f table_builder" where
  "finish_metaindex env r =
    (if tb_status r = OK then let (h, b, r) = WriteBlock env BlockBuilder r in (h, r) else (BlockHandle, r))"

definition finish_index :: "'f table_env \<Rightarrow> 'f table_builder \<Rightarrow> block_handle \<times> 'f table_builder" where
  "finish_index env r =
    (if tb_status r = OK then
       let r = (if pending_index_entry r then add_index_entry (FindShortSuccessor (tb_last_key r)) r else r);
           (h, b, r) = WriteBlock env (index_block r) r
       in (h, r\<lparr>index_block := b\<rparr>)
     else (BlockHandle, r))"

definition finish_footer :: "'f table_env \<Rightarrow> footer \<Rightarrow> 'f table_builder \<Rightarrow> 'f table_builder" where
  "finish_footer env ft r =
    (if tb_status r = OK then
       let footer_encoding = footer_EncodeTo (env_le env) ft [];
           r = tb_Append env footer_encoding r
       in if tb_status r = OK then r\<lparr>tb_offset := tb_offset r + word_of_nat (length footer_encoding)\<rparr> else r
     else r)"

definition tb_Finish :: "'f table_env \<Rightarrow> 'f table_builder \<Rightarrow> io_status \<times> 'f table_builder" where
  "tb_Finish env r =
    (let r = (tb_Flush env r)\<lparr>tb_closed := True\<rparr>;
         (metaindex, r) = finish_metaindex env r;
         (index, r) = finish_index env r;
         r = finish_footer env \<lparr>metaindex_handle = metaindex, index_handle = index\<rparr> r
     in (tb_status r, r))"

definition Abandon :: "'f table_builder \<Rightarrow> 'f table_builder" where
  "Abandon r = r\<lparr>tb_closed := True\<rparr>"

definition NumEntries :: "'f table_builder \<Rightarrow> u64" where
  "NumEntries r = word_of_int (num_entries r)"

definition FileSize :: "'f table_builder \<Rightarrow> u64" where
  "FileSize r = tb_offset r"

subsection \<open>Reading\<close>

record reader =
  rd_le :: bool
  rd_addr :: nat
  rd_snappy :: "snappy option"
  rd_mapped :: bool
  rd_Read :: file_read

record table =
  table_metaindex :: block_handle
  table_index :: block

definition rd_ReadBlock :: "reader \<Rightarrow> block_handle \<Rightarrow> (io_status + block_contents) option" where
  "rd_ReadBlock rf = ReadBlock (rd_le rf) (rd_addr rf) (rd_snappy rf) (rd_mapped rf) (rd_Read rf)"

definition Table_Open :: "reader \<Rightarrow> u64 \<Rightarrow> (io_status + table) option" where
  "Table_Open rf sz =
    (if sz < word_of_nat kEncodedLength then Some (Inl (DataLoss ''file is too short to be an sstable''))
     else case rd_Read rf (sz - word_of_nat kEncodedLength) kEncodedLength of
       (s, footer_input) \<Rightarrow>
         if s \<noteq> FileOK then Some (Inl (FileError s))
         else do {
           footer \<leftarrow> footer_DecodeFrom (rd_le rf) footer_input;
           (case footer of
              Inl s \<Rightarrow> Some (Inl s)
            | Inr (footer, rest) \<Rightarrow> do {
                contents \<leftarrow> rd_ReadBlock rf (index_handle footer);
                (case contents of
                   Inl s \<Rightarrow> Some (Inl s)
                 | Inr bc \<Rightarrow> do {
                     b \<leftarrow> Block (rd_le rf) (contents_data bc);
                     Some (Inr \<lparr>table_metaindex = metaindex_handle footer, table_index = b\<rparr>) }) }) })"

definition BlockReader :: "reader \<Rightarrow> u8 list \<Rightarrow> iterator option" where
  "BlockReader rf index_value =
    (case handle_DecodeFrom index_value of
       Inl s \<Rightarrow> Some (EmptyIterator s)
     | Inr (h, rest) \<Rightarrow> do {
         contents \<leftarrow> rd_ReadBlock rf h;
         (case contents of
            Inl s \<Rightarrow> Some (EmptyIterator s)
          | Inr bc \<Rightarrow> do {
              b \<leftarrow> Block (rd_le rf) (contents_data bc);
              NewIterator (rd_le rf) b }) })"

definition Table_NewIterator :: "reader \<Rightarrow> table \<Rightarrow> two_level option" where
  "Table_NewIterator rf t = map_option TwoLevelIterator (NewIterator (rd_le rf) (table_index t))"

text \<open>The status, and what the saver is called with.\<close>

definition InternalGet :: "reader \<Rightarrow> u8 list \<Rightarrow> table \<Rightarrow> (io_status \<times> entry option) option" where
  "InternalGet rf k t = do {
     iiter \<leftarrow> NewIterator (rd_le rf) (table_index t);
     iiter \<leftarrow> Seek (rd_le rf) k iiter;
     (s, saved) \<leftarrow>
       (if Valid iiter then do {
          v \<leftarrow> it_value iiter;
          block_iter \<leftarrow> BlockReader rf v;
          block_iter \<leftarrow> Seek (rd_le rf) k block_iter;
          saved \<leftarrow>
            (if Valid block_iter then do {
               key \<leftarrow> it_key block_iter;
               val \<leftarrow> it_value block_iter;
               Some (Some (key, val)) }
             else Some None);
          Some (iterator_status block_iter, saved) }
        else Some (OK, None));
     Some (if s = OK then iterator_status iiter else s, saved) }"

definition ApproximateOffsetOf :: "reader \<Rightarrow> u8 list \<Rightarrow> table \<Rightarrow> u64 option" where
  "ApproximateOffsetOf rf key t = do {
     index_iter \<leftarrow> NewIterator (rd_le rf) (table_index t);
     index_iter \<leftarrow> Seek (rd_le rf) key index_iter;
     if Valid index_iter then do {
       input \<leftarrow> it_value index_iter;
       Some (case handle_DecodeFrom input of Inr (h, rest) \<Rightarrow> handle_offset h | Inl s \<Rightarrow> handle_offset (table_metaindex t)) }
     else Some (handle_offset (table_metaindex t)) }"

end
