(* ===== verification/TableWrite.thy ===== *)
theory TableWrite
  imports Tables
begin

text \<open>What a table builder writes: the blocks and the index of the entries added so far, as an invariant that every operation keeps.\<close>

subsection \<open>Separators\<close>

lemma shared_loop_stop:
  "n = shared_loop (min (length as) (length bs)) as bs \<Longrightarrow> n < min (length as) (length bs) \<Longrightarrow> as ! n \<noteq> bs ! n"
proof (induction as bs arbitrary: n rule: list_induct2')
  case (4 a as b bs)
  then show ?case by (cases "a = b") auto
qed auto

lemma separator_bounds:
  assumes "start < limit" "sep = FindShortestSeparator start limit"
  shows "\<not> sep < start" "sep < limit" "length sep \<le> length start"
proof -
  define n where "n = shared_loop (min (length start) (length limit)) start limit"
  consider "sep = start" | "n < min (length start) (length limit)" "sep = take n start @ [start ! n + 1]" "unat (start ! n) + 1 < unat (limit ! n)" "start ! n < 0xff"
    using assms(2) by (fastforce simp: FindShortestSeparator_def Let_def n_def split: if_splits)
  then have "\<not> sep < start \<and> sep < limit \<and> length sep \<le> length start"
  proof cases
    case 1
    then show ?thesis using assms(1) by simp
  next
    case 2
    have n: "n < length start" "n < length limit" using 2(1) by simp_all
    have u: "unat (start ! n + 1) = unat (start ! n) + 1" using 2(3) unsigned_less [of "limit ! n", where 'a = nat] by (simp add: unat_word_ariths)
    have start: "start = take n start @ start ! n # drop (Suc n) start" using n by (simp add: id_take_nth_drop)
    have limit: "limit = take n start @ limit ! n # drop (Suc n) limit"
      using n shared_loop_take [of "min (length start) (length limit)" start limit] id_take_nth_drop [OF n(2)] by (simp add: n_def)
    have "start < sep" using diverge_less [OF divergeI [of "start ! n" "start ! n + 1" "take n start" "drop (Suc n) start" "[]"]] u
      by (simp add: 2(2) word_less_nat_alt start [symmetric])
    moreover have "sep < limit" using diverge_less [OF divergeI [of "start ! n + 1" "limit ! n" "take n start" "[]" "drop (Suc n) limit"]] u 2(3)
      by (simp add: 2(2) word_less_nat_alt limit [symmetric])
    ultimately show ?thesis using n by (auto simp: 2(2))
  qed
  then show "\<not> sep < start" "sep < limit" "length sep \<le> length start" by blast+
qed

lemma successor_bounds: "\<not> FindShortSuccessor key < key" "length (FindShortSuccessor key) \<le> length key"
proof -
  have "\<not> FindShortSuccessor key < key \<and> length (FindShortSuccessor key) \<le> length key"
  proof (induction key)
    case (Cons b key)
    have "b < b + 1" if "b \<noteq> 0xff"
    proof -
      have "unat b \<noteq> 255" using that by (simp add: word_unat_eq_iff)
      then have "unat (b + 1) = unat b + 1" using unsigned_less [of b, where 'a = nat] by (simp add: unat_word_ariths)
      then show ?thesis by (simp add: word_less_nat_alt)
    qed
    then show ?case using Cons by auto
  qed simp
  then show "\<not> FindShortSuccessor key < key" "length (FindShortSuccessor key) \<le> length key" by blast+
qed

subsection \<open>Sizes\<close>

definition entries_weight :: "entry list \<Rightarrow> nat" where
  "entries_weight es = sum_list (map (\<lambda>(k, v). length k + length v + 40) es)"

lemma length_EncodeVarint32: "length (EncodeVarint32 v) \<le> 5"
proof -
  have "unat (ucast v :: u64) < 2 ^ 35" using unsigned_less [of v, where 'a = nat] by (simp add: unat_ucast_up)
  then show ?thesis using length_EncodeVarint64 [of "ucast v" 5] by (simp add: EncodeVarint32_eq)
qed

lemma raw_size:
  assumes "builder_ok b es ss rs"
  shows "length (fst (Finish le b)) \<le> sum_list (map (\<lambda>(k, v). length k + length v + 19) es) + 8"
proof -
  have ok: "shares_ok es ss" "points_ok es ss rs" using assms by (simp_all add: builder_ok_def)
  have len: "length ss = length es" using ok by (simp add: shares_ok_def)
  have "length (entry_bytes s k v) \<le> length k + length v + 15" if "s \<le> length k" for s k v
    using length_EncodeVarint32 [of "word_of_nat s"] length_EncodeVarint32 [of "word_of_nat (length k - s)"] length_EncodeVarint32 [of "word_of_nat (length v)"]
    by (simp add: entry_bytes_def entry_header_def)
  then have "length (chunks es ss ! i) \<le> length (fst (es ! i)) + length (snd (es ! i)) + 15" if "i < length es" for i
    using that ok(1) by (simp add: chunks_nth len shares_ok_def)
  then have "length (concat (chunks es ss)) \<le> sum_list (map (\<lambda>(k, v). length k + length v + 15) es)"
    unfolding length_concat using len by (intro sum_list_mono2) (simp_all add: split_beta)
  moreover have "length rs \<le> Suc (length es)" using ok(2) by (simp add: points_ok_def)
  moreover have "sum_list (map (\<lambda>(k, v). length k + length v + 19) es) = sum_list (map (\<lambda>(k, v). length k + length v + 15) es) + 4 * length es"
    by (induction es) auto
  ultimately show ?thesis unfolding Finish_bytes [OF assms] by (simp add: block_bytes_def)
qed

lemma raw_size_weight: "builder_ok b es ss rs \<Longrightarrow> length (fst (Finish le b)) \<le> entries_weight es + 8"
proof -
  have "sum_list (map (\<lambda>(k, v). length k + length v + 19) es) \<le> entries_weight es"
    unfolding entries_weight_def by (rule sum_list_mono) auto
  then show "builder_ok b es ss rs \<Longrightarrow> length (fst (Finish le b)) \<le> entries_weight es + 8" using raw_size [of b es ss rs le] by linarith
qed

lemma builder_empty: "builder_ok b es ss rs \<Longrightarrow> buffer b = [] \<longleftrightarrow> es = []"
proof (cases es)
  case (Cons e es')
  assume ok: "builder_ok b es ss rs"
  then obtain s ss' where "ss = s # ss'" using Cons by (cases ss) (simp_all add: builder_ok_def shares_ok_def)
  then show ?thesis using ok Cons entry_header_nonempty [of s "fst e" "snd e"]
    by (auto simp: builder_ok_def chunks_def entry_bytes_def split_beta)
qed (simp add: builder_ok_def chunks_def)

subsection \<open>Writing a block\<close>

text \<open>Files that accept everything.\<close>

definition writable :: "'f table_env \<Rightarrow> ('f \<Rightarrow> u8 list) \<Rightarrow> bool" where
  "writable env bytes_of \<longleftrightarrow> accepts bytes_of (env_Append env) \<and>
     (\<forall>f. fst (env_Flush env f) = FileOK \<and> bytes_of (snd (env_Flush env f)) = bytes_of f)"

text \<open>The file holds the block of some entries where the handle says.\<close>

definition stored_at :: "snappy option \<Rightarrow> u8 list \<Rightarrow> block_handle \<Rightarrow> entry list \<Rightarrow> bool" where
  "stored_at lib F h es \<longleftrightarrow> (\<exists>before after stored t le b ss rs. F = before @ block_file_bytes stored t @ after \<and>
     h = \<lparr>handle_offset = word_of_nat (length before), handle_size = word_of_nat (length stored)\<rparr> \<and> builder_ok b es ss rs \<and>
     (length (fst (Finish le b)) < 2 ^ 32 \<longrightarrow> stored_block lib t stored (fst (Finish le b))))"

lemma stored_at_append: "stored_at lib F h es \<Longrightarrow> stored_at lib (F @ bs) h es"
  unfolding stored_at_def by (metis append.assoc)

lemma tb_Append_eq:
  assumes "writable env bytes_of" "tb_status r = OK"
  shows "\<exists>f. tb_Append env bs r = r\<lparr>tb_file := f\<rparr> \<and> bytes_of f = bytes_of (tb_file r) @ bs"
proof -
  obtain s f where "env_Append env bs (tb_file r) = (s, f)" by fastforce
  moreover from this have "s = FileOK" "bytes_of f = bytes_of (tb_file r) @ bs"
    using assms(1) unfolding writable_def accepts_def by (metis fst_conv, metis snd_conv)
  moreover have "r\<lparr>tb_status := OK, tb_file := f\<rparr> = r\<lparr>tb_file := f\<rparr>" using assms(2) by (cases r) simp
  ultimately show ?thesis by (auto simp: tb_Append_def file_ok_def)
qed

lemma WriteRawBlock_eq:
  assumes "writable env bytes_of" "tb_status r = OK" "tb_offset r = word_of_nat (length (bytes_of (tb_file r)))"
  shows "\<exists>f. WriteRawBlock env contents t r = (\<lparr>handle_offset = tb_offset r, handle_size = word_of_nat (length contents)\<rparr>,
      r\<lparr>tb_file := f, tb_offset := word_of_nat (length (bytes_of f))\<rparr>) \<and> bytes_of f = bytes_of (tb_file r) @ block_file_bytes contents t"
proof -
  obtain f where f: "tb_Append env contents r = r\<lparr>tb_file := f\<rparr>" "bytes_of f = bytes_of (tb_file r) @ contents"
    using tb_Append_eq [OF assms(1,2)] by blast
  let ?trailer = "type_byte t # EncodeFixed32 (env_le env) (Mask (crc32c 0 (contents @ [type_byte t])))"
  obtain g where g: "tb_Append env ?trailer (r\<lparr>tb_file := f\<rparr>) = r\<lparr>tb_file := g\<rparr>" "bytes_of g = bytes_of f @ ?trailer"
    using tb_Append_eq [OF assms(1), of "r\<lparr>tb_file := f\<rparr>" ?trailer] assms(2) by auto
  have "crc_Extend (env_le env) (env_addr env) (crc_Value (env_le env) (env_addr env) contents) [type_byte t] = crc32c 0 (contents @ [type_byte t])"
    by (simp add: crc_Value_def crc_Extend_eq crc32c_append)
  moreover have "block_file_bytes contents t = contents @ ?trailer"
    by (simp add: block_file_bytes_def checked_def EncodeFixed_le(1) [of "env_le env"])
  ultimately show ?thesis using f g assms(2,3)
    by (intro exI [of _ g]) (simp add: WriteRawBlock_def Let_def kBlockTrailerSize_def add.assoc)
qed

lemma WriteBlock_eq:
  assumes w: "writable env bytes_of" and r: "tb_status r = OK" "tb_offset r = word_of_nat (length (bytes_of (tb_file r)))"
    and lib: "compression (Snappy_Compress (env_snappy env)) (Snappy_GetUncompressedLength (env_snappy env)) (Snappy_Uncompress (env_snappy env))"
    and b: "builder_ok b es ss rs"
  shows "\<exists>h b' f bs. WriteBlock env b r = (h, b', r\<lparr>tb_file := f, tb_offset := word_of_nat (length (bytes_of f))\<rparr>) \<and>
    builder_ok b' [] [] [0] \<and> bytes_of f = bytes_of (tb_file r) @ bs \<and> stored_at (env_snappy env) (bytes_of f) h es"
proof -
  obtain raw b1 where fin: "Finish (env_le env) b = (raw, b1)" by fastforce
  obtain contents t where c: "(case opt_compression (tb_options r) of NoCompression \<Rightarrow> (raw, NoCompression)
      | SnappyCompression \<Rightarrow> (case Snappy_Compress (env_snappy env) raw of
          Some compressed \<Rightarrow> if length compressed < length raw - length raw div 8 then (compressed, SnappyCompression) else (raw, NoCompression)
        | None \<Rightarrow> (raw, NoCompression))) = (contents, t)" by fastforce
  have stored: "stored_block (env_snappy env) t contents raw" if "length raw < 2 ^ 32"
    using c stored_block_Compress [OF lib _ that] by (auto simp: stored_block_def split: compression_type.splits option.splits if_splits)
  obtain f where f: "WriteRawBlock env contents t r = (\<lparr>handle_offset = tb_offset r, handle_size = word_of_nat (length contents)\<rparr>,
      r\<lparr>tb_file := f, tb_offset := word_of_nat (length (bytes_of f))\<rparr>)" "bytes_of f = bytes_of (tb_file r) @ block_file_bytes contents t"
    using WriteRawBlock_eq [OF w r] by blast
  have "stored_at (env_snappy env) (bytes_of f) \<lparr>handle_offset = tb_offset r, handle_size = word_of_nat (length contents)\<rparr> es"
    unfolding stored_at_def using f(2) r(2) b stored fin
    by (intro exI [of _ "bytes_of (tb_file r)"] exI [of _ "[]"] exI [of _ contents] exI [of _ t] exI [of _ "env_le env"] exI [of _ b] exI [of _ ss] exI [of _ rs]) simp
  moreover have "WriteBlock env b r = (\<lparr>handle_offset = tb_offset r, handle_size = word_of_nat (length contents)\<rparr>, Reset b1,
      r\<lparr>tb_file := f, tb_offset := word_of_nat (length (bytes_of f))\<rparr>)"
    using fin c f(1) by (simp add: WriteBlock_def)
  ultimately show ?thesis using f(2) builder_init(2) [of b1] by blast
qed

subsection \<open>The invariant\<close>

text \<open>The blocks written and listed in the index (\<open>ps\<close>), the block written but not yet listed (\<open>pend\<close>), and the entries of the block
  that is being built (\<open>cur\<close>).\<close>

definition part_stored :: "snappy option \<Rightarrow> u8 list \<Rightarrow> part \<Rightarrow> bool" where
  "part_stored lib F = (\<lambda>(sep, h, seg). (\<exists>h'. h = handle_bytes h' \<and> stored_at lib F h' seg) \<and> length sep \<le> length (fst (last seg)))"

definition tb_inv :: "'f table_env \<Rightarrow> ('f \<Rightarrow> u8 list) \<Rightarrow> part list \<Rightarrow> entry list \<Rightarrow> entry list \<Rightarrow> 'f table_builder \<Rightarrow> bool" where
  "tb_inv env bytes_of ps pend cur r \<longleftrightarrow> tb_status r = OK \<and> tb_offset r = word_of_nat (length (bytes_of (tb_file r))) \<and>
     (\<exists>ss rs. builder_ok (data_block r) cur ss rs) \<and> (\<exists>ss rs. builder_ok (index_block r) (index_entries ps) ss rs) \<and>
     parts_ok ps (pend @ cur) \<and> (pending_index_entry r \<longleftrightarrow> pend \<noteq> []) \<and>
     (pend \<noteq> [] \<longrightarrow> cur = [] \<and> stored_at (env_snappy env) (bytes_of (tb_file r)) (pending_handle r) pend) \<and>
     (\<forall>p\<in>set ps. part_stored (env_snappy env) (bytes_of (tb_file r)) p) \<and>
     (pend @ cur = [] \<longrightarrow> ps = []) \<and> (pend @ cur \<noteq> [] \<longrightarrow> tb_last_key r = fst (last (pend @ cur))) \<and>
     num_entries r = int (length (part_entries ps @ pend @ cur))"

lemma part_stored_append: "part_stored lib F p \<Longrightarrow> part_stored lib (F @ bs) p"
  by (auto simp: part_stored_def intro: stored_at_append)

lemma keys_sorted_append: "keys_sorted (xs @ ys) \<longleftrightarrow> keys_sorted xs \<and> keys_sorted ys \<and> (\<forall>x\<in>set xs. \<forall>y\<in>set ys. fst x < fst y)"
  by (simp add: keys_sorted_def sorted_wrt_append)

lemma keys_sorted_last: "keys_sorted xs \<Longrightarrow> e \<in> set xs \<Longrightarrow> \<not> fst (last xs) < fst e"
  by (induction xs rule: rev_induct) (auto simp: keys_sorted_append)

lemma parts_ok_snoc: "parts_ok ps behind \<Longrightarrow> behind \<noteq> [] \<Longrightarrow> fst (last behind) < k \<Longrightarrow> parts_ok ps (behind @ [(k, v)])"
proof (induction ps)
  case (Cons p ps)
  then show ?case using less_trans [OF _ Cons.prems(3), of "fst p"] last_in_set [OF Cons.prems(2)] by (cases p) auto
qed simp

lemma tb_init: "bytes_of f = [] \<Longrightarrow> tb_inv env bytes_of [] [] [] (TableBuilder opts f)"
  using builder_init(1) by (fastforce simp: tb_inv_def TableBuilder_def)

lemma tb_Flush_inv:
  assumes w: "writable env bytes_of" and inv: "tb_inv env bytes_of ps pend cur r"
    and lib: "compression (Snappy_Compress (env_snappy env)) (Snappy_GetUncompressedLength (env_snappy env)) (Snappy_Uncompress (env_snappy env))"
  shows "tb_inv env bytes_of ps (pend @ cur) [] (tb_Flush env r)"
proof -
  obtain ss rs where b: "builder_ok (data_block r) cur ss rs" using inv by (auto simp: tb_inv_def)
  show ?thesis
  proof (cases "cur = []")
    case True
    then show ?thesis using inv builder_empty [OF b] by (simp add: tb_Flush_def)
  next
    case False
    then have pend: "pend = []" using inv by (auto simp: tb_inv_def)
    have r: "tb_status r = OK" "tb_offset r = word_of_nat (length (bytes_of (tb_file r)))" using inv by (simp_all add: tb_inv_def)
    obtain h b' f bs where wb: "WriteBlock env (data_block r) r = (h, b', r\<lparr>tb_file := f, tb_offset := word_of_nat (length (bytes_of f))\<rparr>)"
      "builder_ok b' [] [] [0]" "bytes_of f = bytes_of (tb_file r) @ bs" "stored_at (env_snappy env) (bytes_of f) h cur"
      using WriteBlock_eq [OF w r lib b] by blast
    obtain g where g: "env_Flush env f = (FileOK, g)" "bytes_of g = bytes_of f" using w unfolding writable_def by (metis prod.collapse)
    have "tb_Flush env r = r\<lparr>tb_file := g, tb_offset := word_of_nat (length (bytes_of g)), pending_handle := h, data_block := b',
        pending_index_entry := True, tb_status := OK\<rparr>"
      using r(1) builder_empty [OF b] False wb(1) g by (simp add: tb_Flush_def file_ok_def)
    moreover have "part_stored (env_snappy env) (bytes_of g) p" if "p \<in> set ps" for p
      using inv that part_stored_append by (auto simp: tb_inv_def wb(3) g(2))
    ultimately show ?thesis using inv pend False wb(2,4) g(2) by (auto simp: tb_inv_def)
  qed
qed

lemma add_index_entry_inv:
  assumes inv: "tb_inv env bytes_of ps pend cur r" and pend: "pend \<noteq> []" and sorted: "keys_sorted pend"
    and sep: "\<not> sep < tb_last_key r" "length sep \<le> length (tb_last_key r)"
  shows "\<exists>p. snd (snd p) = pend \<and> fst p = sep \<and> parts_ok ps (pend @ []) \<and> parts_ok [p] [] \<and> (\<exists>ss rs. builder_ok (index_block (add_index_entry sep r)) (index_entries (ps @ [p])) ss rs) \<and>
    part_stored (env_snappy env) (bytes_of (tb_file r)) p"
proof -
  have cur: "cur = []" and last: "tb_last_key r = fst (last pend)" using inv pend by (auto simp: tb_inv_def)
  let ?p = "(sep, handle_bytes (pending_handle r), pend)"
  have stored: "stored_at (env_snappy env) (bytes_of (tb_file r)) (pending_handle r) pend" using inv pend by (simp add: tb_inv_def)
  have "\<not> sep < fst e" if "e \<in> set pend" for e
    using sep(1) keys_sorted_last [OF sorted that] last less_le_trans [of sep "fst e" "fst (last pend)"] by (auto simp: not_less)
  then have "parts_ok [?p] []" using pend by simp
  moreover have "part_stored (env_snappy env) (bytes_of (tb_file r)) ?p"
    unfolding part_stored_def using stored last sep(2) by auto
  moreover obtain ss rs where "builder_ok (index_block r) (index_entries ps) ss rs" using inv by (auto simp: tb_inv_def)
  from Add_builder [OF this, of _ sep "handle_bytes (pending_handle r)"]
  have "\<exists>ss rs. builder_ok (index_block (add_index_entry sep r)) (index_entries (ps @ [?p])) ss rs"
    unfolding add_index_entry_def handle_EncodeTo_eq by simp blast
  ultimately show ?thesis using inv cur by (intro exI [of _ ?p]) (simp add: tb_inv_def)
qed

lemma tb_Add_entry:
  assumes inv: "tb_inv env bytes_of ps pend cur r" and sorted: "keys_sorted (pend @ cur @ [(key, val)])"
    and r1: "r1 = (if pending_index_entry r then add_index_entry (FindShortestSeparator (tb_last_key r) key) r else r)"
    and r2: "r2 = r1\<lparr>tb_last_key := key, num_entries := num_entries r1 + 1, data_block := Add interval key val (data_block r1)\<rparr>"
  shows "\<exists>ps' cur'. tb_inv env bytes_of ps' [] cur' r2 \<and> part_entries ps' @ cur' = part_entries ps @ pend @ cur @ [(key, val)]"
proof -
  have grows: "fst (last (pend @ cur)) < key" if "pend @ cur \<noteq> []"
    using sorted last_in_set [OF that] keys_sorted_append [of "pend @ cur" "[(key, val)]"] by simp
  have data: "\<exists>ss rs. builder_ok (data_block r2) (cur @ [(key, val)]) ss rs"
  proof -
    obtain ss rs where "builder_ok (data_block r) cur ss rs" using inv by (auto simp: tb_inv_def)
    from Add_builder [OF this, of interval key val] show ?thesis by (auto simp: r1 r2 add_index_entry_def)
  qed
  show ?thesis
  proof (cases "pend = []")
    case True
    then have eq: "r1 = r" using inv by (simp add: r1 tb_inv_def)
    have "parts_ok ps (cur @ [(key, val)])"
      using inv True parts_ok_snoc [of ps cur key val] grows by (cases "cur = []") (auto simp: tb_inv_def)
    then have "tb_inv env bytes_of ps [] (cur @ [(key, val)]) r2" using inv True data by (simp add: tb_inv_def r2 eq)
    then show ?thesis using True by fastforce
  next
    case False
    then have cur: "cur = []" and pending: "pending_index_entry r" and last: "tb_last_key r = fst (last pend)" using inv by (auto simp: tb_inv_def)
    note sep = separator_bounds [OF _ refl, of "tb_last_key r" key]
    have less: "tb_last_key r < key" using grows False cur last by simp
    have r1': "r1 = add_index_entry (FindShortestSeparator (tb_last_key r) key) r" using pending by (simp add: r1)
    have "keys_sorted pend" using sorted by (simp add: keys_sorted_append)
    then obtain p where p: "snd (snd p) = pend" "fst p = FindShortestSeparator (tb_last_key r) key" "parts_ok ps (pend @ [])" "parts_ok [p] []"
      "\<exists>ss rs. builder_ok (index_block r1) (index_entries (ps @ [p])) ss rs" "part_stored (env_snappy env) (bytes_of (tb_file r)) p"
      using add_index_entry_inv [OF inv False _ sep(1,3) [OF less]] unfolding r1' by blast
    obtain sep' h seg where p3: "p = (sep', h, seg)" by (metis prod_cases3)
    have "parts_ok (ps @ [p]) [(key, val)]"
      using parts_ok_snoc [OF p(3), of key val] False less last p(1,2,4) sep(2) [OF less] by (simp add: parts_ok_append p3)
    then have "tb_inv env bytes_of (ps @ [p]) [] [(key, val)] r2"
      using inv p(1,5,6) data cur pending by (auto simp: tb_inv_def r2 r1 add_index_entry_def p3)
    then show ?thesis using p(1) cur by (fastforce simp: p3)
  qed
qed

lemma tb_Add_inv:
  assumes w: "writable env bytes_of" and inv: "tb_inv env bytes_of ps pend cur r"
    and lib: "compression (Snappy_Compress (env_snappy env)) (Snappy_GetUncompressedLength (env_snappy env)) (Snappy_Uncompress (env_snappy env))"
    and sorted: "keys_sorted (part_entries ps @ pend @ cur @ [(key, val)])"
  shows "\<exists>ps' pend' cur'. tb_inv env bytes_of ps' pend' cur' (tb_Add env key val r) \<and>
    part_entries ps' @ pend' @ cur' = part_entries ps @ pend @ cur @ [(key, val)]"
proof -
  define r0 where "r0 = (if num_entries r > 0 \<and> 2 * opt_block_size (tb_options r) \<le> word_of_nat (length key + length val) then tb_Flush env r else r)"
  define r1 where "r1 = (if pending_index_entry r0 then add_index_entry (FindShortestSeparator (tb_last_key r0) key) r0 else r0)"
  define r2 where "r2 = r1\<lparr>tb_last_key := key, num_entries := num_entries r1 + 1,
    data_block := Add (opt_restart_interval (tb_options r1)) key val (data_block r1)\<rparr>"
  have add: "tb_Add env key val r = (if opt_block_size (tb_options r2) \<le> word_of_nat (CurrentSizeEstimate (data_block r2)) then tb_Flush env r2 else r2)"
    using inv by (simp add: tb_Add_def Let_def tb_inv_def r2_def r1_def r0_def)
  obtain pend0 cur0 where inv0: "tb_inv env bytes_of ps pend0 cur0 r0" "pend0 @ cur0 = pend @ cur"
  proof (cases "r0 = r")
    case True
    then show thesis using that inv by simp
  next
    case False
    then have "r0 = tb_Flush env r" by (simp add: r0_def split: if_splits)
    then show thesis using that [of "pend @ cur" "[]"] tb_Flush_inv [OF w inv lib] by simp
  qed
  have "pend0 @ cur0 @ [(key, val)] = pend @ cur @ [(key, val)]" using inv0(2) by (metis append.assoc)
  then have same: "keys_sorted (pend0 @ cur0 @ [(key, val)])" "part_entries ps @ pend0 @ cur0 @ [(key, val)] = part_entries ps @ pend @ cur @ [(key, val)]"
    using sorted keys_sorted_append [of "part_entries ps"] by (metis, simp)
  obtain ps' cur' where inv': "tb_inv env bytes_of ps' [] cur' r2" "part_entries ps' @ cur' = part_entries ps @ pend @ cur @ [(key, val)]"
    using tb_Add_entry [OF inv0(1) same(1) r1_def r2_def] same(2) by auto
  show ?thesis
  proof (cases "opt_block_size (tb_options r2) \<le> word_of_nat (CurrentSizeEstimate (data_block r2))")
    case True
    then show ?thesis using inv'(2) tb_Flush_inv [OF w inv'(1) lib] unfolding add
      by (intro exI [of _ ps'] exI [of _ cur'] exI [of _ "[]"]) simp
  next
    case False
    then show ?thesis using inv' unfolding add by (intro exI [of _ ps'] exI [of _ "[]"] exI [of _ cur']) simp
  qed
qed

subsection \<open>The finished file\<close>

definition table_file :: "snappy option \<Rightarrow> u8 list \<Rightarrow> part list \<Rightarrow> bool" where
  "table_file lib F ps \<longleftrightarrow> parts_ok ps [] \<and> (\<forall>p\<in>set ps. part_stored lib F p) \<and>
     (\<exists>X ft. F = X @ footer_bytes ft \<and> stored_at lib F (index_handle ft) (index_entries ps))"

lemma tb_Finish_file:
  assumes w: "writable env bytes_of" and inv: "tb_inv env bytes_of ps pend cur r"
    and lib: "compression (Snappy_Compress (env_snappy env)) (Snappy_GetUncompressedLength (env_snappy env)) (Snappy_Uncompress (env_snappy env))"
    and sorted: "keys_sorted (part_entries ps @ pend @ cur)"
  shows "\<exists>r' ps'. tb_Finish env r = (OK, r') \<and> table_file (env_snappy env) (bytes_of (tb_file r')) ps' \<and>
    part_entries ps' = part_entries ps @ pend @ cur \<and> tb_offset r' = word_of_nat (length (bytes_of (tb_file r'))) \<and>
    num_entries r' = int (length (part_entries ps @ pend @ cur))"
proof -
  let ?lib = "env_snappy env"
  define pend' where "pend' = pend @ cur"
  define r1 where "r1 = (tb_Flush env r)\<lparr>tb_closed := True\<rparr>"
  have inv1: "tb_inv env bytes_of ps pend' [] r1" using tb_Flush_inv [OF w inv lib] by (simp add: tb_inv_def r1_def pend'_def)
  have r1: "tb_status r1 = OK" "tb_offset r1 = word_of_nat (length (bytes_of (tb_file r1)))" using inv1 by (simp_all add: tb_inv_def)
  obtain mh b1 f1 bs1 where m: "WriteBlock env BlockBuilder r1 = (mh, b1, r1\<lparr>tb_file := f1, tb_offset := word_of_nat (length (bytes_of f1))\<rparr>)"
    "bytes_of f1 = bytes_of (tb_file r1) @ bs1"
    using WriteBlock_eq [OF w r1 lib builder_init(1)] by blast
  define r2 where "r2 = r1\<lparr>tb_file := f1, tb_offset := word_of_nat (length (bytes_of f1))\<rparr>"
  have inv2: "tb_inv env bytes_of ps pend' [] r2"
    using inv1 by (auto simp: tb_inv_def r2_def m(2) intro: stored_at_append part_stored_append)
  define r3 where "r3 = (if pending_index_entry r2 then add_index_entry (FindShortSuccessor (tb_last_key r2)) r2 else r2)"
  obtain ps' where ps': "\<exists>ss rs. builder_ok (index_block r3) (index_entries ps') ss rs" "parts_ok ps' []"
    "\<forall>p\<in>set ps'. part_stored ?lib (bytes_of f1) p" "part_entries ps' = part_entries ps @ pend @ cur"
  proof (cases "pend' = []")
    case True
    then show thesis using that [of ps] inv2 unfolding tb_inv_def r3_def pend'_def by (fastforce simp: r2_def)
  next
    case False
    then have r3': "r3 = add_index_entry (FindShortSuccessor (tb_last_key r2)) r2" using inv2 by (simp add: tb_inv_def r3_def)
    have "keys_sorted pend'" using sorted keys_sorted_append unfolding pend'_def by blast
    then obtain p where p: "snd (snd p) = pend'" "parts_ok ps (pend' @ [])" "parts_ok [p] []"
      "\<exists>ss rs. builder_ok (index_block r3) (index_entries (ps @ [p])) ss rs" "part_stored ?lib (bytes_of (tb_file r2)) p"
      using add_index_entry_inv [OF inv2 False _ successor_bounds] unfolding r3' by blast
    have f: "tb_file r2 = f1" by (simp add: r2_def)
    show thesis
    proof (rule that [of "ps @ [p]"])
      show "\<exists>ss rs. builder_ok (index_block r3) (index_entries (ps @ [p])) ss rs" by (rule p(4))
      show "parts_ok (ps @ [p]) []" using p(1-3) by (simp add: parts_ok_append part_entries_def)
      show "\<forall>p\<in>set (ps @ [p]). part_stored ?lib (bytes_of f1) p" using inv2 p(5) by (auto simp: tb_inv_def f)
      show "part_entries (ps @ [p]) = part_entries ps @ pend @ cur" using p(1) by (simp add: part_entries_def pend'_def)
    qed
  qed
  obtain ss rs where ib: "builder_ok (index_block r3) (index_entries ps') ss rs" using ps'(1) by blast
  have r3: "tb_status r3 = OK" "tb_offset r3 = word_of_nat (length (bytes_of (tb_file r3)))" "tb_file r3 = f1" "num_entries r3 = num_entries r2"
    using inv2 by (auto simp: tb_inv_def r3_def r2_def add_index_entry_def)
  obtain ih b2 f2 bs2 where i: "WriteBlock env (index_block r3) r3 = (ih, b2, r3\<lparr>tb_file := f2, tb_offset := word_of_nat (length (bytes_of f2))\<rparr>)"
    "bytes_of f2 = bytes_of (tb_file r3) @ bs2" "stored_at ?lib (bytes_of f2) ih (index_entries ps')"
    using WriteBlock_eq [OF w r3(1,2) lib ib] by blast
  define r4 where "r4 = r3\<lparr>tb_file := f2, tb_offset := word_of_nat (length (bytes_of f2)), index_block := b2\<rparr>"
  let ?ft = "\<lparr>metaindex_handle = mh, index_handle = ih\<rparr>"
  obtain f3 where f3: "tb_Append env (footer_bytes ?ft) r4 = r4\<lparr>tb_file := f3\<rparr>" "bytes_of f3 = bytes_of f2 @ footer_bytes ?ft"
    using tb_Append_eq [OF w, of r4 "footer_bytes ?ft"] r3(1) by (auto simp: r4_def)
  have "finish_metaindex env r1 = (mh, r2)" using m(1) r1(1) by (simp add: finish_metaindex_def r2_def)
  moreover have "tb_status r2 = OK" using inv2 by (simp add: tb_inv_def)
  then have "finish_index env r2 = (ih, r4)" unfolding finish_index_def Let_def r3_def [symmetric] by (simp add: i(1) r4_def)
  moreover have "finish_footer env ?ft r4 = r4\<lparr>tb_file := f3, tb_offset := word_of_nat (length (bytes_of f3))\<rparr>"
    using f3 r3(1) by (simp add: finish_footer_def footer_EncodeTo_eq r4_def)
  moreover have "tb_status r4 = OK" using r3(1) by (simp add: r4_def)
  ultimately have "tb_Finish env r = (OK, r4\<lparr>tb_file := f3, tb_offset := word_of_nat (length (bytes_of f3))\<rparr>)"
    unfolding tb_Finish_def r1_def [symmetric] by simp
  moreover have "table_file ?lib (bytes_of f3) ps'"
    unfolding table_file_def
  proof (intro conjI ballI exI)
    show "bytes_of f3 = bytes_of f2 @ footer_bytes ?ft" by (rule f3(2))
    show "stored_at ?lib (bytes_of f3) (index_handle ?ft) (index_entries ps')" using stored_at_append [OF i(3)] by (simp add: f3(2))
    show "part_stored ?lib (bytes_of f3) p" if "p \<in> set ps'" for p
      using part_stored_append [OF bspec [OF ps'(3) that]] by (simp add: f3(2) i(2) r3(3))
  qed (rule ps'(2))
  moreover have "num_entries r4 = int (length (part_entries ps @ pend @ cur))"
    using inv2 by (simp add: r4_def r3(4) tb_inv_def pend'_def)
  ultimately show ?thesis using ps'(4) by (intro exI [of _ "r4\<lparr>tb_file := f3, tb_offset := word_of_nat (length (bytes_of f3))\<rparr>"] exI [of _ ps']) simp
qed

end
