(* ===== verification/TableProps.thy ===== *)
theory TableProps
  imports TableWrite
begin

text \<open>What has been written to a table file is what its iterators and lookups return.\<close>

subsection \<open>Sizes\<close>

lemma entries_weight_append: "entries_weight (xs @ ys) = entries_weight xs + entries_weight ys"
  by (simp add: entries_weight_def)

lemma entries_weight_member: "e \<in> set es \<Longrightarrow> length (fst e) + 40 \<le> entries_weight es"
  by (induction es) (auto simp: entries_weight_def)

lemma index_weight:
  assumes "parts_ok ps behind" "\<forall>p\<in>set ps. part_stored lib F p"
  shows "sum_list (map (\<lambda>(k, v). length k + length v + 19) (index_entries ps)) \<le> entries_weight (part_entries ps)"
  using assms
proof (induction ps behind rule: parts_ok.induct)
  case (2 sep h seg ps behind)
  have "length h \<le> 20" "length sep \<le> length (fst (last seg))" using "2.prems"(2) length_handle_bytes by (auto simp: part_stored_def)
  moreover have "length (fst (last seg)) + 40 \<le> entries_weight seg" using "2.prems"(1) by (intro entries_weight_member) simp
  moreover have "sum_list (map (\<lambda>(k, v). length k + length v + 19) (index_entries ps)) \<le> entries_weight (part_entries ps)"
    using 2 by simp
  ultimately show ?case by (simp add: entries_weight_append)
qed simp

lemma part_weight: "(sep, h, seg) \<in> set ps \<Longrightarrow> entries_weight seg \<le> entries_weight (part_entries ps)"
  by (induction ps) (auto simp: entries_weight_append)

subsection \<open>Reading what is stored\<close>

definition reads :: "reader \<Rightarrow> snappy option \<Rightarrow> u8 list \<Rightarrow> bool" where
  "reads rf lib F \<longleftrightarrow> random_access_file (rd_Read rf) F \<and> length F < 2 ^ 64 \<and> rd_snappy rf = lib"

lemma stored_read:
  assumes rf: "reads rf lib F" and stored: "stored_at lib F h es"
    and raw: "\<forall>b ss rs le. builder_ok b es ss rs \<longrightarrow> length (fst (Finish le b)) < 2 ^ 32"
  shows "\<exists>bc blk i. rd_ReadBlock rf h = Some (Inr bc) \<and> Block (rd_le rf) (contents_data bc) = Some blk \<and>
    NewIterator (rd_le rf) blk = Some i \<and> block_over es i"
proof -
  obtain before after stored t le b ss rs where F: "F = before @ block_file_bytes stored t @ after"
    and h: "h = \<lparr>handle_offset = word_of_nat (length before), handle_size = word_of_nat (length stored)\<rparr>"
    and b: "builder_ok b es ss rs" "stored_block lib t stored (fst (Finish le b))"
    using stored raw unfolding stored_at_def by blast
  have rfile: "random_access_file (rd_Read rf) F" "length F < 2 ^ 64" "rd_snappy rf = lib" using rf by (simp_all add: reads_def)
  have "length before + length stored + 5 \<le> length F" by (simp add: F)
  then have u: "unat (handle_offset h) = length before" "unat (handle_size h) = length stored" "length stored < 2 ^ 64 - 5"
    using rfile(2) by (simp_all add: h unsigned_of_nat take_bit_nat_eq_self)
  have "at_offset F (handle_offset h) (block_file_bytes stored t)" by (simp add: at_offset_def u F)
  then obtain bc where "rd_ReadBlock rf h = Some (Inr bc)" "contents_data bc = fst (Finish le b)"
    using random_access_file.ReadBlock_OK [OF rfile(1), of h "rd_le rf" "rd_addr rf" lib "rd_mapped rf" "fst (Finish le b)"] b(2) u rfile(3)
    unfolding rd_ReadBlock_def by auto
  then show ?thesis using open_block [OF b(1), of le "rd_le rf"] raw b(1) by metis
qed

lemma table_opens:
  assumes rf: "reads rf lib F" and table: "table_file lib F ps" and weight: "entries_weight (part_entries ps) + 8 < 2 ^ 32"
  shows "opens (BlockReader rf) ps"
    and "\<exists>t i. Table_Open rf (word_of_nat (length F)) = Some (Inr t) \<and> NewIterator (rd_le rf) (table_index t) = Some i \<and>
      block_over (index_entries ps) i"
proof -
  have parts: "parts_ok ps []" "\<forall>p\<in>set ps. part_stored lib F p" using table by (simp_all add: table_file_def)
  have "\<exists>d. BlockReader rf h = Some d \<and> block_over seg d" if mem: "(sep, h, seg) \<in> set ps" for sep h seg
  proof -
    obtain h' where h': "h = handle_bytes h'" "stored_at lib F h' seg" using bspec [OF parts(2) mem] by (auto simp: part_stored_def)
    have "\<forall>b ss rs le. builder_ok b seg ss rs \<longrightarrow> length (fst (Finish le b)) < 2 ^ 32"
      using raw_size_weight [of _ seg] part_weight [OF mem] weight by (meson add_le_mono1 le_less_trans le_trans)
    from stored_read [OF rf h'(2) this] show ?thesis using handle_Decode_bytes [of h' "[]"] by (auto simp: BlockReader_def h'(1))
  qed
  then show "opens (BlockReader rf) ps" by (auto simp: opens_def)
  obtain X ft where ft: "F = X @ footer_bytes ft" "stored_at lib F (index_handle ft) (index_entries ps)"
    using table by (auto simp: table_file_def)
  have rfile: "random_access_file (rd_Read rf) F" "length F < 2 ^ 64" using rf by (simp_all add: reads_def)
  have len: "length F = length X + 48" by (simp add: ft(1))
  have big: "\<not> (word_of_nat (length F) :: u64) < word_of_nat kEncodedLength"
  proof -
    have "unat (word_of_nat (length F) :: u64) = length F" using rfile(2) by (simp add: unsigned_of_nat take_bit_nat_eq_self)
    then show ?thesis using len by (simp add: word_less_nat_alt kEncodedLength_def del: of_nat_add)
  qed
  have off: "unat (word_of_nat (length F) - word_of_nat kEncodedLength :: u64) = length X"
  proof -
    have "(word_of_nat (length F) - word_of_nat kEncodedLength :: u64) = word_of_nat (length X)" by (simp add: len kEncodedLength_def)
    then show ?thesis using rfile(2) len by (simp add: unsigned_of_nat take_bit_nat_eq_self)
  qed
  have "rd_Read rf (word_of_nat (length F) - word_of_nat kEncodedLength) kEncodedLength = (FileOK, footer_bytes ft)"
    using random_access_file.read_all [OF rfile(1), of kEncodedLength "word_of_nat (length F) - word_of_nat kEncodedLength"] off len
    by (simp add: kEncodedLength_def ft(1))
  moreover have "footer_DecodeFrom (rd_le rf) (footer_bytes ft) = Some (Inr (ft, []))" using footer_Decode_bytes [of "rd_le rf" ft "[]"] by simp
  moreover have "\<forall>b ss rs le. builder_ok b (index_entries ps) ss rs \<longrightarrow> length (fst (Finish le b)) < 2 ^ 32"
    using raw_size [of _ "index_entries ps"] index_weight [OF parts] weight by (meson add_le_mono1 le_less_trans le_trans)
  from stored_read [OF rf ft(2) this] obtain bc blk i where "rd_ReadBlock rf (index_handle ft) = Some (Inr bc)"
    "Block (rd_le rf) (contents_data bc) = Some blk" "NewIterator (rd_le rf) blk = Some i" "block_over (index_entries ps) i" by blast
  ultimately show "\<exists>t i. Table_Open rf (word_of_nat (length F)) = Some (Inr t) \<and> NewIterator (rd_le rf) (table_index t) = Some i \<and>
      block_over (index_entries ps) i"
    using big by (simp add: Table_Open_def)
qed

lemma InternalGet_lookup:
  assumes bf: "opens (BlockReader rf) ps" and parts: "parts_ok ps []" and sorted: "keys_sorted (part_entries ps)"
    and i: "NewIterator (rd_le rf) (table_index t) = Some i" "block_over (index_entries ps) i"
  shows "\<exists>saved. InternalGet rf k t = Some (OK, saved) \<and>
    map_of (part_entries ps) k = (case saved of Some (k', v) \<Rightarrow> if k' = k then Some v else None | None \<Rightarrow> None)"
proof -
  define j where "j = lower_bound k (index_entries ps)"
  note lb = lower_bound_parts [OF parts j_def]
  obtain i' where i': "Seek (rd_le rf) k i = Some i'" "block_at (index_entries ps) j i'"
    using blk.at_seek [OF i(2) index_sorted [OF parts]] unfolding j_def by blast
  note ok = block_over_OK [OF blk.at_over [OF i'(2)]]
  show ?thesis
  proof (cases "j < length ps")
    case False
    then have "\<not> Valid i'" "j = length ps" using blk.at_valid [OF i'(2)] by simp_all
    then show ?thesis using i(1) i'(1) ok lb lower_bound_none [of k "part_entries ps"] by (simp add: InternalGet_def)
  next
    case True
    obtain sep h seg where p: "ps ! j = (sep, h, seg)" by (metis prod_cases3)
    have mem: "(sep, h, seg) \<in> set ps" using nth_mem [OF True] p by simp
    have v: "Valid i'" "it_value i' = Some h" using blk.at_valid [OF i'(2)] blk.at_entry [OF i'(2)] True part_nth(1) [OF True] p by simp_all
    obtain d where d: "BlockReader rf h = Some d" "block_over seg d" using opensD [OF bf mem] by blast
    have split: "ps = take j ps @ (sep, h, seg) # drop (Suc j) ps" using id_take_nth_drop [OF True] p by simp
    have es: "part_entries ps = part_entries (take j ps) @ seg @ part_entries (drop (Suc j) ps)"
      by (subst split) (simp only: parts_simps)
    then have "keys_sorted seg" using sorted by (simp add: keys_sorted_append)
    then obtain d' where d': "Seek (rd_le rf) k d = Some d'" "block_at seg (lower_bound k seg) d'" using blk.at_seek [OF d(2)] by blast
    note dok = block_over_OK [OF blk.at_over [OF d'(2)]]
    define n where "n = lower_bound k (part_entries ps)"
    have n: "n = length (part_entries (take j ps)) + lower_bound k seg" using lb True p by (simp add: n_def)
    show ?thesis
    proof (cases "lower_bound k seg < length seg")
      case lt: True
      have "Valid d'" "it_key d' = Some (fst (seg ! lower_bound k seg))" "it_value d' = Some (snd (seg ! lower_bound k seg))"
        using blk.at_valid [OF d'(2)] blk.at_entry [OF d'(2) lt] lt by simp_all
      moreover have "n < length (part_entries ps)" "part_entries ps ! n = seg ! lower_bound k seg"
        using part_entry [OF True, of "lower_bound k seg"] lt p by (simp_all add: n)
      ultimately show ?thesis
        using i(1) i'(1) v d d' ok dok lower_bound_entry(2) [OF sorted n_def] by (simp add: InternalGet_def split: prod.split)
    next
      case ge: False
      then have len: "lower_bound k seg = length seg" using lower_bound_le [of k seg] by simp
      have "\<not> Valid d'" using blk.at_valid [OF d'(2)] ge by simp
      then have get: "InternalGet rf k t = Some (OK, None)" using i(1) i'(1) v d d' ok dok by (simp add: InternalGet_def)
      have "map_of (part_entries ps) k = None"
      proof (cases "n < length (part_entries ps)")
        case True
        have "part_entries ps ! n = part_entries (drop (Suc j) ps) ! 0" "part_entries (drop (Suc j) ps) \<noteq> []"
          using True es n len by (auto simp: nth_append)
        then have "part_entries ps ! n \<in> set (part_entries (drop (Suc j) ps))" by simp
        moreover have "parts_ok ((sep, h, seg) # drop (Suc j) ps) []" using parts split parts_ok_append by metis
        ultimately have "sep < fst (part_entries ps ! n)" by simp
        moreover have "\<not> sep < k"
          using lower_bound_entry(1) [OF index_sorted [OF parts] j_def] \<open>j < length ps\<close> part_nth(1) [OF \<open>j < length ps\<close>] p by simp
        ultimately have "fst (part_entries ps ! n) \<noteq> k" by auto
        then show ?thesis using lower_bound_entry(2) [OF sorted n_def True] by simp
      next
        case False
        then have "lower_bound k (part_entries ps) = length (part_entries ps)" using lower_bound_le [of k "part_entries ps"] by (simp add: n_def)
        then show ?thesis by (rule lower_bound_none)
      qed
      then show ?thesis using get by simp
    qed
  qed
qed

subsection \<open>Properties\<close>

definition build_table :: "'f table_env \<Rightarrow> options \<Rightarrow> entry list \<Rightarrow> 'f \<Rightarrow> io_status \<times> 'f table_builder" where
  "build_table env opts es f = tb_Finish env (foldl (\<lambda>r (k, v). tb_Add env k v r) (TableBuilder opts f) es)"

text \<open>What the properties assume: a file that accepts everything and is empty, a compressor that can undo what it does, entries
  of less than four gigabytes, and a reader of the bytes that have been written.\<close>

definition written_table :: "'f table_env \<Rightarrow> ('f \<Rightarrow> u8 list) \<Rightarrow> options \<Rightarrow> entry list \<Rightarrow> 'f \<Rightarrow> reader \<Rightarrow> bool" where
  "written_table env bytes_of opts es f rf \<longleftrightarrow>
    writable env bytes_of \<and> bytes_of f = [] \<and>
    compression (Snappy_Compress (env_snappy env)) (Snappy_GetUncompressedLength (env_snappy env)) (Snappy_Uncompress (env_snappy env)) \<and>
    entries_weight es + 8 < 2 ^ 32 \<and>
    reads rf (env_snappy env) (bytes_of (tb_file (snd (build_table env opts es f))))"

lemma built_table:
  assumes "written_table env bytes_of opts es f rf" "keys_sorted es" "F = bytes_of (tb_file (snd (build_table env opts es f)))"
  obtains r ps where "build_table env opts es f = (OK, r)" "table_file (env_snappy env) F ps" "part_entries ps = es"
    "tb_offset r = word_of_nat (length F)" "num_entries r = int (length es)"
proof -
  have w: "writable env bytes_of" "bytes_of f = []" "keys_sorted es"
    and lib: "compression (Snappy_Compress (env_snappy env)) (Snappy_GetUncompressedLength (env_snappy env)) (Snappy_Uncompress (env_snappy env))"
    using assms(1,2) by (simp_all add: written_table_def)
  have "keys_sorted xs \<Longrightarrow> \<exists>ps pend cur. tb_inv env bytes_of ps pend cur (foldl (\<lambda>r (k, v). tb_Add env k v r) (TableBuilder opts f) xs) \<and>
      part_entries ps @ pend @ cur = xs" for xs
  proof (induction xs rule: rev_induct)
    case Nil
    show ?case using tb_init [where bytes_of = bytes_of, OF w(2), of env opts] by (fastforce intro: exI [of _ "[]"])
  next
    case (snoc e xs)
    let ?r = "foldl (\<lambda>r (k, v). tb_Add env k v r) (TableBuilder opts f) xs"
    obtain ps pend cur where inv: "tb_inv env bytes_of ps pend cur ?r" "part_entries ps @ pend @ cur = xs"
      using snoc by (auto simp: keys_sorted_append)
    have "part_entries ps @ pend @ cur @ [e] = xs @ [e]" using inv(2) by (metis append.assoc)
    moreover have "foldl (\<lambda>r (k, v). tb_Add env k v r) (TableBuilder opts f) (xs @ [e]) = tb_Add env (fst e) (snd e) ?r" by (cases e) simp
    ultimately show ?case using tb_Add_inv [OF w(1) inv(1) lib, of "fst e" "snd e"] snoc.prems by (metis prod.collapse)
  qed
  from this [OF w(3)] obtain ps pend cur where
    "tb_inv env bytes_of ps pend cur (foldl (\<lambda>r (k, v). tb_Add env k v r) (TableBuilder opts f) es)" "part_entries ps @ pend @ cur = es" by blast
  from tb_Finish_file [OF w(1) this(1) lib] this(2) w(3) obtain r ps' where r: "build_table env opts es f = (OK, r)"
    "table_file (env_snappy env) (bytes_of (tb_file r)) ps'" "part_entries ps' = es" "tb_offset r = word_of_nat (length (bytes_of (tb_file r)))"
    "num_entries r = int (length es)"
    by (auto simp: build_table_def)
  then show thesis using that [of r ps'] assms(3) by simp
qed

lemma table_iterator:
  assumes "written_table env bytes_of opts es f rf" "keys_sorted es" "F = bytes_of (tb_file (snd (build_table env opts es f)))"
  shows "\<exists>t i. Table_Open rf (word_of_nat (length F)) = Some (Inr t) \<and> Table_NewIterator rf t = Some i \<and> tl_over (BlockReader rf) es i"
proof -
  obtain r ps where r: "table_file (env_snappy env) F ps" "part_entries ps = es" using built_table [OF assms] by blast
  have rf: "reads rf (env_snappy env) F" "entries_weight (part_entries ps) + 8 < 2 ^ 32" using assms r(2) by (simp_all add: written_table_def)
  obtain t i where t: "Table_Open rf (word_of_nat (length F)) = Some (Inr t)" "NewIterator (rd_le rf) (table_index t) = Some i"
    "block_over (index_entries ps) i" using table_opens(2) [OF rf(1) r(1) rf(2)] by blast
  have "tl_over (BlockReader rf) es (TwoLevelIterator i)"
    using table_opens(1) [OF rf(1) r(1) rf(2)] r t(3) by (auto simp: tl_over_def tl_parts_def TwoLevelIterator_def table_file_def)
  then show ?thesis using t by (simp add: Table_NewIterator_def)
qed

text \<open>C8: What is put into a table file comes out of it: whatever the block size, the restart interval, the compression and the byte order, the
  writing of sorted entries of together less than 4 GB to a file that accepts them succeeds, the file that was written opens, and iterating over the table yields exactly the
  entries that were added, in order; the builder counts them and knows the size of the file.\<close>

theorem table_roundtrip:
  assumes "written_table env bytes_of opts es f rf" "keys_sorted es" "F = bytes_of (tb_file (snd (build_table env opts es f)))"
  shows "fst (build_table env opts es f) = OK \<and> NumEntries (snd (build_table env opts es f)) = word_of_nat (length es) \<and>
    FileSize (snd (build_table env opts es f)) = word_of_nat (length F) \<and>
    (\<exists>t i i'. Table_Open rf (word_of_nat (length F)) = Some (Inr t) \<and> Table_NewIterator rf t = Some i \<and>
      tl_SeekToFirst (rd_le rf) (BlockReader rf) i = Some i' \<and>
      scan tl_Valid tl_key tl_value (tl_Next (rd_le rf) (BlockReader rf)) (Suc (length es)) i' = Some es)"
proof -
  obtain r where r: "build_table env opts es f = (OK, r)" "tb_offset r = word_of_nat (length F)" "num_entries r = int (length es)"
    using built_table [OF assms] by blast
  obtain t i where t: "Table_Open rf (word_of_nat (length F)) = Some (Inr t)" "Table_NewIterator rf t = Some i" "tl_over (BlockReader rf) es i"
    using table_iterator [OF assms] by blast
  from tl.scan_all [OF t(3) lessI, of "rd_le rf"] show ?thesis using t(1,2) r by (auto simp: NumEntries_def FileSize_def)
qed

text \<open>C9: A lookup in a table refines the lookup in the finite map of the sorted entries, of together less than 4 GB, that were written: \<open>InternalGet\<close> succeeds, and it hands an
  entry with the key to its caller if and only if one was added.\<close>

theorem table_lookup:
  assumes "written_table env bytes_of opts es f rf" "keys_sorted es" "F = bytes_of (tb_file (snd (build_table env opts es f)))"
  shows "\<exists>t saved. Table_Open rf (word_of_nat (length F)) = Some (Inr t) \<and> InternalGet rf k t = Some (OK, saved) \<and>
    map_of es k = (case saved of Some (k', v) \<Rightarrow> if k' = k then Some v else None | None \<Rightarrow> None)"
proof -
  obtain r ps where r: "table_file (env_snappy env) F ps" "part_entries ps = es" using built_table [OF assms] by blast
  have rf: "reads rf (env_snappy env) F" "entries_weight (part_entries ps) + 8 < 2 ^ 32" "keys_sorted (part_entries ps)"
    using assms r(2) by (simp_all add: written_table_def)
  obtain t i where t: "Table_Open rf (word_of_nat (length F)) = Some (Inr t)" "NewIterator (rd_le rf) (table_index t) = Some i"
    "block_over (index_entries ps) i" using table_opens(2) [OF rf(1) r(1) rf(2)] by blast
  have "parts_ok ps []" using r(1) by (simp add: table_file_def)
  from InternalGet_lookup [OF table_opens(1) [OF rf(1) r(1) rf(2)] this rf(3) t(2,3), of k] show ?thesis using t(1) r(2) by blast
qed

text \<open>A table of one entry in memory.\<close>

definition mem_env :: "u8 list table_env" where
  "mem_env = \<lparr>env_le = True, env_addr = 0, env_snappy = None, env_Append = mem_Append, env_Flush = \<lambda>f. (FileOK, f)\<rparr>"

definition sample_options :: options where
  "sample_options = \<lparr>opt_block_size = 262144, opt_restart_interval = 16, opt_compression = SnappyCompression\<rparr>"

definition sample_table :: "u8 list" where
  "sample_table = tb_file (snd (build_table mem_env sample_options [([1], [2])] []))"

definition sample_reader :: reader where
  "sample_reader = \<lparr>rd_le = True, rd_addr = 0, rd_snappy = None, rd_mapped = True, rd_Read = mmap_Read sample_table\<rparr>"

lemma length_sample_table: "length sample_table < 2 ^ 64"
  by (simp add: sample_table_def build_table_def TableBuilder_def tb_Add_def tb_Flush_def tb_Finish_def finish_metaindex_def finish_index_def
     finish_footer_def WriteBlock_def WriteRawBlock_def tb_Append_def mem_env_def mem_Append_def sample_options_def Let_def Finish_def BlockBuilder_def
     add_index_entry_def Add_def PutVarint32_def PutFixed32_def CurrentSizeEstimate_def file_ok_def Snappy_Compress_def footer_EncodeTo_eq
     handle_EncodeTo_eq handle_bytes_def EncodeVarint32_def EncodeVarint64.simps [of 0] EncodeVarint64.simps [of 13])

lemma sample_written: "written_table mem_env (\<lambda>f. f) sample_options [([1], [2])] [] sample_reader"
proof -
  have "writable mem_env (\<lambda>f. f)" using mem_accepts by (simp add: writable_def mem_env_def)
  moreover have "reads sample_reader None sample_table"
    using mmap.random_access_file_axioms length_sample_table by (simp add: reads_def sample_reader_def)
  moreover have "env_snappy mem_env = None" by (simp add: mem_env_def)
  ultimately show ?thesis
    using no_snappy.compression_axioms by (simp add: written_table_def entries_weight_def sample_table_def)
qed

lemma sample_sorted: "keys_sorted [([1], [2])]"
  by (simp add: keys_sorted_def)

theorem table_roundtrip_witness:
  "\<exists>t i i'. Table_Open sample_reader (word_of_nat (length sample_table)) = Some (Inr t) \<and> Table_NewIterator sample_reader t = Some i \<and>
    tl_SeekToFirst True (BlockReader sample_reader) i = Some i' \<and>
    scan tl_Valid tl_key tl_value (tl_Next True (BlockReader sample_reader)) 2 i' = Some [([1], [2])]"
  using table_roundtrip [OF sample_written sample_sorted refl] by (simp add: sample_table_def [symmetric] sample_reader_def numeral_2_eq_2)

theorem table_lookup_witness:
  "\<exists>t saved. Table_Open sample_reader (word_of_nat (length sample_table)) = Some (Inr t) \<and>
    InternalGet sample_reader [1] t = Some (OK, Some ([1], [2]))"
  using table_lookup [OF sample_written sample_sorted refl, of "[1]"] unfolding sample_table_def [symmetric]
  by (auto split: option.splits if_splits)



end
