(* ===== verification/Checkpoint.thy ===== *)
theory Checkpoint
  imports SavedSlice SliceSet TableProps
begin

text \<open>
  Checkpoints (\<open>core/util/tensor_slice_writer.{h,cc}\<close>, \<open>tensor_slice_reader.{h,cc}\<close>): the slices of tensors are saved under their encoded keys in a
  table whose first entry, under the empty key, lists them; a reader registers what is listed and looks the data up. The
  protocol-buffer messages in the values are parameters, as is the copying of tensor data. Slices of strings, the renaming of
  the file and the texts of errors are left out.
\<close>

subsection \<open>Messages\<close>

text \<open>What the generated classes do: the size and the bytes of the message of a slice (an error when they overflow), and the bytes of the
  list of slices with the versions, whose check is part of the reading.\<close>

record saved_slice_meta =
  ssm_name :: "u8 list"
  ssm_shape :: "int list"
  ssm_type :: nat
  ssm_slices :: "extent list list"

record 'd messages =
  msg_ByteSize :: "u8 list \<Rightarrow> extent list \<Rightarrow> nat"
  msg_data :: "u8 list \<Rightarrow> extent list \<Rightarrow> 'd \<Rightarrow> int \<Rightarrow> u8 list option"
  msg_meta :: "saved_slice_meta list \<Rightarrow> u8 list"
  parse_data :: "u8 list \<Rightarrow> 'd option"
  parse_meta :: "u8 list \<Rightarrow> (bool \<times> saved_slice_meta list) option"

subsection \<open>Writing\<close>

record tensor_slice_writer =
  name_to_index :: "(u8 list \<times> nat) list"
  writer_metas :: "saved_slice_meta list"
  writer_data :: "entry list"
  writer_slices :: int

definition TensorSliceWriter :: tensor_slice_writer where
  "TensorSliceWriter = \<lparr>name_to_index = [], writer_metas = [], writer_data = [], writer_slices = 0\<rparr>"

datatype writer_error = RankMismatch | ShapeMismatch | TypeMismatch | SliceFailed slice_error | TooLargeToSerialize | SizeOverflow

text \<open>The types by their numbers in \<open>types.proto\<close>; for the others a check fails.\<close>

definition MaxBytesPerElement :: "nat \<Rightarrow> nat option" where
  "MaxBytesPerElement = map_of [(1, 4), (2, 8), (3, 10), (4, 2), (5, 10), (6, 10), (8, 8), (9, 10), (10, 1), (11, 10), (12, 2), (13, 10),
     (15, 10), (16, 3), (17, 3), (18, 16), (19, 3)]"

definition kMaxMessageBytes :: u64 where "kMaxMessageBytes = push_bit 31 1"

definition kTensorProtoHeaderBytes :: u64 where "kTensorProtoHeaderBytes = push_bit 10 1"

text \<open>Whether the data is serialized; its number of elements is an \<open>int\<close>.\<close>

definition SaveData :: "nat \<Rightarrow> nat \<Rightarrow> int \<Rightarrow> bool option" where
  "SaveData byte_size dt num = do {
     bytes \<leftarrow> MaxBytesPerElement dt;
     let size_bound = word_of_nat byte_size + kTensorProtoHeaderBytes + word_of_nat bytes * word_of_int num;
     Some (\<not> kMaxMessageBytes < size_bound) }"

text \<open>A sorted map; \<open>insert\<close> keeps an entry that is there.\<close>

fun sorted_insert :: "entry \<Rightarrow> entry list \<Rightarrow> entry list" where
  "sorted_insert e [] = [e]"
| "sorted_insert e (x # xs) = (if fst e < fst x then e # x # xs else if fst e = fst x then x # xs else x # sorted_insert e xs)"

definition find_tensor :: "u8 list \<Rightarrow> tensor_shape \<Rightarrow> nat \<Rightarrow> tensor_slice_writer \<Rightarrow> (writer_error + nat \<times> tensor_slice_writer) option" where
  "find_tensor name shape dt w =
    (case map_of (name_to_index w) name of
       Some index \<Rightarrow>
         if length (writer_metas w) \<le> index then None
         else let ssm = writer_metas w ! index in
           if ssm_name ssm \<noteq> name then None
           else do {
             shape' \<leftarrow> MkTensorShape (ssm_shape ssm);
             Some (if \<not> IsSameSize shape shape' then Inl ShapeMismatch
                   else if dt \<noteq> ssm_type ssm then Inl TypeMismatch else Inr (index, w)) }
     | None \<Rightarrow>
         let index = length (writer_metas w)
         in Some (Inr (index, w\<lparr>name_to_index := name_to_index w @ [(name, index)],
              writer_metas := writer_metas w @ [\<lparr>ssm_name = name, ssm_shape = dim_sizes shape, ssm_type = dt, ssm_slices = []\<rparr>]\<rparr>)))"

definition writer_Add :: "'d messages \<Rightarrow> u8 list \<Rightarrow> tensor_shape \<Rightarrow> tensor_slice \<Rightarrow> nat \<Rightarrow> 'd \<Rightarrow> tensor_slice_writer \<Rightarrow>
    (writer_error option \<times> tensor_slice_writer) option" where
  "writer_Add msgs name shape slc dt data w =
    (if dims shape \<noteq> sdims slc then Some (Some RankMismatch, w)
     else do {
       found \<leftarrow> find_tensor name shape dt w;
       (case found of
          Inl e \<Rightarrow> Some (Some e, w)
        | Inr (index, w) \<Rightarrow> do {
            let proto = SliceAsProto slc [];
            let ssm = (writer_metas w ! index)\<lparr>ssm_slices := ssm_slices (writer_metas w ! index) @ [proto]\<rparr>;
            let w = w\<lparr>writer_metas := (writer_metas w)[index := ssm]\<rparr>;
            saved_shape \<leftarrow> MkTensorShape (ssm_shape ssm);
            (s, sliced_shape) \<leftarrow> SliceTensorShape slc saved_shape EmptyShape;
            (case s of
               Some e \<Rightarrow> Some (Some (SliceFailed e), w)
             | None \<Rightarrow> do {
                 let num = wrap32 (num_elements sliced_shape);
                 fits \<leftarrow> SaveData (msg_ByteSize msgs name proto) dt num;
                 if \<not> fits then Some (Some TooLargeToSerialize, w)
                 else do {
                   key \<leftarrow> EncodeTensorNameSlice name slc;
                   (case msg_data msgs name proto data num of
                      None \<Rightarrow> Some (Some SizeOverflow, w)
                    | Some msg \<Rightarrow> Some (None, w\<lparr>writer_data := sorted_insert (key, msg) (writer_data w), writer_slices := writer_slices w + 1\<rparr>)) } }) }) })"

definition checkpoint_options :: options where
  "checkpoint_options = \<lparr>opt_block_size = 262144, opt_restart_interval = 16, opt_compression = NoCompression\<rparr>"

definition writer_Finish :: "'f table_env \<Rightarrow> 'd messages \<Rightarrow> tensor_slice_writer \<Rightarrow> 'f \<Rightarrow> io_status \<times> 'f table_builder" where
  "writer_Finish env msgs w f =
    (let r = TableBuilder checkpoint_options f;
         r = tb_Add env [] (msg_meta msgs (writer_metas w)) r;
         r = foldl (\<lambda>r (k, v). tb_Add env k v r) r (writer_data w)
     in tb_Finish env r)"

subsection \<open>Reading\<close>

definition Get :: "reader \<Rightarrow> table \<Rightarrow> u8 list \<Rightarrow> u8 list option option" where
  "Get rf t key = do {
     i \<leftarrow> Table_NewIterator rf t;
     i \<leftarrow> tl_Seek (rd_le rf) (BlockReader rf) key i;
     if tl_Valid i then do {
       k \<leftarrow> tl_key i;
       if k = key then map_option Some (tl_value i) else Some None }
     else Some None }"

datatype reader_error = NoMatchingFiles | OpenFailed io_status | NoSlicesFound | BadVersion | IncompatibleShapes | IncompatibleTypes | RegisterFailed set_error

text \<open>The files that match the pattern are their names, their readers and their sizes; a failed check is \<open>None\<close>.\<close>

type_synonym shard_file = "string \<times> reader \<times> u64"

record tensor_slice_reader =
  all_shards_loaded :: bool
  shard_tables :: "table option list"
  reader_tensors :: "(u8 list \<times> unit slice_set) list"
  reader_status :: "reader_error option"

definition TensorSliceReader :: "shard_file list \<Rightarrow> tensor_slice_reader" where
  "TensorSliceReader files = \<lparr>all_shards_loaded = False, shard_tables = replicate (length files) None, reader_tensors = [], reader_status = None\<rparr>"

definition put_tensor :: "u8 list \<Rightarrow> unit slice_set \<Rightarrow> (u8 list \<times> unit slice_set) list \<Rightarrow> (u8 list \<times> unit slice_set) list" where
  "put_tensor name tss ts = (if map_of ts name = None then ts @ [(name, tss)] else map (\<lambda>(n, s). if n = name then (n, tss) else (n, s)) ts)"

definition RegisterTensorSlice :: "u8 list \<Rightarrow> tensor_shape \<Rightarrow> nat \<Rightarrow> string \<Rightarrow> tensor_slice \<Rightarrow> tensor_slice_reader \<Rightarrow> tensor_slice_reader option" where
  "RegisterTensorSlice name shape type tag slc st =
    (let old = map_of (reader_tensors st) name;
         tss = (case old of None \<Rightarrow> MkTensorSliceSet shape type | Some tss \<Rightarrow> tss)
     in if old \<noteq> None \<and> \<not> IsSameSize shape (set_shape tss) then Some (st\<lparr>reader_status := Some IncompatibleShapes\<rparr>)
        else if old \<noteq> None \<and> type \<noteq> set_type tss then Some (st\<lparr>reader_status := Some IncompatibleTypes\<rparr>)
        else do {
          (e, tss) \<leftarrow> Register slc tag () tss;
          let st = st\<lparr>reader_tensors := put_tensor name tss (reader_tensors st)\<rparr>;
          Some (case e of None \<Rightarrow> st | Some e \<Rightarrow> st\<lparr>reader_status := Some (RegisterFailed e)\<rparr>) })"

fun register_slices :: "saved_slice_meta \<Rightarrow> tensor_shape \<Rightarrow> string \<Rightarrow> extent list list \<Rightarrow> tensor_slice_reader \<Rightarrow> tensor_slice_reader option" where
  "register_slices ssm shape fname [] st = Some st"
| "register_slices ssm shape fname (tsp # tsps) st =
    Option.bind (RegisterTensorSlice (ssm_name ssm) shape (ssm_type ssm) fname (SliceFromProto tsp) st) (register_slices ssm shape fname tsps)"

fun register_tensors :: "string \<Rightarrow> saved_slice_meta list \<Rightarrow> tensor_slice_reader \<Rightarrow> tensor_slice_reader option" where
  "register_tensors fname [] st = Some st"
| "register_tensors fname (ssm # ssms) st = do {
     shape \<leftarrow> MkTensorShape (ssm_shape ssm);
     st \<leftarrow> register_slices ssm shape fname (ssm_slices ssm) st;
     register_tensors fname ssms st }"

definition LoadShard :: "'d messages \<Rightarrow> shard_file list \<Rightarrow> nat \<Rightarrow> tensor_slice_reader \<Rightarrow> tensor_slice_reader option" where
  "LoadShard msgs files shard st =
    (if length (shard_tables st) \<le> shard then None
     else if shard_tables st ! shard \<noteq> None \<or> reader_status st \<noteq> None then Some st
     else (case files ! shard of (fname, rf, sz) \<Rightarrow> do {
       opened \<leftarrow> Table_Open rf sz;
       (case opened of
          Inl s \<Rightarrow> Some (st\<lparr>reader_status := Some (OpenFailed s)\<rparr>)
        | Inr t \<Rightarrow> do {
            let st = st\<lparr>shard_tables := (shard_tables st)[shard := Some t]\<rparr>;
            v \<leftarrow> Get rf t [];
            (case Option.bind v (parse_meta msgs) of
               None \<Rightarrow> Some (st\<lparr>reader_status := Some NoSlicesFound\<rparr>)
             | Some (versions_ok, ssms) \<Rightarrow>
                 if \<not> versions_ok then Some (st\<lparr>reader_status := Some BadVersion\<rparr>)
                 else register_tensors fname ssms st) }) }))"

fun load_shards :: "'d messages \<Rightarrow> shard_file list \<Rightarrow> nat list \<Rightarrow> tensor_slice_reader \<Rightarrow> tensor_slice_reader option" where
  "load_shards msgs files [] st = Some st"
| "load_shards msgs files (i # shards) st =
    (if reader_status st \<noteq> None then Some st else Option.bind (LoadShard msgs files i st) (load_shards msgs files shards))"

definition LoadAllShards :: "'d messages \<Rightarrow> shard_file list \<Rightarrow> tensor_slice_reader \<Rightarrow> tensor_slice_reader option" where
  "LoadAllShards msgs files st = map_option (\<lambda>st. st\<lparr>all_shards_loaded := True\<rparr>) (load_shards msgs files [0..<length files] st)"

definition kLoadAllShards :: int where "kLoadAllShards = - 1"

text \<open>The constructor; the number of the preferred file is compared as a \<open>size_t\<close>.\<close>

definition open_reader :: "'d messages \<Rightarrow> shard_file list \<Rightarrow> int \<Rightarrow> tensor_slice_reader option" where
  "open_reader msgs files preferred_shard =
    (let st = TensorSliceReader files
     in if files = [] then Some (st\<lparr>reader_status := Some NoMatchingFiles\<rparr>)
        else if preferred_shard = kLoadAllShards \<or> length files = 1 \<or> length files \<le> nat (preferred_shard mod 2 ^ 64) then LoadAllShards msgs files st
        else LoadShard msgs files (nat preferred_shard) st)"

definition FindTensorSlice :: "u8 list \<Rightarrow> tensor_slice \<Rightarrow> tensor_slice_reader \<Rightarrow> (unit slice_set option \<times> (tensor_slice \<times> string) list) option" where
  "FindTensorSlice name slc st =
    (case map_of (reader_tensors st) name of
       None \<Rightarrow> Some (None, [])
     | Some tss \<Rightarrow> do {
         (found, details) \<leftarrow> QueryMeta slc tss;
         Some (if found then Some tss else None, details) })"

fun copy_details :: "'d messages \<Rightarrow> (tensor_slice \<Rightarrow> 'd \<Rightarrow> 'd \<Rightarrow> 'd) \<Rightarrow> shard_file list \<Rightarrow> tensor_slice_reader \<Rightarrow> u8 list \<Rightarrow>
    (tensor_slice \<times> string) list \<Rightarrow> 'd \<Rightarrow> 'd option" where
  "copy_details msgs copy files st name [] data = Some data"
| "copy_details msgs copy files st name ((slc_s, fname) # details) data = do {
     idx \<leftarrow> map_of (zip (map fst files) [0..<length files]) fname;
     t \<leftarrow> shard_tables st ! idx;
     key \<leftarrow> EncodeTensorNameSlice name slc_s;
     found \<leftarrow> Get (fst (snd (files ! idx))) t key;
     v \<leftarrow> found;
     d \<leftarrow> parse_data msgs v;
     copy_details msgs copy files st name details (copy slc_s d data) }"

definition CopySliceData :: "'d messages \<Rightarrow> (tensor_shape \<Rightarrow> tensor_slice \<Rightarrow> tensor_slice \<Rightarrow> 'd \<Rightarrow> 'd \<Rightarrow> 'd) \<Rightarrow> shard_file list \<Rightarrow> u8 list \<Rightarrow>
    tensor_slice \<Rightarrow> 'd \<Rightarrow> tensor_slice_reader \<Rightarrow> (bool \<times> 'd \<times> tensor_slice_reader) option" where
  "CopySliceData msgs copy files name slc data st = do {
     (tss, details) \<leftarrow> FindTensorSlice name slc st;
     (tss, details, st) \<leftarrow>
       (if tss = None \<and> \<not> all_shards_loaded st then do {
          st \<leftarrow> LoadAllShards msgs files st;
          (tss, details) \<leftarrow> FindTensorSlice name slc st;
          Some (tss, details, st) }
        else Some (tss, details, st));
     (case tss of
        None \<Rightarrow> Some (False, data, st)
      | Some tss \<Rightarrow> do {
          data \<leftarrow> copy_details msgs (\<lambda>s. copy (set_shape tss) s slc) files st name details data;
          Some (True, data, st) }) }"

definition HasTensor :: "'d messages \<Rightarrow> shard_file list \<Rightarrow> u8 list \<Rightarrow> tensor_slice_reader \<Rightarrow> ((tensor_shape \<times> nat) option \<times> tensor_slice_reader) option" where
  "HasTensor msgs files name st = do {
     st \<leftarrow> (if map_of (reader_tensors st) name = None \<and> \<not> all_shards_loaded st then LoadAllShards msgs files st else Some st);
     Some (map_option (\<lambda>tss. (set_shape tss, set_type tss)) (map_of (reader_tensors st) name), st) }"

end
