(* ===== verification/CheckpointProps.thy ===== *)
theory CheckpointProps
  imports Checkpoint
begin

text \<open>
  What holds of checkpoints: the slices that were saved are listed, each is found under its key, and what a reader has loaded is restored;
  and what goes wrong with the number of elements and with the list of slices.
\<close>

subsection \<open>The sorted map\<close>

lemma sorted_insert_fst: "fst ` set (sorted_insert e xs) = insert (fst e) (fst ` set xs)"
  by (induction xs) auto

lemma keys_sorted_Cons: "keys_sorted (x # xs) \<longleftrightarrow> (\<forall>y\<in>set xs. fst x < fst y) \<and> keys_sorted xs"
  by (simp add: keys_sorted_def)

lemma sorted_insert_sorted: "keys_sorted xs \<Longrightarrow> keys_sorted (sorted_insert e xs)"
proof (induction xs)
  case (Cons x xs)
  have "fst x < y" if "y \<in> fst ` set (sorted_insert e xs)" "fst x < fst e" for y
    using that Cons.prems by (auto simp: sorted_insert_fst keys_sorted_Cons)
  then have "\<forall>y\<in>set (sorted_insert e xs). fst x < fst y" if "fst x < fst e" using that by simp
  moreover have "fst e < fst y" if "fst e < fst x" "y \<in> set xs" for y
    using that Cons.prems less_trans [of "fst e" "fst x" "fst y"] by (auto simp: keys_sorted_Cons)
  ultimately show ?case using Cons by (auto simp: keys_sorted_Cons)
qed (simp add: keys_sorted_def)

lemma map_of_sorted_insert:
  "keys_sorted xs \<Longrightarrow> fst e \<notin> fst ` set xs \<Longrightarrow> map_of (sorted_insert e xs) = (map_of xs)(fst e \<mapsto> snd e)"
proof (induction xs)
  case (Cons x xs)
  then show ?case by (cases e, cases x) (auto simp: keys_sorted_Cons fun_upd_twist)
qed (cases e, simp)

subsection \<open>Saving\<close>

type_synonym 'd addition = "u8 list \<times> tensor_shape \<times> tensor_slice \<times> nat \<times> 'd"

text \<open>Additions one after the other, up to the first error.\<close>

fun save_all :: "'d messages \<Rightarrow> 'd addition list \<Rightarrow> tensor_slice_writer \<Rightarrow> (writer_error option \<times> tensor_slice_writer) option" where
  "save_all msgs [] w = Some (None, w)"
| "save_all msgs ((name, shape, slc, dt, data) # as) w = do {
     (e, w) \<leftarrow> writer_Add msgs name shape slc dt data w;
     if e \<noteq> None then Some (e, w) else save_all msgs as w }"

text \<open>The message of an addition: the data of exactly the elements the slice selects, their number reduced to 32 bits.\<close>

definition message_of :: "'d messages \<Rightarrow> 'd addition \<Rightarrow> u8 list option" where
  "message_of msgs = (\<lambda>(name, shape, slc, dt, data).
     msg_data msgs name (SliceAsProto slc []) data (wrap32 (int (card (cells (dim_sizes shape) slc)))))"

definition add_key :: "'d addition \<Rightarrow> u8 list" where
  "add_key = (\<lambda>(name, shape, slc, dt, data). key_of name slc)"

definition good_addition :: "'d addition \<Rightarrow> bool" where
  "good_addition = (\<lambda>(name, shape, slc, dt, data). wf_shape shape \<and> bounded_sizes (dim_sizes shape) \<and> normal_slice slc \<and> sdims slc < 2 ^ 31 - 1)"

lemma MkTensorShape_sizes:
  assumes "MkTensorShape zs = Some s"
  shows "dim_sizes s = zs" "wf_shape s"
proof -
  have "wf_shape EmptyShape" using shape_inv_Empty by (simp add: shape_inv_def)
  from AddDims_dims [OF this, of zs] show "dim_sizes s = zs" "wf_shape s"
    using assms dim_sizes_EmptyShape by (simp_all add: MkTensorShape_def)
qed

lemma find_tensor_shape:
  assumes "find_tensor name shape dt w = Some (Inr (index, w'))"
  shows "index < length (writer_metas w')" "ssm_name (writer_metas w' ! index) = name" "writer_data w' = writer_data w"
    "MkTensorShape (ssm_shape (writer_metas w' ! index)) = Some s \<Longrightarrow> dim_sizes s = dim_sizes shape"
  using assms MkTensorShape_sizes(1)
  by (auto simp: find_tensor_def Let_def IsSameSize_iff split: option.splits if_splits bind_splits)

lemma SliceTensorShape_None:
  assumes "wf_slice s" "bounded_sizes (dim_sizes shape)" "wf_shape shape" "SliceTensorShape s shape r = Some (None, r')"
  shows "num_elements r' = int (card (cells (dim_sizes shape) s))"
proof (cases "fits (dim_sizes shape) s")
  case True
  then show ?thesis using SliceTensorShape_fits [OF assms(1) True assms(2,3), of r] assms(4) by auto
next
  case False
  then show ?thesis using SliceTensorShape_misfit [OF assms(1) False assms(2,3), of r] assms(4) by auto
qed

lemma writer_Add_data:
  assumes add: "writer_Add msgs name shape slc dt data w = Some (None, w')" and good: "good_addition (name, shape, slc, dt, data)"
  shows "\<exists>msg. message_of msgs (name, shape, slc, dt, data) = Some msg \<and> writer_data w' = sorted_insert (key_of name slc, msg) (writer_data w)"
proof -
  obtain index w1 where f: "find_tensor name shape dt w = Some (Inr (index, w1))" "dims shape = sdims slc"
    using add by (auto simp: writer_Add_def split: if_splits bind_splits sum.splits)
  note fs = find_tensor_shape [OF f(1)]
  obtain s r where s: "MkTensorShape (ssm_shape (writer_metas w1 ! index)) = Some s" "SliceTensorShape slc s EmptyShape = Some (None, r)"
    using add f by (auto simp: writer_Add_def Let_def split: bind_splits option.splits)
  have sizes: "dim_sizes s = dim_sizes shape" "wf_shape s" using fs(4) [OF s(1)] MkTensorShape_sizes(2) [OF s(1)] by simp_all
  have "num_elements r = int (card (cells (dim_sizes shape) slc))"
    using SliceTensorShape_None [OF _ _ sizes(2) s(2)] good sizes(1) by (simp add: good_addition_def normal_slice_def)
  then show ?thesis
    using add f s fs(3) by (auto simp: writer_Add_def Let_def message_of_def Encode_key_of split: bind_splits option.splits if_splits)
qed

lemma key_of_inj:
  assumes "normal_slice s" "normal_slice t" "sdims s < 2 ^ 31 - 1" "sdims t < 2 ^ 31 - 1" "key_of m s = key_of n t"
  shows "m = n \<and> s = t"
proof -
  have less: "sdims s < 2 ^ 31" "sdims t < 2 ^ 31" using assms(3,4) by simp_all
  have "\<not> key_of m s < key_of n t" "\<not> key_of n t < key_of m s" using assms(5) by simp_all
  then have mn: "m = n" using key_order [OF less, of m n] key_order [OF less(2,1), of n m] linorder_less_linear [of m n] by blast
  show ?thesis
  proof (cases "sdims s = 0")
    case True
    then have "sdims t = 0" using Decode_rank0 [OF True, of m "[]" EmptySlice] Decode_key_of [OF assms(2) _ assms(4), of n "[]" EmptySlice] assms(5) by force
    then show ?thesis using True mn assms(1,2) by (cases s, cases t) (simp add: normal_slice_def wf_slice_def sdims_def)
  next
    case False
    then have "DecodeTensorNameSlice (key_of n t) [] EmptySlice = Inr (m, s)" using Decode_key_of [OF assms(1) _ assms(3), of m "[]" EmptySlice] assms(5) by simp
    moreover from this have "sdims t \<noteq> 0" using Decode_rank0 [of t n "[]" EmptySlice] by auto
    ultimately show ?thesis using Decode_key_of [OF assms(2) _ assms(4), of n "[]" EmptySlice] by simp
  qed
qed

lemma key_of_nonempty: "[] < key_of name s"
proof -
  have "key_of name s \<noteq> []" using num.dec_enc [of 0 "[]"] by (auto simp: key_of_def ReadNumIncreasing_def)
  then show ?thesis by (cases "key_of name s") auto
qed

lemma save_all_data:
  assumes "save_all msgs as w = Some (None, w')" "\<forall>a\<in>set as. good_addition a" "distinct (map add_key as)"
    and "keys_sorted (writer_data w)" "\<forall>k\<in>fst ` set (writer_data w). [] < k" "\<forall>a\<in>set as. add_key a \<notin> fst ` set (writer_data w)"
  shows "keys_sorted (writer_data w') \<and> (\<forall>k\<in>fst ` set (writer_data w'). [] < k) \<and>
    (\<forall>a\<in>set as. \<exists>msg. message_of msgs a = Some msg \<and> map_of (writer_data w') (add_key a) = Some msg) \<and>
    (\<forall>k\<in>fst ` set (writer_data w). map_of (writer_data w') k = map_of (writer_data w) k)"
  using assms
proof (induction as arbitrary: w)
  case (Cons a as)
  obtain name shape slc dt data where a: "a = (name, shape, slc, dt, data)" by (metis prod_cases5)
  obtain w1 where w1: "writer_Add msgs name shape slc dt data w = Some (None, w1)" "save_all msgs as w1 = Some (None, w')"
    using Cons.prems(1) by (auto simp: a split: bind_splits if_splits)
  obtain msg where msg: "message_of msgs a = Some msg" "writer_data w1 = sorted_insert (add_key a, msg) (writer_data w)"
    using writer_Add_data [OF w1(1)] Cons.prems(2) by (auto simp: a add_key_def)
  have fresh: "add_key a \<notin> fst ` set (writer_data w)" using Cons.prems(6) by simp
  have map1: "map_of (writer_data w1) = (map_of (writer_data w))(add_key a \<mapsto> msg)"
    using map_of_sorted_insert [OF Cons.prems(4), of "(add_key a, msg)"] fresh by (simp add: msg(2))
  have dom1: "fst ` set (writer_data w1) = insert (add_key a) (fst ` set (writer_data w))" by (simp add: msg(2) sorted_insert_fst)
  have nonempty: "[] < add_key a" using key_of_nonempty by (simp add: a add_key_def)
  have IH: "keys_sorted (writer_data w') \<and> (\<forall>k\<in>fst ` set (writer_data w'). [] < k) \<and>
    (\<forall>a\<in>set as. \<exists>msg. message_of msgs a = Some msg \<and> map_of (writer_data w') (add_key a) = Some msg) \<and>
    (\<forall>k\<in>fst ` set (writer_data w1). map_of (writer_data w') k = map_of (writer_data w1) k)"
  proof (rule Cons.IH [OF w1(2)])
    show "keys_sorted (writer_data w1)" using sorted_insert_sorted [OF Cons.prems(4)] by (simp add: msg(2))
    show "\<forall>k\<in>fst ` set (writer_data w1). [] < k" using Cons.prems(5) nonempty by (simp add: dom1)
    show "\<forall>b\<in>set as. add_key b \<notin> fst ` set (writer_data w1)"
    proof
      fix b assume b: "b \<in> set as"
      then have "add_key b \<noteq> add_key a" using Cons.prems(3) imageI [OF b, of add_key] by (metis distinct.simps(2) list.simps(9) set_map)
      then show "add_key b \<notin> fst ` set (writer_data w1)" using Cons.prems(6) b by (simp add: dom1)
    qed
  qed (use Cons.prems in auto)
  have "map_of (writer_data w') (add_key a) = Some msg" using IH by (simp add: dom1 map1)
  moreover have "map_of (writer_data w') k = map_of (writer_data w) k" if "k \<in> fst ` set (writer_data w)" for k
  proof -
    have "k \<noteq> add_key a" using that fresh by blast
    moreover have "map_of (writer_data w') k = map_of (writer_data w1) k" using IH that unfolding dom1 by blast
    ultimately show ?thesis by (simp add: map1)
  qed
  ultimately show ?case using IH msg(1) by auto
qed simp

subsection \<open>Finding\<close>

lemma Get_lookup:
  assumes "Table_NewIterator rf t = Some i" "tl_over (BlockReader rf) es i" "keys_sorted es"
  shows "Get rf t key = Some (map_of es key)"
proof -
  obtain i' where i': "tl_Seek (rd_le rf) (BlockReader rf) key i = Some i'" "tl_at (BlockReader rf) es (lower_bound key es) i'"
    using tl.at_seek [OF assms(2,3)] by blast
  show ?thesis
  proof (cases "lower_bound key es < length es")
    case True
    then show ?thesis using assms(1) i' tl.at_valid [OF i'(2)] tl.at_entry [OF i'(2) True] lower_bound_entry(2) [OF assms(3) refl True]
      by (simp add: Get_def)
  next
    case False
    then have "lower_bound key es = length es" using lower_bound_le [of key es] by simp
    then show ?thesis using assms(1) i' tl.at_valid [OF i'(2)] False lower_bound_none by (simp add: Get_def)
  qed
qed

lemma checkpoint_found:
  assumes "save_all msgs as TensorSliceWriter = Some (None, w)" "\<forall>a\<in>set as. good_addition a"
    and "distinct (map (\<lambda>(name, shape, slc, dt, data). (name, slc)) as)"
    and "written_table env bytes_of checkpoint_options (([], msg_meta msgs (writer_metas w)) # writer_data w) f rf"
  shows "fst (writer_Finish env msgs w f) = OK \<and>
    (\<exists>t. Table_Open rf (word_of_nat (length (bytes_of (tb_file (snd (writer_Finish env msgs w f)))))) = Some (Inr t) \<and> Get rf t [] = Some (Some (msg_meta msgs (writer_metas w))) \<and>
      (\<forall>(name, shape, slc, dt, data)\<in>set as. \<exists>key msg. EncodeTensorNameSlice name slc = Some key \<and>
        message_of msgs (name, shape, slc, dt, data) = Some msg \<and> Get rf t key = Some (Some msg)))"
proof -
  let ?es = "([], msg_meta msgs (writer_metas w)) # writer_data w"
  have finish: "writer_Finish env msgs w f = build_table env checkpoint_options ?es f"
    by (simp add: writer_Finish_def build_table_def)
  have "distinct (map add_key as)"
  proof -
    have "inj_on (\<lambda>(n, s). key_of n s) ((\<lambda>(name, shape, slc, dt, data). (name, slc)) ` set as)"
    proof (rule inj_onI, clarify)
      fix n1 s1 z1 d1 x1 n2 s2 z2 d2 x2
      assume mem: "(n1, z1, s1, d1, x1) \<in> set as" "(n2, z2, s2, d2, x2) \<in> set as" and eq: "key_of n1 s1 = key_of n2 s2"
      from bspec [OF assms(2) mem(1)] bspec [OF assms(2) mem(2)] show "n1 = n2 \<and> s1 = s2"
        using key_of_inj [OF _ _ _ _ eq] by (simp add: good_addition_def)
    qed
    then have "distinct (map (\<lambda>(n, s). key_of n s) (map (\<lambda>(name, shape, slc, dt, data). (name, slc)) as))"
      using assms(3) by (subst distinct_map) simp
    moreover have "map (\<lambda>(n, s). key_of n s) (map (\<lambda>(name, shape, slc, dt, data). (name, slc)) as) = map add_key as"
      by (auto simp: add_key_def)
    ultimately show ?thesis by (simp only:)
  qed
  then have data: "keys_sorted (writer_data w)" "\<forall>k\<in>fst ` set (writer_data w). [] < k"
    "\<forall>a\<in>set as. \<exists>msg. message_of msgs a = Some msg \<and> map_of (writer_data w) (add_key a) = Some msg"
    using save_all_data [OF assms(1,2)] by (simp_all add: TensorSliceWriter_def keys_sorted_def)
  then have sorted: "keys_sorted ?es" by (simp add: keys_sorted_Cons)
  obtain t i where t: "Table_Open rf (word_of_nat (length (bytes_of (tb_file (snd (writer_Finish env msgs w f)))))) = Some (Inr t)" "Table_NewIterator rf t = Some i" "tl_over (BlockReader rf) ?es i"
    using table_iterator [OF assms(4) sorted refl] by (auto simp: finish)
  have get: "Get rf t key = Some (map_of ?es key)" for key by (rule Get_lookup [OF t(2,3) sorted])
  have "\<exists>key msg. EncodeTensorNameSlice name slc = Some key \<and> message_of msgs (name, shape, slc, dt, data) = Some msg \<and> Get rf t key = Some (Some msg)"
    if "(name, shape, slc, dt, data) \<in> set as" for name shape slc dt data
    using bspec [OF data(3) that] key_of_nonempty [of name slc] by (auto simp: Encode_key_of get add_key_def)
  moreover obtain r where "build_table env checkpoint_options ?es f = (OK, r)" using built_table [OF assms(4) sorted refl] by blast
  ultimately show ?thesis using t(1) get [of "[]"] by (auto simp: finish)
qed

text \<open>A checkpoint holds what was saved. When a sequence of additions of pairwise different slices has succeeded, the file that is then
  written opens; its empty key has the list of all slices; and under the key of each slice that was added, the lookup of the
  reader finds the message with the data of exactly the elements the slice selects (their number, as the code computes it, modulo \<open>2 ^ 32\<close>).
  This composes the table files, the ordered keys, the slices and the shapes.\<close>

theorem checkpoint_holds_slices:
  assumes "save_all msgs as TensorSliceWriter = Some (None, w)" "\<forall>a\<in>set as. good_addition a"
    and "distinct (map (\<lambda>(name, shape, slc, dt, data). (name, slc)) as)"
    and "written_table env bytes_of checkpoint_options (([], msg_meta msgs (writer_metas w)) # writer_data w) f rf"
    and "F = bytes_of (tb_file (snd (writer_Finish env msgs w f)))"
  shows "fst (writer_Finish env msgs w f) = OK \<and>
    (\<exists>t. Table_Open rf (word_of_nat (length F)) = Some (Inr t) \<and> Get rf t [] = Some (Some (msg_meta msgs (writer_metas w))) \<and>
      (\<forall>(name, shape, slc, dt, data)\<in>set as. \<exists>key msg. EncodeTensorNameSlice name slc = Some key \<and>
        message_of msgs (name, shape, slc, dt, data) = Some msg \<and> Get rf t key = Some (Some msg)))"
  using checkpoint_found [OF assms(1-4)] assms(5) by simp

subsection \<open>Restoring\<close>

definition full_slice :: "tensor_slice \<Rightarrow> bool" where
  "full_slice s \<longleftrightarrow> normal_slice s \<and> (\<forall>d < sdims s. lengths s ! d \<noteq> 0)"

lemma full_slice_text: "full_slice s \<Longrightarrow> full_slice t \<Longrightarrow> SliceDebugString s = SliceDebugString t \<Longrightarrow> s = t"
proof -
  assume full: "full_slice s" "full_slice t" and eq: "SliceDebugString s = SliceDebugString t"
  have "ParseSlice (SliceDebugString t) EmptySlice = (None, s)" using ParseSlice_text [of s] full(1) unfolding full_slice_def eq by blast
  moreover have "ParseSlice (SliceDebugString t) EmptySlice = (None, t)" using ParseSlice_text [of t] full(2) unfolding full_slice_def by blast
  ultimately show ?thesis by simp
qed

text \<open>What the list of a writer holds.\<close>

definition listed :: "tensor_slice_writer \<Rightarrow> u8 list \<Rightarrow> tensor_slice \<Rightarrow> bool" where
  "listed w name slc \<longleftrightarrow> (\<exists>ssm\<in>set (writer_metas w). ssm_name ssm = name \<and> SliceAsProto slc [] \<in> set (ssm_slices ssm))"

definition lists_full :: "tensor_slice_writer \<Rightarrow> bool" where
  "lists_full w \<longleftrightarrow> (\<forall>ssm\<in>set (writer_metas w). \<forall>tsp\<in>set (ssm_slices ssm). \<exists>s. full_slice s \<and> tsp = SliceAsProto s [])"

lemma writer_Add_lists:
  assumes add: "writer_Add msgs name shape slc dt data w = Some (None, w')" and full: "full_slice slc" "lists_full w"
  shows "lists_full w'" "listed w' name slc" "listed w n s \<Longrightarrow> listed w' n s"
proof -
  obtain index w1 where f: "find_tensor name shape dt w = Some (Inr (index, w1))" "dims shape = sdims slc"
    using add by (auto simp: writer_Add_def split: if_splits bind_splits sum.splits)
  note fs = find_tensor_shape [OF f(1)]
  have old: "set (writer_metas w) \<subseteq> set (writer_metas w1)" "\<forall>ssm\<in>set (writer_metas w1). ssm \<in> set (writer_metas w) \<or> ssm_slices ssm = []"
    using f(1) by (auto simp: find_tensor_def Let_def split: option.splits if_splits bind_splits)
  define ssm where "ssm = writer_metas w1 ! index"
  define new where "new = ssm\<lparr>ssm_slices := ssm_slices ssm @ [SliceAsProto slc []]\<rparr>"
  have metas: "writer_metas w' = (writer_metas w1)[index := new]"
    using add f by (auto simp: writer_Add_def Let_def new_def ssm_def split: bind_splits option.splits if_splits)
  have mem: "ssm \<in> set (writer_metas w1)" "new \<in> set (writer_metas w')" using fs(1) by (simp_all add: ssm_def metas set_update_memI)
  have keep: "x \<in> set (writer_metas w') \<or> x = ssm" if "x \<in> set (writer_metas w1)" for x
    using that fs(1) by (auto simp: metas ssm_def in_set_conv_nth nth_list_update)
  have w1: "lists_full w1" using full(2) old(2) by (fastforce simp: lists_full_def)
  show "lists_full w'" unfolding lists_full_def
  proof (intro ballI)
    fix x tsp assume x: "x \<in> set (writer_metas w')" "tsp \<in> set (ssm_slices x)"
    then have "x \<in> set (writer_metas w1) \<or> x = new" using set_update_subset_insert [of "writer_metas w1" index new] unfolding metas by blast
    then have "(\<exists>y\<in>set (writer_metas w1). tsp \<in> set (ssm_slices y)) \<or> tsp = SliceAsProto slc []"
      using x(2) mem(1) by (auto simp: new_def)
    then show "\<exists>s. full_slice s \<and> tsp = SliceAsProto s []" using w1 full(1) unfolding lists_full_def by blast
  qed
  have "ssm_name new = name" "SliceAsProto slc [] \<in> set (ssm_slices new)" using fs(2) by (simp_all add: new_def ssm_def)
  then show "listed w' name slc" using mem(2) unfolding listed_def by blast
  show "listed w' n s" if old_listed: "listed w n s"
  proof -
    obtain x where x: "x \<in> set (writer_metas w1)" "ssm_name x = n" "SliceAsProto s [] \<in> set (ssm_slices x)" using old_listed old(1) unfolding listed_def by blast
    from keep [OF x(1)] show ?thesis
    proof
      assume "x = ssm"
      then have "ssm_name new = n" "SliceAsProto s [] \<in> set (ssm_slices new)" using x by (simp_all add: new_def)
      then show ?thesis using mem(2) by (auto simp: listed_def)
    qed (use x in \<open>auto simp: listed_def\<close>)
  qed
qed

lemma save_all_lists:
  assumes "save_all msgs as w = Some (None, w')" "\<forall>a\<in>set as. full_slice (fst (snd (snd a)))" "lists_full w"
  shows "lists_full w' \<and> (\<forall>a\<in>set as. listed w' (fst a) (fst (snd (snd a)))) \<and> (\<forall>n s. listed w n s \<longrightarrow> listed w' n s)"
  using assms
proof (induction as arbitrary: w)
  case (Cons a as)
  obtain name shape slc dt data where a: "a = (name, shape, slc, dt, data)" by (metis prod_cases5)
  obtain w1 where w1: "writer_Add msgs name shape slc dt data w = Some (None, w1)" "save_all msgs as w1 = Some (None, w')"
    using Cons.prems(1) by (auto simp: a split: bind_splits if_splits)
  have full: "full_slice slc" using Cons.prems(2) by (simp add: a)
  note one = writer_Add_lists [OF w1(1) full Cons.prems(3)]
  have "lists_full w' \<and> (\<forall>a\<in>set as. listed w' (fst a) (fst (snd (snd a)))) \<and> (\<forall>n s. listed w1 n s \<longrightarrow> listed w' n s)"
    by (rule Cons.IH [OF w1(2) _ one(1)]) (use Cons.prems(2) in simp)
  then show ?case using one(2,3) by (simp add: a)
qed simp

text \<open>What a reader has registered.\<close>

definition tensors_ok :: "string \<Rightarrow> (u8 list \<times> unit slice_set) list \<Rightarrow> bool" where
  "tensors_ok fname ts \<longleftrightarrow> (\<forall>n tss str info. map_of ts n = Some tss \<longrightarrow> map_of (slices tss) str = Some info \<longrightarrow>
     str = SliceDebugString (info_slice info) \<and> info_tag info = fname \<and> full_slice (info_slice info))"

definition registered :: "(u8 list \<times> unit slice_set) list \<Rightarrow> u8 list \<Rightarrow> tensor_slice \<Rightarrow> bool" where
  "registered ts name slc \<longleftrightarrow> (\<exists>tss info. map_of ts name = Some tss \<and> map_of (slices tss) (SliceDebugString slc) = Some info)"

lemma map_of_put_tensor: "map_of (put_tensor name tss ts) = (map_of ts)(name \<mapsto> tss)"
proof -
  have "map_of (map (\<lambda>(n, s). if n = name then (n, tss) else (n, s)) ts) m = (if m = name \<and> map_of ts name \<noteq> None then Some tss else map_of ts m)" for m
    by (induction ts) auto
  then show ?thesis by (auto simp: put_tensor_def fun_eq_iff map_add_def split: option.splits)
qed

lemma map_of_map_insert: "map_of (map_insert p m) = (if map_of m (fst p) = None then (map_of m)(fst p \<mapsto> snd p) else map_of m)"
  by (cases p) (auto simp: map_insert_def fun_eq_iff map_add_def split: option.splits)

lemma Register_slices:
  assumes "Register slc tag d tss = Some (e, tss')"
  shows "if e = None then \<exists>info. info_slice info = slc \<and> info_tag info = tag \<and> slices tss' = map_insert (SliceDebugString slc, info) (slices tss)
    else slices tss' = slices tss"
  using assms by (auto simp: Register_def Let_def split: option.splits if_splits prod.splits) (metis slice_info.select_convs(1,2))+

text \<open>One more slice is registered; an error stays.\<close>

lemma RegisterTensorSlice_step:
  assumes "RegisterTensorSlice name shape type fname slc st = Some st'" "full_slice slc" "tensors_ok fname (reader_tensors st)"
  shows "tensors_ok fname (reader_tensors st')" "shard_tables st' = shard_tables st"
    "reader_status st' = None \<Longrightarrow> reader_status st = None \<and> registered (reader_tensors st') name slc"
    "registered (reader_tensors st) n s \<Longrightarrow> registered (reader_tensors st') n s"
proof -
  define tss where "tss = (case map_of (reader_tensors st) name of None \<Rightarrow> MkTensorSliceSet shape type | Some tss \<Rightarrow> tss)"
  have cases: "reader_tensors st' = reader_tensors st \<and> shard_tables st' = shard_tables st \<and> reader_status st' \<noteq> None \<or>
    (\<exists>e tss'. Register slc fname () tss = Some (e, tss') \<and> reader_tensors st' = put_tensor name tss' (reader_tensors st) \<and>
       shard_tables st' = shard_tables st \<and> reader_status st' = (case e of None \<Rightarrow> reader_status st | Some e \<Rightarrow> Some (RegisterFailed e)))"
    using assms(1) by (auto simp: RegisterTensorSlice_def Let_def tss_def [symmetric] split: if_splits bind_splits option.splits)
  then show "shard_tables st' = shard_tables st" by blast
  have "tensors_ok fname (reader_tensors st') \<and>
    (reader_status st' = None \<longrightarrow> reader_status st = None \<and> registered (reader_tensors st') name slc) \<and>
    (registered (reader_tensors st) n s \<longrightarrow> registered (reader_tensors st') n s)"
    using cases
  proof (elim disjE exE conjE)
    fix e tss' assume reg: "Register slc fname () tss = Some (e, tss')" and ts: "reader_tensors st' = put_tensor name tss' (reader_tensors st)"
      and status: "reader_status st' = (case e of None \<Rightarrow> reader_status st | Some e \<Rightarrow> Some (RegisterFailed e))"
    have map: "map_of (reader_tensors st') = (map_of (reader_tensors st))(name \<mapsto> tss')" by (simp add: ts map_of_put_tensor)
    have old: "map_of (reader_tensors st) name = Some tss \<or> map_of (reader_tensors st) name = None \<and> slices tss = []"
      by (auto simp: tss_def MkTensorSliceSet_def split: option.splits)
    have slices: "map_of (slices tss') str = map_of (slices tss) str \<or>
        str = SliceDebugString slc \<and> (\<exists>info. map_of (slices tss') str = Some info \<and> info_slice info = slc \<and> info_tag info = fname)"
      "map_of (slices tss) str \<noteq> None \<longrightarrow> map_of (slices tss') str = map_of (slices tss) str"
      "e = None \<longrightarrow> map_of (slices tss') (SliceDebugString slc) \<noteq> None" for str
      using Register_slices [OF reg] by (auto simp: map_of_map_insert split: if_splits)
    have "tensors_ok fname (reader_tensors st')"
      unfolding tensors_ok_def
    proof (intro allI impI)
      fix n tss0 str info assume new: "map_of (reader_tensors st') n = Some tss0" "map_of (slices tss0) str = Some info"
      show "str = SliceDebugString (info_slice info) \<and> info_tag info = fname \<and> full_slice (info_slice info)"
      proof (cases "n = name")
        case True
        then have "tss0 = tss'" using new(1) by (simp add: map)
        then show ?thesis using slices(1) [of str] new(2) old assms(2,3) unfolding tensors_ok_def by auto
      next
        case False
        then show ?thesis using new assms(3) by (auto simp: map tensors_ok_def)
      qed
    qed
    moreover have "reader_status st' = None \<longrightarrow> reader_status st = None \<and> registered (reader_tensors st') name slc"
      using slices(3) status by (auto simp: registered_def map split: option.splits)
    moreover have "registered (reader_tensors st) n s \<longrightarrow> registered (reader_tensors st') n s"
      using slices(2) old by (auto simp: registered_def map)
    ultimately show ?thesis by blast
  qed (use assms(3) in auto)
  then show "tensors_ok fname (reader_tensors st')"
    "reader_status st' = None \<Longrightarrow> reader_status st = None \<and> registered (reader_tensors st') name slc"
    "registered (reader_tensors st) n s \<Longrightarrow> registered (reader_tensors st') n s" by blast+
qed

text \<open>A state follows another: nothing that is registered is lost, and the status is only good if it was.\<close>

definition follows :: "string \<Rightarrow> tensor_slice_reader \<Rightarrow> tensor_slice_reader \<Rightarrow> bool" where
  "follows fname st st' \<longleftrightarrow> tensors_ok fname (reader_tensors st') \<and> shard_tables st' = shard_tables st \<and>
     (reader_status st' = None \<longrightarrow> reader_status st = None) \<and> (\<forall>n s. registered (reader_tensors st) n s \<longrightarrow> registered (reader_tensors st') n s)"

lemma register_slices_spec:
  assumes "register_slices ssm shape fname tsps st = Some st'" "\<forall>tsp\<in>set tsps. \<exists>s. full_slice s \<and> tsp = SliceAsProto s []"
    "tensors_ok fname (reader_tensors st)"
  shows "follows fname st st' \<and> (reader_status st' = None \<longrightarrow>
    (\<forall>s. full_slice s \<longrightarrow> SliceAsProto s [] \<in> set tsps \<longrightarrow> registered (reader_tensors st') (ssm_name ssm) s))"
  using assms
proof (induction tsps arbitrary: st)
  case (Cons tsp tsps)
  obtain s where s: "full_slice s" "tsp = SliceAsProto s []" using Cons.prems(2) by auto
  then have from_proto: "SliceFromProto tsp = s" using proto_roundtrip by (simp add: full_slice_def)
  obtain st1 where st1: "RegisterTensorSlice (ssm_name ssm) shape (ssm_type ssm) fname s st = Some st1"
    "register_slices ssm shape fname tsps st1 = Some st'" using Cons.prems(1) from_proto by (auto split: bind_splits)
  note step = RegisterTensorSlice_step [OF st1(1) s(1) Cons.prems(3)]
  have IH: "follows fname st1 st' \<and> (reader_status st' = None \<longrightarrow>
    (\<forall>s. full_slice s \<longrightarrow> SliceAsProto s [] \<in> set tsps \<longrightarrow> registered (reader_tensors st') (ssm_name ssm) s))"
    using Cons.IH [OF st1(2) _ step(1)] Cons.prems(2) by simp
  have "t = s" if "full_slice t" "SliceAsProto t [] = tsp" for t
    using proto_roundtrip [of t] that from_proto by (simp add: full_slice_def)
  then show ?case using IH step unfolding follows_def by (metis set_ConsD)
qed (simp add: follows_def)

lemma register_tensors_spec:
  assumes "register_tensors fname ssms st = Some st'" "\<forall>ssm\<in>set ssms. \<forall>tsp\<in>set (ssm_slices ssm). \<exists>s. full_slice s \<and> tsp = SliceAsProto s []"
    "tensors_ok fname (reader_tensors st)"
  shows "follows fname st st' \<and> (reader_status st' = None \<longrightarrow>
    (\<forall>ssm\<in>set ssms. \<forall>s. full_slice s \<longrightarrow> SliceAsProto s [] \<in> set (ssm_slices ssm) \<longrightarrow> registered (reader_tensors st') (ssm_name ssm) s))"
  using assms
proof (induction ssms arbitrary: st)
  case (Cons ssm ssms)
  obtain shape st1 where st1: "register_slices ssm shape fname (ssm_slices ssm) st = Some st1" "register_tensors fname ssms st1 = Some st'"
    using Cons.prems(1) by (auto split: bind_splits)
  have one: "follows fname st st1 \<and> (reader_status st1 = None \<longrightarrow>
    (\<forall>s. full_slice s \<longrightarrow> SliceAsProto s [] \<in> set (ssm_slices ssm) \<longrightarrow> registered (reader_tensors st1) (ssm_name ssm) s))"
    using register_slices_spec [OF st1(1) _ Cons.prems(3)] Cons.prems(2) by simp
  then have "tensors_ok fname (reader_tensors st1)" by (simp add: follows_def)
  from Cons.IH [OF st1(2) _ this] Cons.prems(2)
  have IH: "follows fname st1 st' \<and> (reader_status st' = None \<longrightarrow>
    (\<forall>ssm\<in>set ssms. \<forall>s. full_slice s \<longrightarrow> SliceAsProto s [] \<in> set (ssm_slices ssm) \<longrightarrow> registered (reader_tensors st') (ssm_name ssm) s))" by simp
  show ?case using IH one unfolding follows_def by (metis set_ConsD)
qed (simp add: follows_def)

lemma LoadShard_first:
  assumes "Table_Open rf sz = Some (Inr t)" "Get rf t [] = Some (Some m)" "parse_meta msgs m = Some (True, ssms)"
  shows "LoadShard msgs [(fname, rf, sz)] 0 (TensorSliceReader [(fname, rf, sz)]) =
    register_tensors fname ssms ((TensorSliceReader [(fname, rf, sz)])\<lparr>shard_tables := [Some t]\<rparr>)"
  using assms by (simp add: LoadShard_def TensorSliceReader_def)

lemma open_one:
  assumes "files = [(fname, rf, sz)]"
  shows "open_reader msgs files shard = map_option (\<lambda>st. st\<lparr>all_shards_loaded := True\<rparr>) (LoadShard msgs files 0 (TensorSliceReader files))"
proof -
  have "reader_status (TensorSliceReader files) = None" by (simp add: TensorSliceReader_def)
  then show ?thesis using assms
    by (cases "LoadShard msgs files 0 (TensorSliceReader files)") (simp_all add: open_reader_def LoadAllShards_def Let_def)
qed

text \<open>When the reader has loaded the checkpoint without an error, the request for a slice that was saved finds it, reads the message that was
  written for it and hands its data to the copying routine, once, with the slice itself as source and destination.\<close>

lemma restored_slice:
  assumes "save_all msgs as TensorSliceWriter = Some (None, w)" "\<forall>a\<in>set as. good_addition a \<and> full_slice (fst (snd (snd a)))"
    and "distinct (map (\<lambda>(name, shape, slc, dt, data). (name, slc)) as)"
    and "written_table env bytes_of checkpoint_options (([], msg_meta msgs (writer_metas w)) # writer_data w) f rf"
    and "parse_meta msgs (msg_meta msgs (writer_metas w)) = Some (True, writer_metas w)"
    and "files = [(fname, rf, word_of_nat (length (bytes_of (tb_file (snd (writer_Finish env msgs w f))))))]"
    and "open_reader msgs files shard = Some st" "reader_status st = None"
    and "(name, shape, slc, dt, data) \<in> set as" "message_of msgs (name, shape, slc, dt, data) = Some msg" "parse_data msgs msg = Some d"
  shows "\<exists>tss. map_of (reader_tensors st) name = Some tss \<and>
    CopySliceData msgs copy files name slc buf st = Some (True, copy (set_shape tss) slc slc d buf, st)"
proof -
  let ?F = "bytes_of (tb_file (snd (writer_Finish env msgs w f)))"
  obtain t where t: "Table_Open rf (word_of_nat (length ?F)) = Some (Inr t)" "Get rf t [] = Some (Some (msg_meta msgs (writer_metas w)))"
    "Get rf t (key_of name slc) = Some (Some msg)"
  proof -
    have good: "\<forall>a\<in>set as. good_addition a" using assms(2) by blast
    obtain t where t: "Table_Open rf (word_of_nat (length ?F)) = Some (Inr t)" "Get rf t [] = Some (Some (msg_meta msgs (writer_metas w)))"
      "\<forall>(name, shape, slc, dt, data)\<in>set as. \<exists>key msg. EncodeTensorNameSlice name slc = Some key \<and>
        message_of msgs (name, shape, slc, dt, data) = Some msg \<and> Get rf t key = Some (Some msg)"
      using checkpoint_found [OF assms(1) good assms(3,4)] by blast
    have "Get rf t (key_of name slc) = Some (Some msg)" using bspec [OF t(3) assms(9)] assms(10) by (simp add: Encode_key_of)
    then show thesis using that t(1,2) by blast
  qed
  obtain st1 where load: "register_tensors fname (writer_metas w) ((TensorSliceReader files)\<lparr>shard_tables := [Some t]\<rparr>) = Some st1"
    and st_st1: "reader_tensors st = reader_tensors st1" "shard_tables st = shard_tables st1" "reader_status st1 = None"
    using open_one [OF assms(6), of msgs shard] LoadShard_first [OF t(1,2) assms(5), of fname] assms(6-8) by auto
  have "lists_full w \<and> (\<forall>a\<in>set as. listed w (fst a) (fst (snd (snd a))))"
    using save_all_lists [OF assms(1)] assms(2) by (simp add: lists_full_def TensorSliceWriter_def)
  then have lists: "lists_full w" "listed w name slc" using assms(9) by force+
  have "full_slice slc" using bspec [OF assms(2,9)] by simp
  moreover have "tensors_ok fname (reader_tensors ((TensorSliceReader files)\<lparr>shard_tables := [Some t]\<rparr>))"
    by (simp add: tensors_ok_def TensorSliceReader_def)
  ultimately have st: "follows fname ((TensorSliceReader files)\<lparr>shard_tables := [Some t]\<rparr>) st1" "registered (reader_tensors st) name slc"
    using register_tensors_spec [OF load] lists st_st1 unfolding lists_full_def listed_def by auto
  then obtain tss info where tss: "map_of (reader_tensors st) name = Some tss" "map_of (slices tss) (SliceDebugString slc) = Some info"
    "info_slice info = slc" "info_tag info = fname"
    using full_slice_text [OF _ \<open>full_slice slc\<close>] unfolding registered_def follows_def tensors_ok_def st_st1(1) by metis
  then have find: "FindTensorSlice name slc st = Some (Some tss, [(slc, fname)])" by (simp add: FindTensorSlice_def QueryMeta_def)
  have "shard_tables st = [Some t]" using st(1) st_st1(2) by (simp add: follows_def)
  then show ?thesis using find tss(1) t(3) assms(6,11) by (simp add: CopySliceData_def Encode_key_of)
qed

subsection \<open>Examples, and what goes wrong\<close>

text \<open>Messages that consist of the data, cut to the number of elements.\<close>

definition sample_msgs :: "u8 list messages" where
  "sample_msgs = \<lparr>msg_ByteSize = \<lambda>name proto. 0, msg_data = \<lambda>name proto data num. Some (take (nat num) data), msg_meta = \<lambda>ms. [7],
     parse_data = Some, parse_meta = \<lambda>v. Some (True, [\<lparr>ssm_name = [97], ssm_shape = [], ssm_type = 1, ssm_slices = [[]]\<rparr>])\<rparr>"

definition sample_addition :: "u8 list addition" where
  "sample_addition = ([97], EmptyShape, EmptySlice, 1, [5])"

definition sample_writer :: tensor_slice_writer where
  "sample_writer = \<lparr>name_to_index = [([97], 0)], writer_metas = [\<lparr>ssm_name = [97], ssm_shape = [], ssm_type = 1, ssm_slices = [[]]\<rparr>],
     writer_data = [([0, 97, 0, 1, 0], [5])], writer_slices = 1\<rparr>"

definition sample_entries2 :: "entry list" where
  "sample_entries2 = [([], [7]), ([0, 97, 0, 1, 0], [5])]"

definition sample_checkpoint :: "u8 list" where
  "sample_checkpoint = tb_file (snd (build_table mem_env checkpoint_options sample_entries2 []))"

definition checkpoint_reader :: reader where
  "checkpoint_reader = \<lparr>rd_le = True, rd_addr = 0, rd_snappy = None, rd_mapped = True, rd_Read = mmap_Read sample_checkpoint\<rparr>"

lemma sample_save: "save_all sample_msgs [sample_addition] TensorSliceWriter = Some (None, sample_writer)"
  by code_simp

lemma length_sample_checkpoint: "length sample_checkpoint < 2 ^ 64"
  by (simp add: sample_checkpoint_def sample_entries2_def checkpoint_options_def build_table_def TableBuilder_def tb_Add_def tb_Flush_def tb_Finish_def
     finish_metaindex_def finish_index_def finish_footer_def WriteBlock_def WriteRawBlock_def tb_Append_def mem_env_def mem_Append_def Let_def Finish_def
     BlockBuilder_def add_index_entry_def Add_def PutVarint32_def PutFixed32_def CurrentSizeEstimate_def file_ok_def Snappy_Compress_def footer_EncodeTo_eq
     handle_EncodeTo_eq handle_bytes_def EncodeVarint32_def EncodeVarint64.simps [of 0] EncodeVarint64.simps [of 21])

lemma sample_checkpoint_written:
  "written_table mem_env (\<lambda>f. f) checkpoint_options (([], msg_meta sample_msgs (writer_metas sample_writer)) # writer_data sample_writer) []
    checkpoint_reader"
  "tb_file (snd (writer_Finish mem_env sample_msgs sample_writer [])) = sample_checkpoint"
proof -
  have es: "([], msg_meta sample_msgs (writer_metas sample_writer)) # writer_data sample_writer = sample_entries2"
    by (simp add: sample_msgs_def sample_writer_def sample_entries2_def)
  have "writable mem_env (\<lambda>f. f)" using mem_accepts by (simp add: writable_def mem_env_def)
  moreover have "reads checkpoint_reader None sample_checkpoint"
    using mmap.random_access_file_axioms length_sample_checkpoint by (simp add: reads_def checkpoint_reader_def)
  moreover have "env_snappy mem_env = None" by (simp add: mem_env_def)
  moreover have "entries_weight sample_entries2 = 87" by (simp add: entries_weight_def sample_entries2_def)
  ultimately show "written_table mem_env (\<lambda>f. f) checkpoint_options (([], msg_meta sample_msgs (writer_metas sample_writer)) # writer_data sample_writer) []
      checkpoint_reader"
    using no_snappy.compression_axioms unfolding es by (simp add: written_table_def sample_checkpoint_def)
  show "tb_file (snd (writer_Finish mem_env sample_msgs sample_writer [])) = sample_checkpoint"
    using es by (simp add: sample_checkpoint_def writer_Finish_def build_table_def sample_entries2_def)
qed

lemma sample_good: "\<forall>a\<in>set [sample_addition]. good_addition a \<and> full_slice (fst (snd (snd a)))"
proof -
  have z: "dim_sizes EmptyShape = []" by code_simp
  have "wf_shape EmptyShape" using shape_inv_Empty by (simp add: shape_inv_def)
  then show ?thesis
    by (simp add: sample_addition_def good_addition_def full_slice_def z bounded_sizes_def kMaxElements_def normal_slice_def wf_slice_def EmptySlice_def sdims_def)
qed

lemma sample_message: "message_of sample_msgs sample_addition = Some [5]"
  by code_simp

theorem checkpoint_holds_slices_witness:
  "\<exists>t key. Table_Open checkpoint_reader (word_of_nat (length sample_checkpoint)) = Some (Inr t) \<and>
    EncodeTensorNameSlice [97] EmptySlice = Some key \<and> Get checkpoint_reader t key = Some (Some [5])"
proof -
  have good: "\<forall>a\<in>set [sample_addition]. good_addition a" using sample_good by blast
  show ?thesis
    using checkpoint_holds_slices [OF sample_save good _ sample_checkpoint_written(1) refl] sample_message unfolding sample_checkpoint_written(2)
    by (auto simp: sample_addition_def)
qed

text \<open>Tensors of \<open>2 ^ 32\<close> and of \<open>2 ^ 30\<close> elements, and all of them.\<close>

definition huge_shape :: tensor_shape where
  "huge_shape = \<lparr>rep = RepOutOfLine [2 ^ 32], ndims_byte = 1, data_type = 0, num_elements = 2 ^ 32\<rparr>"

definition big_shape :: tensor_shape where
  "big_shape = \<lparr>rep = Rep32 [2 ^ 30, 0, 0], ndims_byte = 1, data_type = 0, num_elements = 2 ^ 30\<rparr>"

definition whole :: tensor_slice where
  "whole = \<lparr>starts = [0], lengths = [- 1]\<rparr>"

lemma huge_slice: "SliceTensorShape whole huge_shape EmptyShape = Some (None, huge_shape)"
  by code_simp

lemma huge_MkTensorShape: "MkTensorShape [2 ^ 32] = Some huge_shape" "dim_sizes huge_shape = [2 ^ 32]" "dims huge_shape = 1" "sdims whole = 1"
  by code_simp+

lemma huge_SaveData: "SaveData 0 4 0 = Some True"
  by code_simp

lemma big_slice: "SliceTensorShape whole big_shape EmptyShape = Some (None, big_shape)"
  by code_simp

lemma big_MkTensorShape: "MkTensorShape [2 ^ 30] = Some big_shape" "dim_sizes big_shape = [2 ^ 30]" "dims big_shape = 1"
  by code_simp+

lemma big_SaveData: "SaveData 0 1 (2 ^ 30) = Some False" "wrap32 (num_elements big_shape) = 2 ^ 30"
  by code_simp+

text \<open>The number of elements is handed to \<open>SaveData\<close> as an \<open>int\<close>: a whole tensor of \<open>2 ^ 32\<close> bytes is saved without an error, and its message has
  no element at all.\<close>

theorem huge_slice_saved_empty:
  "MkTensorShape [2 ^ 32] = Some huge_shape \<and>
    (\<exists>w. writer_Add sample_msgs name huge_shape whole 4 data TensorSliceWriter = Some (None, w) \<and> map snd (writer_data w) = [[]])"
proof -
  have "wrap32 (num_elements huge_shape) = 0" by code_simp
  then show ?thesis
    by (simp add: writer_Add_def find_tensor_def TensorSliceWriter_def huge_MkTensorShape huge_MkTensorShape [simplified] huge_slice huge_SaveData Encode_key_of sample_msgs_def Let_def)
qed

text \<open>An addition that fails because its data is too large has already put the slice on the list: the checkpoint that is written lists a
  slice it does not hold, and a failed check aborts the process that asks for it.\<close>

theorem failed_addition_is_listed:
  "MkTensorShape [2 ^ 30] = Some big_shape \<and>
    (\<exists>w. writer_Add sample_msgs name big_shape whole 1 data TensorSliceWriter = Some (Some TooLargeToSerialize, w) \<and>
      writer_data w = [] \<and> map ssm_slices (writer_metas w) = [[SliceAsProto whole []]])"
  by (simp add: writer_Add_def find_tensor_def TensorSliceWriter_def big_MkTensorShape big_MkTensorShape [simplified] huge_MkTensorShape(4) big_slice
     big_SaveData big_SaveData [simplified] sample_msgs_def Let_def)

end
