(* ===== verification/CheckpointLoad.thy ===== *)
theory CheckpointLoad
  imports CheckpointProps
begin

text \<open>
  Restoring what was saved: when the slices that were saved of a tensor do not overlap, the reader loads the checkpoint without an error.
\<close>

subsection \<open>What the writer lists\<close>

lemma writer_Add_metas:
  assumes add: "writer_Add msgs name shape slc dt data w = Some (None, w')"
  defines "proto \<equiv> SliceAsProto slc []"
  shows "\<exists>s r. MkTensorShape (dim_sizes shape) = Some s \<and> SliceTensorShape slc s EmptyShape = Some (None, r)"
    and "(\<exists>index ssm. index < length (writer_metas w) \<and> ssm = writer_metas w ! index \<and> ssm_name ssm = name \<and> ssm_shape ssm = dim_sizes shape \<and>
        ssm_type ssm = dt \<and> writer_metas w' = (writer_metas w)[index := ssm\<lparr>ssm_slices := ssm_slices ssm @ [proto]\<rparr>] \<and>
        name_to_index w' = name_to_index w) \<or>
      map_of (name_to_index w) name = None \<and> name_to_index w' = name_to_index w @ [(name, length (writer_metas w))] \<and>
        writer_metas w' = writer_metas w @ [\<lparr>ssm_name = name, ssm_shape = dim_sizes shape, ssm_type = dt, ssm_slices = [proto]\<rparr>]"
proof -
  obtain index w1 where f: "find_tensor name shape dt w = Some (Inr (index, w1))"
    using add by (auto simp: writer_Add_def split: if_splits bind_splits sum.splits)
  define ssm where "ssm = writer_metas w1 ! index"
  obtain s r where s: "MkTensorShape (ssm_shape ssm) = Some s" "SliceTensorShape slc s EmptyShape = Some (None, r)"
    using add f by (auto simp: writer_Add_def Let_def ssm_def split: if_splits bind_splits option.splits)
  have metas: "writer_metas w' = (writer_metas w1)[index := ssm\<lparr>ssm_slices := ssm_slices ssm @ [proto]\<rparr>]" "name_to_index w' = name_to_index w1"
    using add f by (auto simp: writer_Add_def Let_def ssm_def proto_def split: bind_splits option.splits if_splits)
  have cases: "w1 = w \<and> index < length (writer_metas w) \<and> ssm_name ssm = name \<and> ssm_shape ssm = dim_sizes shape \<and> ssm_type ssm = dt \<or>
    map_of (name_to_index w) name = None \<and> index = length (writer_metas w) \<and> name_to_index w1 = name_to_index w @ [(name, length (writer_metas w))] \<and>
    writer_metas w1 = writer_metas w @ [\<lparr>ssm_name = name, ssm_shape = dim_sizes shape, ssm_type = dt, ssm_slices = []\<rparr>]"
    using f MkTensorShape_sizes(1)
    by (auto simp: find_tensor_def Let_def IsSameSize_iff ssm_def split: option.splits if_splits bind_splits)
  then have "ssm_shape ssm = dim_sizes shape" by (auto simp: ssm_def)
  then show "\<exists>s r. MkTensorShape (dim_sizes shape) = Some s \<and> SliceTensorShape slc s EmptyShape = Some (None, r)" using s by auto
  show "(\<exists>index ssm. index < length (writer_metas w) \<and> ssm = writer_metas w ! index \<and> ssm_name ssm = name \<and> ssm_shape ssm = dim_sizes shape \<and>
        ssm_type ssm = dt \<and> writer_metas w' = (writer_metas w)[index := ssm\<lparr>ssm_slices := ssm_slices ssm @ [proto]\<rparr>] \<and>
        name_to_index w' = name_to_index w) \<or>
      map_of (name_to_index w) name = None \<and> name_to_index w' = name_to_index w @ [(name, length (writer_metas w))] \<and>
        writer_metas w' = writer_metas w @ [\<lparr>ssm_name = name, ssm_shape = dim_sizes shape, ssm_type = dt, ssm_slices = [proto]\<rparr>]"
    using cases metas
  proof (elim disjE conjE)
    assume "w1 = w" "index < length (writer_metas w)" "ssm_name ssm = name" "ssm_shape ssm = dim_sizes shape" "ssm_type ssm = dt"
    then show ?thesis using metas ssm_def by blast
  next
    assume new: "map_of (name_to_index w) name = None" "index = length (writer_metas w)"
      "name_to_index w1 = name_to_index w @ [(name, length (writer_metas w))]"
      "writer_metas w1 = writer_metas w @ [\<lparr>ssm_name = name, ssm_shape = dim_sizes shape, ssm_type = dt, ssm_slices = []\<rparr>]"
    then have "ssm = \<lparr>ssm_name = name, ssm_shape = dim_sizes shape, ssm_type = dt, ssm_slices = []\<rparr>" by (simp add: ssm_def)
    then show ?thesis using new metas by simp
  qed
qed

text \<open>The entry of a tensor: slices that fit the tensor, do not overlap, and were saved.\<close>

definition good_meta :: "(u8 list \<times> tensor_slice) set \<Rightarrow> saved_slice_meta \<Rightarrow> bool" where
  "good_meta D ssm \<longleftrightarrow> (\<exists>sl shape. ssm_slices ssm = map (\<lambda>s. SliceAsProto s []) sl \<and> sl \<noteq> [] \<and> MkTensorShape (ssm_shape ssm) = Some shape \<and>
     bounded_sizes (ssm_shape ssm) \<and> sorted_wrt (\<lambda>s t. \<not> Overlaps t s) sl \<and>
     (\<forall>s\<in>set sl. full_slice s \<and> fits (ssm_shape ssm) s \<and> (ssm_name ssm, s) \<in> D))"

lemma good_meta_mono: "good_meta D ssm \<Longrightarrow> D \<subseteq> E \<Longrightarrow> good_meta E ssm"
  unfolding good_meta_def by blast

abbreviation signature :: "saved_slice_meta \<Rightarrow> u8 list \<times> int list \<times> nat" where
  "signature ssm \<equiv> (ssm_name ssm, ssm_shape ssm, ssm_type ssm)"

definition writer_ok :: "(u8 list \<times> tensor_slice) set \<Rightarrow> tensor_slice_writer \<Rightarrow> bool" where
  "writer_ok D w \<longleftrightarrow> fst ` set (name_to_index w) = ssm_name ` set (writer_metas w) \<and> distinct (map ssm_name (writer_metas w)) \<and>
     (\<forall>ssm\<in>set (writer_metas w). good_meta D ssm)"

lemma writer_Add_ok:
  assumes add: "writer_Add msgs name shape slc dt data w = Some (None, w')" and good: "good_addition (name, shape, slc, dt, data)" "full_slice slc"
    and ok: "writer_ok D w" and free: "\<forall>s. (name, s) \<in> D \<longrightarrow> \<not> Overlaps slc s"
  shows "writer_ok (insert (name, slc) D) w'" "signature ` set (writer_metas w) \<subseteq> signature ` set (writer_metas w')"
    "(name, dim_sizes shape, dt) \<in> signature ` set (writer_metas w')"
proof -
  let ?E = "insert (name, slc) D"
  obtain s r where s: "MkTensorShape (dim_sizes shape) = Some s" "SliceTensorShape slc s EmptyShape = Some (None, r)"
    using writer_Add_metas(1) [OF add] by blast
  have shape: "bounded_sizes (dim_sizes shape)" "wf_slice slc" using good by (simp_all add: good_addition_def normal_slice_def)
  have fits: "fits (dim_sizes shape) slc"
    using SliceTensorShape_misfit [of slc s EmptyShape] MkTensorShape_sizes [OF s(1)] s(2) shape by fastforce
  have all: "writer_ok ?E w' \<and> signature ` set (writer_metas w) \<subseteq> signature ` set (writer_metas w') \<and>
    (name, dim_sizes shape, dt) \<in> signature ` set (writer_metas w')"
    using writer_Add_metas(2) [OF add]
  proof (elim disjE exE conjE)
    fix index ssm
    assume old: "index < length (writer_metas w)" "ssm = writer_metas w ! index" "ssm_name ssm = name" "ssm_shape ssm = dim_sizes shape"
      "ssm_type ssm = dt" "writer_metas w' = (writer_metas w)[index := ssm\<lparr>ssm_slices := ssm_slices ssm @ [SliceAsProto slc []]\<rparr>]"
      "name_to_index w' = name_to_index w"
    define new where "new = ssm\<lparr>ssm_slices := ssm_slices ssm @ [SliceAsProto slc []]\<rparr>"
    have mem: "ssm \<in> set (writer_metas w)" using old(1,2) by simp
    then obtain sl z where sl: "ssm_slices ssm = map (\<lambda>s. SliceAsProto s []) sl" "MkTensorShape (ssm_shape ssm) = Some z"
      "bounded_sizes (ssm_shape ssm)" "sorted_wrt (\<lambda>s t. \<not> Overlaps t s) sl"
      "\<forall>s\<in>set sl. full_slice s \<and> fits (ssm_shape ssm) s \<and> (ssm_name ssm, s) \<in> D"
      using ok unfolding writer_ok_def good_meta_def by blast
    have "sorted_wrt (\<lambda>s t. \<not> Overlaps t s) (sl @ [slc])" using sl(4,5) free old(3) by (auto simp: sorted_wrt_append)
    then have "good_meta ?E new"
      unfolding good_meta_def using sl fits good(2) old(3,4)
      by (intro exI [of _ "sl @ [slc]"] exI [of _ z]) (auto simp: new_def)
    have sig: "map signature (writer_metas w') = map signature (writer_metas w)"
      unfolding old(6) using old(1,2) by (simp add: map_update list_update_same_conv)
    have "map ssm_name xs = map fst (map signature xs)" for xs :: "saved_slice_meta list" by simp
    then have names: "map ssm_name (writer_metas w') = map ssm_name (writer_metas w)" by (simp only: sig)
    have "set (map ssm_name (writer_metas w')) = set (map ssm_name (writer_metas w))" by (simp only: names)
    then have "ssm_name ` set (writer_metas w') = ssm_name ` set (writer_metas w)" by (simp only: set_map)
    moreover have "set (map signature (writer_metas w')) = set (map signature (writer_metas w))" by (simp only: sig)
    then have sigs: "signature ` set (writer_metas w') = signature ` set (writer_metas w)" by (simp only: set_map)
    have "set (writer_metas w') \<subseteq> insert new (set (writer_metas w))" unfolding old(6) new_def by (rule set_update_subset_insert)
    then have "\<forall>ssm\<in>set (writer_metas w'). good_meta ?E ssm"
      using \<open>good_meta ?E new\<close> ok good_meta_mono [of D _ ?E] unfolding writer_ok_def by blast
    moreover have "(name, dim_sizes shape, dt) \<in> signature ` set (writer_metas w)" using mem old(3-5) by force
    ultimately show ?thesis using ok old(7) names unfolding writer_ok_def sigs by (simp only: order_refl simp_thms)
  next
    assume new: "map_of (name_to_index w) name = None" "name_to_index w' = name_to_index w @ [(name, length (writer_metas w))]"
      "writer_metas w' = writer_metas w @ [\<lparr>ssm_name = name, ssm_shape = dim_sizes shape, ssm_type = dt, ssm_slices = [SliceAsProto slc []]\<rparr>]"
    have "name \<notin> ssm_name ` set (writer_metas w)" using new(1) ok by (simp add: writer_ok_def map_of_eq_None_iff)
    moreover have "good_meta ?E \<lparr>ssm_name = name, ssm_shape = dim_sizes shape, ssm_type = dt, ssm_slices = [SliceAsProto slc []]\<rparr>"
      unfolding good_meta_def using s(1) shape(1) fits good(2) by (intro exI [of _ "[slc]"] exI [of _ s]) simp
    ultimately show ?thesis using ok new(2,3) good_meta_mono [OF _ subset_insertI] unfolding writer_ok_def by auto
  qed
  then show "writer_ok ?E w'" "signature ` set (writer_metas w) \<subseteq> signature ` set (writer_metas w')"
    "(name, dim_sizes shape, dt) \<in> signature ` set (writer_metas w')" by blast+
qed

text \<open>No two slices of a tensor have a cell in common.\<close>

fun apart :: "'d addition list \<Rightarrow> bool" where
  "apart [] \<longleftrightarrow> True"
| "apart ((name, shape, slc, dt, data) # as) \<longleftrightarrow>
    (\<forall>(n, z, s, t, d)\<in>set as. n = name \<longrightarrow> \<not> Overlaps s slc) \<and> apart as"

lemma save_all_ok:
  assumes "save_all msgs as w = Some (None, w')" "\<forall>a\<in>set as. good_addition a \<and> full_slice (fst (snd (snd a)))" "writer_ok D w" "apart as"
    and "\<forall>(n, z, s, t, d)\<in>set as. \<forall>u. (n, u) \<in> D \<longrightarrow> \<not> Overlaps s u"
  shows "(\<exists>E. writer_ok E w') \<and> signature ` set (writer_metas w) \<subseteq> signature ` set (writer_metas w') \<and>
    (\<forall>(n, z, s, t, d)\<in>set as. (n, dim_sizes z, t) \<in> signature ` set (writer_metas w'))"
  using assms
proof (induction as arbitrary: w D)
  case (Cons a as)
  obtain name shape slc dt data where a: "a = (name, shape, slc, dt, data)" by (metis prod_cases5)
  obtain w1 where w1: "writer_Add msgs name shape slc dt data w = Some (None, w1)" "save_all msgs as w1 = Some (None, w')"
    using Cons.prems(1) by (auto simp: a split: bind_splits if_splits)
  have good: "good_addition (name, shape, slc, dt, data)" "full_slice slc" and free: "\<forall>s. (name, s) \<in> D \<longrightarrow> \<not> Overlaps slc s"
    using Cons.prems(2,5) by (auto simp: a)
  note one = writer_Add_ok [OF w1(1) good Cons.prems(3) free]
  have IH: "(\<exists>E. writer_ok E w') \<and> signature ` set (writer_metas w1) \<subseteq> signature ` set (writer_metas w') \<and>
    (\<forall>(n, z, s, t, d)\<in>set as. (n, dim_sizes z, t) \<in> signature ` set (writer_metas w'))"
    by (rule Cons.IH [OF w1(2) _ one(1)]) (use Cons.prems(2,4,5) in \<open>auto simp: a\<close>)
  note step = conjunct1 [OF conjunct2 [OF IH]] and rest = conjunct2 [OF conjunct2 [OF IH]]
  have sub: "signature ` set (writer_metas w) \<subseteq> signature ` set (writer_metas w')" by (rule subset_trans [OF one(2) step])
  have mem: "(name, dim_sizes shape, dt) \<in> signature ` set (writer_metas w')" by (rule subsetD [OF step one(3)])
  have "case x of (n, z, s, t, d) \<Rightarrow> (n, dim_sizes z, t) \<in> signature ` set (writer_metas w')" if x: "x \<in> set (a # as)" for x
  proof (cases "x = a")
    case True
    then show ?thesis using mem unfolding a by (simp only: prod.case)
  next
    case False
    then have "x \<in> set as" using x by simp
    then show ?thesis by (rule bspec [OF rest])
  qed
  then show ?case using conjunct1 [OF IH] sub by blast
qed auto

subsection \<open>Loading the list\<close>

definition tensor_state :: "tensor_shape \<Rightarrow> nat \<Rightarrow> tensor_slice set \<Rightarrow> unit slice_set \<Rightarrow> bool" where
  "tensor_state shape type S tss \<longleftrightarrow> set_inv tss \<and> set_shape tss = shape \<and> set_type tss = type \<and> (\<forall>x\<in>set (slices tss). info_slice (snd x) \<in> S)"

definition current_set :: "u8 list \<Rightarrow> tensor_shape \<Rightarrow> nat \<Rightarrow> tensor_slice_reader \<Rightarrow> unit slice_set" where
  "current_set name shape type st = (case map_of (reader_tensors st) name of None \<Rightarrow> MkTensorSliceSet shape type | Some tss \<Rightarrow> tss)"

lemma Register_frame:
  assumes "Register slc tag d tss = Some (e, tss')"
  shows "set_shape tss' = set_shape tss \<and> set_type tss' = set_type tss"
  using assms by (auto simp: Register_def Let_def split: option.splits if_splits prod.splits)

text \<open>One more slice that fits and does not overlap what is there.\<close>

lemma RegisterTensorSlice_ok:
  assumes ts: "tensor_state shape type S (current_set name shape type st)" and s: "full_slice s" "fits (dim_sizes shape) s" "\<forall>t\<in>S. \<not> Overlaps s t"
  shows "\<exists>tss. RegisterTensorSlice name shape type fname s st = Some (st\<lparr>reader_tensors := put_tensor name tss (reader_tensors st)\<rparr>) \<and>
    tensor_state shape type (insert s S) tss"
proof -
  define tss where "tss = current_set name shape type st"
  have t: "set_inv tss" "set_shape tss = shape" "set_type tss = type" "\<forall>x\<in>set (slices tss). info_slice (snd x) \<in> S"
    using ts by (simp_all add: tensor_state_def tss_def)
  have "wf_slice s" using s(1) by (simp add: full_slice_def normal_slice_def)
  from Register_cases [OF t(1) this, of fname "()"]
  obtain e tss' where reg: "Register s fname () tss = Some (e, tss')" "set_inv tss'"
    and cases: "case e of
        None \<Rightarrow> fits (sizes tss) s \<and> cells (sizes tss) s \<inter> covered tss = {} \<and> covered tss' = covered tss \<union> cells (sizes tss) s
      | Some e \<Rightarrow> tss' = tss \<and> (\<not> fits (sizes tss) s \<or> (\<exists>x\<in>set (slices tss). Overlaps s (info_slice (snd x))))"
    by blast
  have e: "e = None" using cases s(2,3) t(2,4) by (cases e) auto
  have "set (slices tss') \<subseteq> set (slices tss) \<union> {x. info_slice (snd x) = s}"
    using Register_slices [OF reg(1)] e by (auto simp: map_insert_def split: if_splits)
  then have "tensor_state shape type (insert s S) tss'"
    using reg(2) Register_frame [OF reg(1)] t unfolding tensor_state_def by blast
  moreover have "RegisterTensorSlice name shape type fname s st = Some (st\<lparr>reader_tensors := put_tensor name tss' (reader_tensors st)\<rparr>)"
    using reg(1) e t(2,3)
    by (auto simp: RegisterTensorSlice_def Let_def tss_def current_set_def IsSameSize_iff split: option.splits)
  ultimately show ?thesis by blast
qed

lemma register_slices_ok:
  assumes "tensor_state shape (ssm_type ssm) S (current_set (ssm_name ssm) shape (ssm_type ssm) st)"
    and "\<forall>s\<in>set sl. full_slice s \<and> fits (dim_sizes shape) s \<and> (\<forall>t\<in>S. \<not> Overlaps s t)" "sorted_wrt (\<lambda>s t. \<not> Overlaps t s) sl" "sl \<noteq> []"
  shows "\<exists>ts tss. register_slices ssm shape fname (map (\<lambda>s. SliceAsProto s []) sl) st = Some (st\<lparr>reader_tensors := ts\<rparr>) \<and>
    map_of ts = (map_of (reader_tensors st))(ssm_name ssm \<mapsto> tss) \<and> set_shape tss = shape \<and> set_type tss = ssm_type ssm"
  using assms
proof (induction sl arbitrary: st S)
  case (Cons s sl)
  have from_proto: "SliceFromProto (SliceAsProto s []) = s" using Cons.prems(2) proto_roundtrip by (simp add: full_slice_def)
  obtain tss where one: "RegisterTensorSlice (ssm_name ssm) shape (ssm_type ssm) fname s st =
      Some (st\<lparr>reader_tensors := put_tensor (ssm_name ssm) tss (reader_tensors st)\<rparr>)" "tensor_state shape (ssm_type ssm) (insert s S) tss"
    using RegisterTensorSlice_ok [OF Cons.prems(1), of s fname] Cons.prems(2) by auto
  let ?st = "st\<lparr>reader_tensors := put_tensor (ssm_name ssm) tss (reader_tensors st)\<rparr>"
  show ?case
  proof (cases "sl = []")
    case True
    then show ?thesis using one from_proto
      by (intro exI [of _ "put_tensor (ssm_name ssm) tss (reader_tensors st)"] exI [of _ tss]) (simp add: map_of_put_tensor tensor_state_def)
  next
    case False
    have "current_set (ssm_name ssm) shape (ssm_type ssm) ?st = tss" by (simp add: current_set_def map_of_put_tensor)
    then have "\<exists>ts tss'. register_slices ssm shape fname (map (\<lambda>s. SliceAsProto s []) sl) ?st = Some (?st\<lparr>reader_tensors := ts\<rparr>) \<and>
        map_of ts = (map_of (reader_tensors ?st))(ssm_name ssm \<mapsto> tss') \<and> set_shape tss' = shape \<and> set_type tss' = ssm_type ssm"
      using one(2) Cons.prems(2,3) False by (intro Cons.IH [of "insert s S"]) auto
    then obtain ts tss' where rest: "register_slices ssm shape fname (map (\<lambda>s. SliceAsProto s []) sl) ?st = Some (st\<lparr>reader_tensors := ts\<rparr>)"
      "map_of ts = (map_of (reader_tensors st))(ssm_name ssm \<mapsto> tss')" "set_shape tss' = shape" "set_type tss' = ssm_type ssm"
      by (auto simp: map_of_put_tensor)
    then show ?thesis using one(1) from_proto by (intro exI [of _ ts] exI [of _ tss']) simp
  qed
qed simp

lemma register_tensors_ok:
  assumes "\<forall>ssm\<in>set ssms. good_meta D ssm" "distinct (map ssm_name ssms)" "\<forall>ssm\<in>set ssms. map_of (reader_tensors st) (ssm_name ssm) = None"
  shows "\<exists>ts. register_tensors fname ssms st = Some (st\<lparr>reader_tensors := ts\<rparr>) \<and>
    (\<forall>n. n \<notin> ssm_name ` set ssms \<longrightarrow> map_of ts n = map_of (reader_tensors st) n) \<and>
    (\<forall>ssm\<in>set ssms. \<exists>tss. map_of ts (ssm_name ssm) = Some tss \<and> dim_sizes (set_shape tss) = ssm_shape ssm \<and> set_type tss = ssm_type ssm)"
  using assms
proof (induction ssms arbitrary: st)
  case Nil
  then show ?case by (intro exI [of _ "reader_tensors st"]) simp
next
  case (Cons ssm ssms)
  obtain sl shape where g: "ssm_slices ssm = map (\<lambda>s. SliceAsProto s []) sl" "sl \<noteq> []" "MkTensorShape (ssm_shape ssm) = Some shape"
    "bounded_sizes (ssm_shape ssm)" "sorted_wrt (\<lambda>s t. \<not> Overlaps t s) sl" "\<forall>s\<in>set sl. full_slice s \<and> fits (ssm_shape ssm) s"
    using Cons.prems(1) unfolding good_meta_def by auto
  note sz = MkTensorShape_sizes [OF g(3)]
  have "current_set (ssm_name ssm) shape (ssm_type ssm) st = MkTensorSliceSet shape (ssm_type ssm)"
    using Cons.prems(3) by (simp add: current_set_def)
  moreover have "tensor_state shape (ssm_type ssm) {} (MkTensorSliceSet shape (ssm_type ssm))"
    using set_inv_empty [OF sz(2)] sz(1) g(4) by (simp add: tensor_state_def MkTensorSliceSet_def)
  ultimately obtain ts tss where one: "register_slices ssm shape fname (ssm_slices ssm) st = Some (st\<lparr>reader_tensors := ts\<rparr>)"
    "map_of ts = (map_of (reader_tensors st))(ssm_name ssm \<mapsto> tss)" "set_shape tss = shape" "set_type tss = ssm_type ssm"
    using register_slices_ok [of shape ssm "{}" st sl fname] g sz(1) by auto
  have fresh: "ssm_name ssm \<notin> ssm_name ` set ssms" using Cons.prems(2) by simp
  have "\<exists>ts'. register_tensors fname ssms (st\<lparr>reader_tensors := ts\<rparr>) = Some ((st\<lparr>reader_tensors := ts\<rparr>)\<lparr>reader_tensors := ts'\<rparr>) \<and>
    (\<forall>n. n \<notin> ssm_name ` set ssms \<longrightarrow> map_of ts' n = map_of (reader_tensors (st\<lparr>reader_tensors := ts\<rparr>)) n) \<and>
    (\<forall>ssm\<in>set ssms. \<exists>tss. map_of ts' (ssm_name ssm) = Some tss \<and> dim_sizes (set_shape tss) = ssm_shape ssm \<and> set_type tss = ssm_type ssm)"
  proof (rule Cons.IH)
    show "\<forall>ssm\<in>set ssms. map_of (reader_tensors (st\<lparr>reader_tensors := ts\<rparr>)) (ssm_name ssm) = None"
    proof
      fix m assume m: "m \<in> set ssms"
      then have "ssm_name m \<noteq> ssm_name ssm" using fresh by (metis imageI)
      then show "map_of (reader_tensors (st\<lparr>reader_tensors := ts\<rparr>)) (ssm_name m) = None" using Cons.prems(3) m by (simp add: one(2))
    qed
  qed (use Cons.prems(1,2) in auto)
  then obtain ts' where ts': "register_tensors fname ssms (st\<lparr>reader_tensors := ts\<rparr>) = Some (st\<lparr>reader_tensors := ts'\<rparr>)"
    "\<forall>n. n \<notin> ssm_name ` set ssms \<longrightarrow> map_of ts' n = map_of ts n"
    "\<forall>ssm\<in>set ssms. \<exists>tss. map_of ts' (ssm_name ssm) = Some tss \<and> dim_sizes (set_shape tss) = ssm_shape ssm \<and> set_type tss = ssm_type ssm" by auto
  have "register_tensors fname (ssm # ssms) st = Some (st\<lparr>reader_tensors := ts'\<rparr>)" using g(3) one(1) ts'(1) by simp
  moreover have "map_of ts' (ssm_name ssm) = Some tss" using ts'(2) fresh one(2) by simp
  ultimately show ?case using ts'(2,3) one(2-4) sz(1) by (intro exI [of _ ts']) auto
qed

subsection \<open>Properties\<close>

lemma Overlaps_self:
  assumes "full_slice s"
  shows "Overlaps s s"
proof -
  have wf: "wf_slice s" using assms by (simp add: full_slice_def normal_slice_def)
  have "meets s s d" if d: "d < sdims s" for d
  proof (cases "IsFullAt s d")
    case False
    then have "0 < lengths s ! d" using assms d by (fastforce simp: full_slice_def IsFullAt_def)
    moreover have "snd (inter1 s s d) = slice_length s d"
      using inter1_wf [OF wf wf d d False False] wf_slice_ends(3) [OF wf d False] by simp
    ultimately show ?thesis by (simp add: meets_def slice_length_def)
  qed (simp add: meets_def)
  then show ?thesis by (simp add: Overlaps_eq)
qed

lemma apart_distinct:
  "apart as \<Longrightarrow> \<forall>a\<in>set as. full_slice (fst (snd (snd a))) \<Longrightarrow> distinct (map (\<lambda>(name, shape, slc, dt, data). (name, slc)) as)"
proof (induction as rule: apart.induct)
  case (2 name shape slc dt data as)
  have "Overlaps slc slc" using "2.prems"(2) Overlaps_self by simp
  then have "(name, slc) \<notin> (\<lambda>(name, shape, slc, dt, data). (name, slc)) ` set as" using "2.prems"(1) by auto
  then show ?case using 2 by (simp add: case_prod_unfold)
qed simp



end
