(* ===== verification/Spec2Isabelle.thy ===== *)
theory Spec2Isabelle
  imports ImageJni AppInput Classifier Coding CancelManager Rendezvous BfcRuns BlockProps CheckpointLoad
begin

text \<open>
  A verification library for the C++ code of an Android app that names what its camera sees. The repository holds the app's own native
  code (\<open>src/Android/jni-build/jni\<close>, below \<open>J\<close>) and the source tree of TensorFlow it is linked with
  (\<open>J/include/tensorflow/core\<close>, below \<open>T\<close>). The app converts a camera frame to RGB, copies the pixels into a tensor and runs a session;
  the session rests on an allocator, a rendezvous between producers and consumers of tensors, shapes, and files of records,
  tables and checkpoints. The library follows these layers from the bottom to the top.

  \<^bold>\<open>Conventions.\<close> A definition follows one function of the source and bears its name. Machine integers are words, or numbers with
  the wrap-around written out (\<open>wrap32\<close>, \<open>wrap64\<close>); \<open>size_t\<close> has 64 bits. A buffer is a list with checked access (\<open>rd\<close>, \<open>wr\<close>). The
  outer \<open>None\<close> is what the code must never do: an access outside a buffer, a failed \<open>CHECK\<close>, or a loop that does not end.
  \<open>assert\<close> and \<open>DCHECK\<close> are compiled out, as in the build of the app. Errors the code returns are values of a sum
  or option type. Maps that are hashed are association lists. Loops that may not end are \<open>partial_function\<close>s into option, without
  fuel; that they end is proved: \<open>restart_loop\<close>, \<open>seek_loop\<close>, \<open>linear_loop\<close> and \<open>SkipEmptyDataBlocksForward\<close> on every block and table that was
  built, \<open>grow_loop\<close> for every request up to \<open>2 ^ 60\<close> bytes, \<open>backpedal_loop\<close> exactly for requests of 2304 bytes or more. The one
  bounded loop in the statements, \<open>scan\<close>, takes one step more than there are entries, which the properties prove to be enough.

  \<^bold>\<open>The theories, and what they model.\<close>

  \<^item> \<open>C_Prelude\<close>: checked arrays, pointers as a buffer with an offset, counted loops, and facts on words used everywhere.

  \<^item> \<open>ImageYuv\<close>, \<open>ImageRgb\<close>, \<open>ImageJni\<close>: \<open>J/yuv2rgb.cc\<close>, \<open>J/rgb2yuv.cc\<close> and the JNI entry points of \<open>J/imageutils_jni.cc\<close>. The
    lemmas give every pixel and byte that is written, and where the converters disagree (odd widths, half size).

  \<^item> \<open>AppInput\<close>, \<open>Classifier\<close>: \<open>J/jni_utils.cc\<close>, \<open>J/limiting_file_input_stream.h\<close> and \<open>J/tensorflow_jni.cc\<close>: reading of assets and labels,
    start-up, the input tensor, the quota of runs, the best results. The record \<open>classifier\<close> holds the file's static variables.

  \<^item> \<open>Coding\<close>, \<open>Bits\<close>, \<open>Crc32c\<close>: \<open>T/lib/core/coding.cc\<close>, \<open>raw_coding.h\<close>, \<open>bits.h\<close>, \<open>T/lib/hash/crc32c.cc\<close>. Round trips, both branches of
    the preprocessor, and the table-driven checksum as polynomial division.

  \<^item> \<open>KeyOrder\<close>, \<open>OrderedCode\<close>, \<open>SignedCode\<close>: \<open>T/lib/strings/ordered_code.cc\<close>: encodings whose bytes sort like the values.

  \<^item> \<open>Numbers\<close>, \<open>StrUtil\<close>: \<open>T/lib/strings/numbers.cc\<close>, \<open>str_util.cc\<close>: parsing with overflow checks, escapes, splitting.

  \<^item> \<open>TensorShape\<close>, \<open>TensorSlice\<close>, \<open>SliceSet\<close>, \<open>SavedSlice\<close>: \<open>T/framework/tensor_shape.cc\<close>, \<open>tensor_slice.cc\<close>, \<open>T/util/tensor_slice_set.cc\<close>,
    \<open>saved_tensor_slice_util.cc\<close>. A shape is abstracted to its list of dimensions, a slice to the set \<open>cells\<close> of the index vectors it selects.

  \<^item> \<open>CancelManager\<close>, \<open>Rendezvous\<close>: \<open>T/framework/cancellation.cc\<close>, \<open>rendezvous.cc\<close> as step relations, one transition per critical section, with
    invariants over all interleavings (\<open>reach\<close>).

  \<^item> \<open>BfcAllocator\<close> (the code), \<open>BfcHeap\<close> (the invariant of chunks, bins, free list and regions), \<open>BfcGrow\<close> (growth and back-off),
    \<open>BfcSafety\<close> (searching, extending, coalescing), \<open>BfcRuns\<close> (executions): \<open>T/common_runtime/bfc_allocator.cc\<close>. The state \<open>bfc\<close> is abstracted to
    the set \<open>allocations\<close> of the blocks clients hold. The executions \<open>bfc_reach\<close> have requests of at most \<open>2 ^ 60\<close> bytes, limits of at most
    \<open>2 ^ 61\<close> and regions of less than \<open>2 ^ 39\<close> bytes; \<open>bfc_huge_request\<close> and \<open>Extend_hangs\<close> show what happens beyond the first bound.

  \<^item> \<open>RecordIO\<close>: \<open>T/lib/io/record_writer.cc\<close>, \<open>record_reader.cc\<close> and the memory-mapped file of \<open>T/util/memmapped_file_system.cc\<close>.

  \<^item> \<open>Blocks\<close> (the code), \<open>BlockLayout\<close>, \<open>BlockIter\<close>, \<open>BlockProps\<close>, \<open>IteratorSpec\<close>: \<open>T/lib/io/block_builder.cc\<close>, \<open>block.cc\<close>, \<open>iterator.h\<close>.

  \<^item> \<open>TableFormat\<close>, \<open>TwoLevel\<close>, \<open>Tables\<close> (the code), \<open>TableWrite\<close>, \<open>TableProps\<close>: \<open>T/lib/io/format.cc\<close>, \<open>two_level_iterator.cc\<close>,
    \<open>table_builder.cc\<close>, \<open>table.cc\<close> and the wrapper of the compressor. A table file is abstracted to the list of its entries.

  \<^item> \<open>Checkpoint\<close> (the code), \<open>CheckpointProps\<close>, \<open>CheckpointLoad\<close>: \<open>T/util/tensor_slice_writer.{h,cc}\<close>, \<open>tensor_slice_reader.{h,cc}\<close>. The top of the
    library: its round trip composes shapes, slices, slice sets, keys, blocks and tables.

  \<^bold>\<open>Interfaces.\<close> \<open>codec\<close> (a decoder undoes an encoder in front of any rest) is interpreted by the two varints and by block handles.
  \<open>ordered_encoding\<close> (moreover the encoding is monotone; sequences of values then sort like their encodings) is interpreted by
  strings, unsigned and signed numbers, and used by the keys of checkpoints. \<open>random_access_file\<close> (what \<open>T/platform/file_system.h\<close>
  documents of \<open>Read\<close>) is interpreted by the memory-mapped file and used by records, tables and checkpoints. \<open>compression\<close> (what is
  compressed can be uncompressed) is interpreted by the build without Snappy. \<open>sorted_iterator\<close> (the contract of \<open>T/lib/io/iterator.h\<close>:
  seeking, stepping, keys and values of a sorted list of entries) is interpreted by the iterator of a block and by the two-level iterator of
  a table; its lemmas \<open>scan_all\<close> and \<open>seek_lookup\<close> give the round trips and the lookups of both.

  \<^bold>\<open>Parameters.\<close> Code that is not in the repository, or is generated or vendored, is an argument: the session and the float
  arithmetic (\<open>Classifier\<close>), the allocator below (\<open>sub_alloc\<close>), files and streams, Snappy, the copying of tensor data by Eigen, and the
  protocol-buffer messages of checkpoints (\<open>messages\<close>). What a property needs of them is a hypothesis of its own.

  \<^bold>\<open>What the lemmas show.\<close> Round trips: number and string encodings, escapes, slices as text and as keys, records, blocks, tables, checkpoints.
  Refinements: shapes to lists, slice sets to sets of cells, blocks and tables to finite maps, the allocator to the set of blocks. Invariants:
  the heap of the allocator, the packed shapes, the disjointness of stored slices, the rendezvous and the cancellation manager. Errors: what
  is exactly accepted by the readers of records and blocks, and inputs on which the code misbehaves, which are listed as findings.

  \<^bold>\<open>Not modelled.\<close> The rest of TensorFlow: tensors and kernels (Eigen expressions on floating-point data), graphs, the executor, sessions and the
  distributed runtime (concurrent code around closures and generated messages), op and node definitions (registries of generated
  messages), the GPU layer, floating-point formatting, random distributions, image codecs; vendored libraries and generated code; the operating
  system's files and clocks; the Java and PHP parts of the app. Of modelled parts: the logging, the waiting of \<open>AllocateRaw\<close> for other
  threads, the textual keys and the blocking receive of the rendezvous, the zlib compression of records, and of checkpoints tensors of
  strings, the temporary file and its renaming, the matching of file names, \<open>GetTensor\<close> and the debugging text. Integer widths that are
  left out are named in the theories: offsets in pictures, handles and statistics of the allocator, and lengths of strings.
\<close>

end
